(* ===== verification/Go_Prelude.thy ===== *)
theory Go_Prelude
  imports Complex_Main "HOL-Library.AList" "HOL-Library.Multiset" "HOL-Library.List_Lexorder" "HOL-Library.Char_ord"
    "HOL-Library.Word"
begin

unbundle bit_operations_syntax

text \<open>
  Shared vocabulary of the development: the Go types the model uses (instants and
  durations in nanoseconds, maps as association lists whose order is the iteration
  order, machine words), the rule collections that the component theories extend, and
  the generic lemmas on association lists, sorting and round-robin indexing that more
  than one component needs.
\<close>

section \<open>Types\<close>

text \<open>
  An instant (\<open>time.Time\<close>) and a duration (\<open>time.Duration\<close>) are integers counting
  nanoseconds. Go's zero \<open>time.Time\<close> is 1 January of year 1, that is
  62135596800 seconds before the Unix epoch.
\<close>

type_synonym instant = int
type_synonym duration = int
type_synonym byte = "8 word"
type_synonym u32 = "32 word"

definition zero_time :: instant where
  "zero_time = - 62135596800000000000"

definition second :: duration where
  "second = 1000000000"

definition minute :: duration where
  "minute = 60 * second"

text \<open>
  A Go map or \<open>sync.Map\<close> is an association list with distinct keys. The order of the
  list is the (unspecified) order in which \<open>range\<close> visits the entries, so a lemma about
  every list is a lemma about every iteration order.
\<close>

type_synonym ('k, 'v) gomap = "('k \<times> 'v) list"

abbreviation keys :: "('k, 'v) gomap \<Rightarrow> 'k list" where
  "keys m \<equiv> map fst m"

abbreviation wf_map :: "('k, 'v) gomap \<Rightarrow> bool" where
  "wf_map m \<equiv> distinct (map fst m)"

abbreviation put :: "'k \<Rightarrow> 'v \<Rightarrow> ('k, 'v) gomap \<Rightarrow> ('k, 'v) gomap" where
  "put \<equiv> AList.update"

abbreviation del :: "'k \<Rightarrow> ('k, 'v) gomap \<Rightarrow> ('k, 'v) gomap" where
  "del \<equiv> AList.delete"

section \<open>Rule collections\<close>

named_theorems gomap_simps \<open>association lists read as maps\<close>
named_theorems wf_intros \<open>well-formedness is kept by an operation\<close>
named_theorems component_defs \<open>operations unfolded in the proofs of their component\<close>

section \<open>Maps\<close>

lemma map_of_put [gomap_simps]: "map_of (put k v m) = (map_of m)(k \<mapsto> v)"
  by (rule update_conv')

lemma map_of_del [gomap_simps]: "map_of (del k m) = (map_of m)(k := None)"
  by (rule delete_conv')

lemma wf_map_put [wf_intros, simp]: "wf_map m \<Longrightarrow> wf_map (put k v m)"
  by (rule distinct_update)

lemma wf_map_del [wf_intros, simp]: "wf_map m \<Longrightarrow> wf_map (del k m)"
  by (rule distinct_delete)

lemma wf_map_filter [wf_intros, simp]: "wf_map m \<Longrightarrow> wf_map (filter P m)"
  by (simp add: distinct_map_filter)

lemma set_keys_put [simp]: "fst ` set (put k v m) = insert k (fst ` set m)"
  by (simp add: dom_update)

lemma set_keys_del [simp]: "fst ` set (del k m) = fst ` set m - {k}"
  by (induction m) auto

lemma map_of_filter_wf:
  assumes "wf_map m"
  shows "map_of (filter P m) k =
    (case map_of m k of None \<Rightarrow> None | Some v \<Rightarrow> if P (k, v) then Some v else None)"
  using assms
proof (induction m)
  case Nil
  then show ?case by simp
next
  case (Cons kv m)
  obtain k' v' where kv: "kv = (k', v')" by (cases kv)
  show ?case
  proof (cases "k = k'")
    case True
    with Cons.prems kv have none: "map_of m k = None"
      by (auto simp: map_of_eq_None_iff)
    with Cons kv True show ?thesis by auto
  next
    case False
    with Cons kv show ?thesis by auto
  qed
qed

lemma map_of_fold_del: "map_of (fold del ks m) = (\<lambda>k. if k \<in> set ks then None else map_of m k)"
  by (induction ks arbitrary: m) (auto simp: gomap_simps)

lemma wf_map_fold_del [wf_intros, simp]: "wf_map m \<Longrightarrow> wf_map (fold del ks m)"
  by (induction ks arbitrary: m) auto

lemma keys_fold_del: "set (keys (fold del ks m)) = set (keys m) - set ks"
  by (induction ks arbitrary: m) auto

lemma wf_map_map_snd: "wf_map m \<Longrightarrow> wf_map (map (\<lambda>(k, v). (k, f k v)) m)"
  by (simp add: comp_def split_def)

lemma map_of_map_snd: "map_of (map (\<lambda>(k, v). (k, f k v)) m) k = map_option (f k) (map_of m k)"
  by (induction m) auto

declare map_of_eq_Some_iff [simp del] Some_eq_map_of_iff [simp del]

lemma map_of_eq_Some_wf: "wf_map m \<Longrightarrow> map_of m k = Some v \<longleftrightarrow> (k, v) \<in> set m"
  by (rule map_of_eq_Some_iff)

lemma filter_keys_wf:
  "wf_map m \<Longrightarrow> set (keys (filter P m)) = {k. \<exists>v. map_of m k = Some v \<and> P (k, v)}"
  by (auto simp: map_of_eq_Some_wf intro: rev_image_eqI)

section \<open>Sorting\<close>

text \<open>
  \<open>sort.Strings\<close> orders byte strings lexicographically; \<^const>\<open>sort\<close> on
  \<^typ>\<open>string\<close> does the same. Its result depends on the elements only, not on the order
  in which the caller collected them.
\<close>

lemma sort_of_same_set:
  fixes xs ys :: "string list"
  assumes "distinct xs" and "distinct ys" and "set xs = set ys"
  shows "sort xs = sort ys"
  using assms by (metis distinct_sort set_sort sorted_distinct_set_unique sorted_sort)

section \<open>Round robin\<close>

text \<open>The slot \<open>xs[i % len(xs)]\<close> that the assignment loops use.\<close>

definition round_robin :: "'a list \<Rightarrow> nat \<Rightarrow> 'a" where
  "round_robin xs i = xs ! (i mod length xs)"

lemma round_robin_in [simp]: "xs \<noteq> [] \<Longrightarrow> round_robin xs i \<in> set xs"
  by (simp add: round_robin_def)

section \<open>Strings without case\<close>

text \<open>
  \<^verbatim>\<open>strings.EqualFold\<close> on ASCII text: header values and JSON field names.
\<close>

definition ascii_lower :: "char \<Rightarrow> char" where
  "ascii_lower c = (let n = of_char c :: nat in if 65 \<le> n \<and> n \<le> 90 then char_of (n + 32) else c)"

definition EqualFold :: "string \<Rightarrow> string \<Rightarrow> bool" where
  "EqualFold s t \<longleftrightarrow> map ascii_lower s = map ascii_lower t"

end
