(* ===== verification/Expiring_Cache.thy ===== *)
theory Expiring_Cache
  imports Go_Prelude
begin

text \<open>
  The contract that the two in-process caches of the proxy share (user_cache.go and
  jwt_cache.go): a map whose entries carry an expiry instant, a \<open>Get\<close> that drops an
  expired entry on the way, and a periodic sweep. The interface is a locale over the
  concrete cache state; each cache interprets it in its own theory, and the request path
  uses the lemmas proved here once.
\<close>

text \<open>What is still valid at an instant: Go's \<^verbatim>\<open>!now.After(exp)\<close>.\<close>

definition live :: "('k \<rightharpoonup> 'v \<times> instant) \<Rightarrow> instant \<Rightarrow> 'k \<rightharpoonup> 'v" where
  "live m now k = (case m k of None \<Rightarrow> None | Some (v, e) \<Rightarrow> if e < now then None else Some v)"

lemma live_upd [simp]:
  "live (m(k \<mapsto> (v, e))) now = (live m now)(k := (if e < now then None else Some v))"
  by (rule ext) (simp add: live_def)

lemma live_del [simp]: "live (m(k := None)) now = (live m now)(k := None)"
  by (rule ext) (simp add: live_def)

lemma live_mono: "now \<le> later \<Longrightarrow> live m now k = None \<Longrightarrow> live m later k = None"
  by (auto simp: live_def split: option.splits if_splits)

lemma live_later_eq: "now \<le> later \<Longrightarrow> live m later k = Some v \<Longrightarrow> live m now k = Some v"
  by (auto simp: live_def split: option.splits if_splits)

locale expiring_cache =
  fixes lookup :: "instant \<Rightarrow> 'k \<Rightarrow> 's \<Rightarrow> 'v option \<times> 's"
    and insert_until :: "'k \<Rightarrow> 'v \<Rightarrow> instant \<Rightarrow> 's \<Rightarrow> 's"
    and sweep :: "instant \<Rightarrow> 's \<Rightarrow> 's"
    and view :: "'s \<Rightarrow> 'k \<rightharpoonup> 'v \<times> instant"
    and invar :: "'s \<Rightarrow> bool"
  assumes lookup_result: "invar s \<Longrightarrow> fst (lookup now k s) = live (view s) now k"
    and lookup_view: "invar s \<Longrightarrow> view (snd (lookup now k s)) =
      (if live (view s) now k = None then (view s)(k := None) else view s)"
    and insert_view: "invar s \<Longrightarrow> view (insert_until k v e s) = (view s)(k \<mapsto> (v, e))"
    and sweep_shrinks: "invar s \<Longrightarrow> view (sweep now s) k \<in> {None, view s k}"
    and sweep_expired: "invar s \<Longrightarrow> view (sweep now s) k = Some (v, e) \<Longrightarrow> now \<le> e"
    and invar_lookup: "invar s \<Longrightarrow> invar (snd (lookup now k s))"
    and invar_insert: "invar s \<Longrightarrow> invar (insert_until k v e s)"
    and invar_sweep: "invar s \<Longrightarrow> invar (sweep now s)"
begin

lemmas cache_laws = lookup_result lookup_view insert_view invar_lookup invar_insert invar_sweep

lemma lookup_after_insert:
  "invar s \<Longrightarrow> now \<le> e \<Longrightarrow> fst (lookup now k (insert_until k v e s)) = Some v"
  by (simp add: cache_laws live_def)

lemma lookup_after_insert_expired:
  "invar s \<Longrightarrow> e < now \<Longrightarrow> fst (lookup now k (insert_until k v e s)) = None"
  by (simp add: cache_laws live_def)

lemma lookup_after_insert_other:
  "invar s \<Longrightarrow> k \<noteq> k' \<Longrightarrow> fst (lookup now k' (insert_until k v e s)) = fst (lookup now k' s)"
  by (simp add: cache_laws live_def)

text \<open>A lookup has no effect that a later lookup can see.\<close>

lemma lookup_transparent:
  "invar s \<Longrightarrow> now \<le> later \<Longrightarrow> live (view (snd (lookup now k s))) later = live (view s) later"
  by (rule ext) (auto simp: cache_laws dest: live_mono)

lemma sweep_live_shrinks:
  "invar s \<Longrightarrow> live (view (sweep now s)) t k = Some v \<Longrightarrow> live (view s) t k = Some v"
  using sweep_shrinks [of s now k] by (cases "view s k") (auto simp: live_def)

end

text \<open>A cache whose sweep drops nothing but expired entries.\<close>

locale exact_expiring_cache = expiring_cache +
  assumes sweep_keeps: "invar s \<Longrightarrow> view s k = Some (v, e) \<Longrightarrow> now \<le> e \<Longrightarrow>
    view (sweep now s) k = Some (v, e)"
begin

lemma sweep_transparent:
  assumes "invar s" and "now \<le> later"
  shows "live (view (sweep now s)) later = live (view s) later"
proof (rule ext)
  fix k
  show "live (view (sweep now s)) later k = live (view s) later k"
  proof (cases "view s k")
    case None
    with sweep_shrinks [OF assms(1), of now k] show ?thesis by (simp add: live_def)
  next
    case (Some ve)
    obtain v e where ve: "ve = (v, e)" by (cases ve)
    show ?thesis
    proof (cases "now \<le> e")
      case True
      with assms Some ve show ?thesis by (simp add: live_def sweep_keeps)
    next
      case False
      with sweep_shrinks [OF assms(1), of now k] Some ve assms(2) show ?thesis
        by (auto simp: live_def)
    qed
  qed
qed

end

end
