(* ===== verification/User_Cache.thy ===== *)
theory User_Cache
  imports Expiring_Cache
begin

text \<open>
  The local routing cache (user_cache.go): routing key to backend, each entry valid for
  the configured time to live. The \<open>sync.Map\<close> is a Go map; the instants that the code
  reads with \<^verbatim>\<open>time.Now()\<close> are arguments.
\<close>

record cache_entry =
  ce_backend :: string
  ce_exp :: instant

record user_cache =
  uc_ttl :: duration
  uc_data :: "(string, cache_entry) gomap"

datatype cache_error = ErrCacheMiss

definition NewUserCache :: "duration \<Rightarrow> user_cache" where
  "NewUserCache ttl = \<lparr>uc_ttl = ttl, uc_data = []\<rparr>"

definition UserCache_Get :: "instant \<Rightarrow> string \<Rightarrow> user_cache \<Rightarrow> (cache_error + string) \<times> user_cache" where
  "UserCache_Get now key c =
     (case map_of (uc_data c) key of
        None \<Rightarrow> (Inl ErrCacheMiss, c)
      | Some entry \<Rightarrow>
          if now > ce_exp entry
          then (Inl ErrCacheMiss, c\<lparr>uc_data := del key (uc_data c)\<rparr>)
          else (Inr (ce_backend entry), c))"

definition UserCache_Set :: "instant \<Rightarrow> string \<Rightarrow> string \<Rightarrow> user_cache \<Rightarrow> user_cache" where
  "UserCache_Set now key backend c =
     c\<lparr>uc_data := put key \<lparr>ce_backend = backend, ce_exp = now + uc_ttl c\<rparr> (uc_data c)\<rparr>"

definition UserCache_Invalidate :: "string \<Rightarrow> user_cache \<Rightarrow> user_cache" where
  "UserCache_Invalidate userID c = c\<lparr>uc_data := del userID (uc_data c)\<rparr>"

definition UsersForBackend :: "instant \<Rightarrow> string \<Rightarrow> user_cache \<Rightarrow> string list" where
  "UsersForBackend now backend c =
     keys (filter (\<lambda>(key, entry). ce_backend entry = backend \<and> \<not> ce_exp entry < now) (uc_data c))"

definition InvalidateBackend :: "string \<Rightarrow> user_cache \<Rightarrow> user_cache" where
  "InvalidateBackend backend c =
     c\<lparr>uc_data := filter (\<lambda>(key, entry). ce_backend entry \<noteq> backend) (uc_data c)\<rparr>"

text \<open>One tick of \<^verbatim>\<open>cleanupLoop\<close>.\<close>

definition UserCache_cleanup :: "instant \<Rightarrow> user_cache \<Rightarrow> user_cache" where
  "UserCache_cleanup now c = c\<lparr>uc_data := filter (\<lambda>(key, entry). \<not> now > ce_exp entry) (uc_data c)\<rparr>"

section \<open>Invariant and abstraction\<close>

definition uc_wf :: "user_cache \<Rightarrow> bool" where
  "uc_wf c \<longleftrightarrow> wf_map (uc_data c)"

definition uc_view :: "user_cache \<Rightarrow> string \<rightharpoonup> string \<times> instant" where
  "uc_view c k = map_option (\<lambda>e. (ce_backend e, ce_exp e)) (map_of (uc_data c) k)"

text \<open>The backend a request for \<open>k\<close> finds in the cache at an instant.\<close>

abbreviation cached :: "user_cache \<Rightarrow> instant \<Rightarrow> string \<rightharpoonup> string" where
  "cached c \<equiv> live (uc_view c)"

lemmas uc_defs [component_defs] = UserCache_Get_def UserCache_Set_def UserCache_Invalidate_def
  InvalidateBackend_def UserCache_cleanup_def uc_wf_def

lemma uc_wf_ops [wf_intros, simp]:
  "uc_wf (NewUserCache ttl)"
  "uc_wf c \<Longrightarrow> uc_wf (snd (UserCache_Get now k c))"
  "uc_wf c \<Longrightarrow> uc_wf (UserCache_Set now k b c)"
  "uc_wf c \<Longrightarrow> uc_wf (UserCache_Invalidate k c)"
  "uc_wf c \<Longrightarrow> uc_wf (InvalidateBackend b c)"
  "uc_wf c \<Longrightarrow> uc_wf (UserCache_cleanup now c)"
  by (simp_all add: uc_defs NewUserCache_def split: option.split)

lemma uc_view_Set: "uc_view (UserCache_Set now k b c) = (uc_view c)(k \<mapsto> (b, now + uc_ttl c))"
  by (rule ext) (simp add: uc_view_def uc_defs gomap_simps)

lemma uc_view_Invalidate: "uc_view (UserCache_Invalidate k c) = (uc_view c)(k := None)"
  by (rule ext) (simp add: uc_view_def uc_defs gomap_simps)

lemma uc_view_Get:
  "uc_view (snd (UserCache_Get now k c)) =
     (if cached c now k = None then (uc_view c)(k := None) else uc_view c)"
  by (rule ext) (auto simp: uc_view_def uc_defs live_def gomap_simps split: option.splits)

lemma Get_result:
  "fst (UserCache_Get now k c) = (case cached c now k of None \<Rightarrow> Inl ErrCacheMiss | Some b \<Rightarrow> Inr b)"
  by (simp add: uc_view_def uc_defs live_def split: option.splits)

lemma uc_view_InvalidateBackend:
  "uc_wf c \<Longrightarrow> uc_view (InvalidateBackend b c) k =
     (case uc_view c k of None \<Rightarrow> None | Some (b', e) \<Rightarrow> if b' = b then None else Some (b', e))"
  by (simp add: uc_view_def uc_defs map_of_filter_wf split: option.splits)

lemma uc_view_cleanup:
  "uc_wf c \<Longrightarrow> uc_view (UserCache_cleanup now c) k =
     (case uc_view c k of None \<Rightarrow> None | Some (b, e) \<Rightarrow> if e < now then None else Some (b, e))"
  by (simp add: uc_view_def uc_defs map_of_filter_wf split: option.splits)

definition uc_lookup :: "instant \<Rightarrow> string \<Rightarrow> user_cache \<Rightarrow> string option \<times> user_cache" where
  "uc_lookup now k c = (case UserCache_Get now k c of
      (Inl _, c') \<Rightarrow> (None, c') | (Inr b, c') \<Rightarrow> (Some b, c'))"

lemma uc_lookup_simps [simp]:
  "fst (uc_lookup now k c) = cached c now k"
  "snd (uc_lookup now k c) = snd (UserCache_Get now k c)"
  using Get_result [of now k c]
  by (auto simp: uc_lookup_def split: prod.splits sum.splits option.splits)

definition uc_put_until :: "string \<Rightarrow> string \<Rightarrow> instant \<Rightarrow> user_cache \<Rightarrow> user_cache" where
  "uc_put_until k b e c = UserCache_Set (e - uc_ttl c) k b c"

interpretation ucache: exact_expiring_cache uc_lookup uc_put_until UserCache_cleanup uc_view uc_wf
proof unfold_locales
  fix c now k assume "uc_wf c"
  then show "uc_view (UserCache_cleanup now c) k \<in> {None, uc_view c k}"
    by (simp add: uc_view_cleanup split: option.splits prod.splits)
next
  fix c now k v e assume "uc_wf c" "uc_view (UserCache_cleanup now c) k = Some (v, e)"
  then show "now \<le> e"
    by (auto simp: uc_view_cleanup split: option.splits prod.splits if_splits)
next
  fix c k v e now assume "uc_wf c" "uc_view c k = Some (v, e)" "now \<le> e"
  then show "uc_view (UserCache_cleanup now c) k = Some (v, e)"
    by (simp add: uc_view_cleanup)
qed (simp_all add: uc_view_Get uc_put_until_def uc_view_Set)

section \<open>Behaviour\<close>

lemma cached_Set:
  "cached (UserCache_Set now k b c) t =
     (cached c t)(k := (if t \<le> now + uc_ttl c then Some b else None))"
  by (rule ext) (simp add: uc_view_Set)

lemma cached_Invalidate [simp]: "cached (UserCache_Invalidate k c) t = (cached c t)(k := None)"
  by (simp add: uc_view_Invalidate)

lemma cached_InvalidateBackend:
  "uc_wf c \<Longrightarrow> cached (InvalidateBackend b c) t k = (if cached c t k = Some b then None else cached c t k)"
  by (auto simp: live_def uc_view_InvalidateBackend split: option.splits prod.splits if_splits)

lemma UsersForBackend_exact:
  assumes "uc_wf c"
  shows "set (UsersForBackend now b c) = {k. cached c now k = Some b}"
proof -
  have "set (UsersForBackend now b c) =
      {k. \<exists>e. map_of (uc_data c) k = Some e \<and> ce_backend e = b \<and> \<not> ce_exp e < now}"
    using assms by (simp only: UsersForBackend_def uc_wf_def filter_keys_wf prod.case)
  then show ?thesis
    by (auto simp: live_def uc_view_def split: option.splits if_splits)
qed

lemma UsersForBackend_distinct: "uc_wf c \<Longrightarrow> distinct (UsersForBackend now b c)"
  by (simp add: UsersForBackend_def uc_wf_def)

end
