(* ===== verification/Jwt_Auth.thy ===== *)
theory Jwt_Auth
  imports Expiring_Cache
begin

text \<open>
  Authentication (jwt_cache.go and jwt.go): the token cache with its bounded sweep, and
  \<^verbatim>\<open>extractUserIDFromJWT\<close>, which turns an \<open>Authorization\<close> header into a routing key. The
  JWT library is a parameter \<open>parse\<close>: given the key function, the instant and the token
  text it returns a parsed token or an error. \<^verbatim>\<open>rand.Shuffle\<close> is a parameter as well.
\<close>

section \<open>The token cache\<close>

record cached_jwt =
  RoutingKey :: string
  Exp :: instant

record jwt_cache =
  jc_data :: "(string, cached_jwt) gomap"
  jc_maxSize :: int

definition NewJWTCache :: "int \<Rightarrow> jwt_cache" where
  "NewJWTCache maxSize = \<lparr>jc_data = [], jc_maxSize = maxSize\<rparr>"

definition JWTCache_Get :: "instant \<Rightarrow> string \<Rightarrow> jwt_cache \<Rightarrow> cached_jwt option \<times> jwt_cache" where
  "JWTCache_Get now tok c =
     (case map_of (jc_data c) tok of
        None \<Rightarrow> (None, c)
      | Some j \<Rightarrow> if now > Exp j then (None, c\<lparr>jc_data := del tok (jc_data c)\<rparr>) else (Some j, c))"

definition JWTCache_Set :: "string \<Rightarrow> cached_jwt \<Rightarrow> jwt_cache \<Rightarrow> jwt_cache" where
  "JWTCache_Set tok j c = c\<lparr>jc_data := put tok j (jc_data c)\<rparr>"

definition JWTCache_sweep :: "(string list \<Rightarrow> string list) \<Rightarrow> instant \<Rightarrow> jwt_cache \<Rightarrow> jwt_cache" where
  "JWTCache_sweep shuffle now c =
     (let data = filter (\<lambda>(tok, j). \<not> now > Exp j) (jc_data c);
          ks = keys data
      in if jc_maxSize c > 0 \<and> int (length ks) > jc_maxSize c
         then c\<lparr>jc_data := fold del (drop (nat (jc_maxSize c)) (shuffle ks)) data\<rparr>
         else c\<lparr>jc_data := data\<rparr>)"

definition jc_wf :: "jwt_cache \<Rightarrow> bool" where
  "jc_wf c \<longleftrightarrow> wf_map (jc_data c)"

definition jc_view :: "jwt_cache \<Rightarrow> string \<rightharpoonup> cached_jwt \<times> instant" where
  "jc_view c k = map_option (\<lambda>j. (j, Exp j)) (map_of (jc_data c) k)"

lemma jc_view_Get:
  "jc_view (snd (JWTCache_Get now k c)) =
     (if live (jc_view c) now k = None then (jc_view c)(k := None) else jc_view c)"
  by (rule ext) (auto simp: jc_view_def JWTCache_Get_def live_def gomap_simps split: option.splits)

lemma jc_Get_result: "fst (JWTCache_Get now k c) = live (jc_view c) now k"
  by (simp add: jc_view_def JWTCache_Get_def live_def split: option.splits)

lemma jc_sweep_lookup:
  assumes "jc_wf c" and "map_of (jc_data (JWTCache_sweep shuffle now c)) k = Some j"
  shows "map_of (jc_data c) k = Some j \<and> now \<le> Exp j"
  using assms
  by (auto simp: JWTCache_sweep_def Let_def jc_wf_def map_of_fold_del map_of_filter_wf
      split: if_splits option.splits)

lemma jc_wf_ops [wf_intros, simp]:
  "jc_wf (NewJWTCache n)"
  "jc_wf c \<Longrightarrow> jc_wf (snd (JWTCache_Get now k c))"
  "jc_wf c \<Longrightarrow> jc_wf (JWTCache_Set k j c)"
  "jc_wf c \<Longrightarrow> jc_wf (JWTCache_sweep shuffle now c)"
  by (auto simp: jc_wf_def NewJWTCache_def JWTCache_Get_def JWTCache_Set_def JWTCache_sweep_def
      Let_def split: option.splits)

text \<open>
  The cached value is the routing key; its expiry is the one stored with it, so the view
  below projects an entry to the pair the interface speaks of.
\<close>

definition jc_key_view :: "jwt_cache \<Rightarrow> string \<rightharpoonup> string \<times> instant" where
  "jc_key_view c k = map_option (\<lambda>j. (RoutingKey j, Exp j)) (map_of (jc_data c) k)"

definition jc_lookup :: "instant \<Rightarrow> string \<Rightarrow> jwt_cache \<Rightarrow> string option \<times> jwt_cache" where
  "jc_lookup now k c = (case JWTCache_Get now k c of (r, c') \<Rightarrow> (map_option RoutingKey r, c'))"

definition jc_insert :: "string \<Rightarrow> string \<Rightarrow> instant \<Rightarrow> jwt_cache \<Rightarrow> jwt_cache" where
  "jc_insert k rk e c = JWTCache_Set k \<lparr>RoutingKey = rk, Exp = e\<rparr> c"

lemma jc_live_key_view:
  "live (jc_key_view c) now k = map_option RoutingKey (live (jc_view c) now k)"
  by (simp add: live_def jc_key_view_def jc_view_def split: option.splits)

interpretation jcache: expiring_cache jc_lookup jc_insert "JWTCache_sweep shuffle" jc_key_view jc_wf
  for shuffle :: "string list \<Rightarrow> string list"
proof unfold_locales
  fix c now k assume "jc_wf c"
  show "fst (jc_lookup now k c) = live (jc_key_view c) now k"
    by (simp add: jc_lookup_def jc_Get_result [symmetric] jc_live_key_view split: prod.split)
  show "jc_key_view (snd (jc_lookup now k c)) =
      (if live (jc_key_view c) now k = None then (jc_key_view c)(k := None) else jc_key_view c)"
    by (rule ext) (auto simp: jc_lookup_def jc_key_view_def JWTCache_Get_def live_def gomap_simps
        split: option.splits)
  show "jc_wf (snd (jc_lookup now k c))"
    using \<open>jc_wf c\<close> by (simp add: jc_lookup_def split: prod.split) (metis jc_wf_ops(2) snd_conv)
next
  fix c k v e assume "jc_wf c"
  show "jc_key_view (jc_insert k v e c) = (jc_key_view c)(k \<mapsto> (v, e))"
    by (rule ext) (simp add: jc_insert_def JWTCache_Set_def jc_key_view_def gomap_simps)
next
  fix c now k assume "jc_wf c"
  then show "jc_key_view (JWTCache_sweep shuffle now c) k \<in> {None, jc_key_view c k}"
    by (cases "map_of (jc_data (JWTCache_sweep shuffle now c)) k")
       (auto simp: jc_key_view_def dest: jc_sweep_lookup)
next
  fix c now k v e assume "jc_wf c" "jc_key_view (JWTCache_sweep shuffle now c) k = Some (v, e)"
  then show "now \<le> e" by (auto simp: jc_key_view_def dest: jc_sweep_lookup)
qed (simp_all add: jc_insert_def)

lemma length_fold_del:
  "wf_map m \<Longrightarrow> distinct ks \<Longrightarrow> set ks \<subseteq> set (keys m) \<Longrightarrow> length (fold del ks m) = length m - length ks"
proof -
  assume a: "wf_map m" "distinct ks" "set ks \<subseteq> set (keys m)"
  have "length (fold del ks m) = card (set (keys (fold del ks m)))"
    using a(1) by (metis distinct_card length_map wf_map_fold_del)
  also have "\<dots> = card (set (keys m)) - card (set ks)"
    using a(3) by (simp only: keys_fold_del) (rule card_Diff_subset; simp)
  finally show ?thesis
    using a(1,2) by (metis distinct_card length_map)
qed

text \<open>
  The sweep bounds the cache: whatever permutation \<^verbatim>\<open>rand.Shuffle\<close> produces, at most
  \<open>maxSize\<close> entries stay when a positive bound is configured.
\<close>

lemma sweep_bounded:
  assumes wf: "jc_wf c" and perm: "\<And>xs. mset (shuffle xs) = mset xs" and pos: "0 < jc_maxSize c"
  shows "int (length (jc_data (JWTCache_sweep shuffle now c))) \<le> jc_maxSize c"
proof -
  let ?data = "filter (\<lambda>(tok, j). \<not> now > Exp j) (jc_data c)"
  let ?ks = "drop (nat (jc_maxSize c)) (shuffle (keys ?data))"
  have wfd: "wf_map ?data" using wf by (simp add: jc_wf_def)
  have len: "length (shuffle (keys ?data)) = length ?data"
    using perm by (metis length_map size_mset)
  have "distinct (shuffle (keys ?data))"
    using perm wfd by (metis mset_eq_imp_distinct_iff)
  then have d: "distinct ?ks" by simp
  have "set ?ks \<subseteq> set (keys ?data)"
    using perm by (metis mset_eq_setD set_drop_subset)
  then have "length (fold del ?ks ?data) = length ?data - length ?ks"
    by (rule length_fold_del [OF wfd d])
  then show ?thesis
    using pos len by (auto simp: JWTCache_sweep_def Let_def)
qed

section \<open>From the header to the routing key\<close>

datatype claim_value = ClaimString string | ClaimNumber rat | ClaimOther

datatype signing_method = SigningMethodHMAC | OtherMethod

datatype auth_error =
    InvalidAuthHeader
  | UnexpectedSigningMethod
  | InvalidToken
  | RoutingClaimEmpty
  | LibraryError string

record jwt_token =
  Valid :: bool
  Claims :: "(string, claim_value) gomap"

type_synonym keyfunc = "signing_method \<Rightarrow> auth_error + string"
type_synonym jwt_parser = "keyfunc \<Rightarrow> instant \<Rightarrow> string \<Rightarrow> auth_error + jwt_token"

text \<open>The key function of jwt.go: only HMAC methods get the secret.\<close>

fun hmac_key :: "string \<Rightarrow> keyfunc" where
  "hmac_key jwtSecret SigningMethodHMAC = Inr jwtSecret"
| "hmac_key jwtSecret OtherMethod = Inl UnexpectedSigningMethod"

text \<open>\<^verbatim>\<open>strings.SplitN(s, " ", 2)\<close> when it yields two parts.\<close>

definition splitN2 :: "string \<Rightarrow> (string \<times> string) option" where
  "splitN2 s = (case dropWhile (\<lambda>ch. ch \<noteq> CHR '' '') s of
      [] \<Rightarrow> None | _ # rest \<Rightarrow> Some (takeWhile (\<lambda>ch. ch \<noteq> CHR '' '') s, rest))"

fun claim_string :: "claim_value option \<Rightarrow> string" where
  "claim_string (Some (ClaimString s)) = s"
| "claim_string _ = []"

fun claim_number :: "claim_value option \<Rightarrow> rat" where
  "claim_number (Some (ClaimNumber x)) = x"
| "claim_number _ = 0"

definition unix_time :: "rat \<Rightarrow> instant" where
  "unix_time x = (if 0 \<le> x then \<lfloor>x\<rfloor> else \<lceil>x\<rceil>) * second"

definition extractUserIDFromJWT ::
  "jwt_parser \<Rightarrow> instant \<Rightarrow> string \<Rightarrow> jwt_cache \<Rightarrow> string \<Rightarrow> string \<Rightarrow>
   (auth_error + cached_jwt) \<times> jwt_cache" where
  "extractUserIDFromJWT parse now authHeader cache jwtSecret routingClaim =
     (case splitN2 authHeader of
        None \<Rightarrow> (Inl InvalidAuthHeader, cache)
      | Some (scheme, tokenStr) \<Rightarrow>
          if scheme \<noteq> ''Bearer'' then (Inl InvalidAuthHeader, cache)
          else
            (case JWTCache_Get now tokenStr cache of
               (Some c, cache') \<Rightarrow> (Inr c, cache')
             | (None, cache') \<Rightarrow>
                 (case parse (hmac_key jwtSecret) now tokenStr of
                    Inl _ \<Rightarrow> (Inl InvalidToken, cache')
                  | Inr token \<Rightarrow>
                      if \<not> Valid token then (Inl InvalidToken, cache')
                      else
                        (let routingKey = claim_string (map_of (Claims token) routingClaim);
                             expUnix = claim_number (map_of (Claims token) ''exp'');
                             c = \<lparr>RoutingKey = routingKey, Exp = unix_time expUnix\<rparr>
                         in if routingKey = [] then (Inl RoutingClaimEmpty, cache')
                            else (Inr c, JWTCache_Set tokenStr c cache')))))"

text \<open>
  What the JWT library documents of \<^verbatim>\<open>Parse\<close>: a token is returned only after the key
  function accepted the token's signing method and the signature verified under the key
  it returned. \<open>method_of\<close> and \<open>verifies\<close> describe the token text.
\<close>

definition parse_documented ::
  "(string \<Rightarrow> signing_method) \<Rightarrow> (string \<Rightarrow> string \<Rightarrow> bool) \<Rightarrow> jwt_parser \<Rightarrow> bool" where
  "parse_documented method_of verifies parse \<longleftrightarrow>
     (\<forall>kf now s t. parse kf now s = Inr t \<longrightarrow> (\<exists>key. kf (method_of s) = Inr key \<and> verifies key s))"

text \<open>A cached entry is authentic if the library accepted its token at some instant.\<close>

definition authentic :: "jwt_parser \<Rightarrow> string \<Rightarrow> string \<Rightarrow> string \<Rightarrow> cached_jwt \<Rightarrow> bool" where
  "authentic parse jwtSecret routingClaim tok c \<longleftrightarrow>
     (\<exists>t0 token. parse (hmac_key jwtSecret) t0 tok = Inr token \<and> Valid token \<and>
        RoutingKey c = claim_string (map_of (Claims token) routingClaim) \<and> RoutingKey c \<noteq> [] \<and>
        Exp c = unix_time (claim_number (map_of (Claims token) ''exp'')))"

definition cache_authentic :: "jwt_parser \<Rightarrow> string \<Rightarrow> string \<Rightarrow> jwt_cache \<Rightarrow> bool" where
  "cache_authentic parse jwtSecret routingClaim cache \<longleftrightarrow>
     (\<forall>tok c. map_of (jc_data cache) tok = Some c \<longrightarrow> authentic parse jwtSecret routingClaim tok c)"

lemma cache_authentic_new: "cache_authentic parse secret claim (NewJWTCache n)"
  by (simp add: cache_authentic_def NewJWTCache_def)

lemma cache_authentic_Get:
  "cache_authentic parse secret claim c \<Longrightarrow> cache_authentic parse secret claim (snd (JWTCache_Get now tok c))"
  by (auto simp: cache_authentic_def JWTCache_Get_def gomap_simps split: option.splits)

lemma cache_authentic_Set:
  "cache_authentic parse secret claim c \<Longrightarrow> authentic parse secret claim tok j \<Longrightarrow>
   cache_authentic parse secret claim (JWTCache_Set tok j c)"
  by (simp add: cache_authentic_def JWTCache_Set_def gomap_simps)

lemma cache_authentic_sweep:
  "jc_wf c \<Longrightarrow> cache_authentic parse secret claim c \<Longrightarrow>
   cache_authentic parse secret claim (JWTCache_sweep shuffle now c)"
  by (meson cache_authentic_def jc_sweep_lookup)

lemma authentic_signed:
  assumes "parse_documented method_of verifies parse" and "authentic parse secret claim tok c"
  shows "method_of tok = SigningMethodHMAC \<and> verifies secret tok"
proof -
  obtain key where "hmac_key secret (method_of tok) = Inr key" "verifies key tok"
    using assms unfolding parse_documented_def authentic_def by blast
  then show ?thesis by (cases "method_of tok") auto
qed

lemma JWTCache_Get_SomeD:
  "JWTCache_Get now tok c = (Some j, c') \<Longrightarrow> map_of (jc_data c) tok = Some j \<and> now \<le> Exp j \<and> c' = c"
  by (auto simp: JWTCache_Get_def split: option.splits if_splits)

lemma splitN2_Some: "splitN2 s = Some (a, b) \<Longrightarrow> s = a @ '' '' @ b"
proof -
  assume a: "splitN2 s = Some (a, b)"
  then obtain x where x: "dropWhile (\<lambda>ch. ch \<noteq> CHR '' '') s = x # b"
    and t: "a = takeWhile (\<lambda>ch. ch \<noteq> CHR '' '') s"
    by (auto simp: splitN2_def split: list.splits)
  have "x = CHR '' ''" using hd_dropWhile [of "\<lambda>ch. ch \<noteq> CHR '' ''" s] x by simp
  with x t show ?thesis using takeWhile_dropWhile_id [of "\<lambda>ch. ch \<noteq> CHR '' ''" s] by simp
qed

text \<open>The three ways a header is accepted or refused, in the order of the code.\<close>

lemma extract_no_bearer:
  "(\<And>tok. splitN2 hdr \<noteq> Some (''Bearer'', tok)) \<Longrightarrow>
   extractUserIDFromJWT parse now hdr cache secret claim = (Inl InvalidAuthHeader, cache)"
  by (auto simp: extractUserIDFromJWT_def split: option.split)

lemma extract_hit:
  "splitN2 hdr = Some (''Bearer'', tok) \<Longrightarrow> JWTCache_Get now tok cache = (Some c, cache') \<Longrightarrow>
   extractUserIDFromJWT parse now hdr cache secret claim = (Inr c, cache')"
  by (simp add: extractUserIDFromJWT_def)

lemma extract_miss:
  assumes "splitN2 hdr = Some (''Bearer'', tok)" and "JWTCache_Get now tok cache = (None, cache')"
    and "extractUserIDFromJWT parse now hdr cache secret claim = (res, cache'')"
  shows "(\<exists>e. res = Inl e \<and> cache'' = cache') \<or>
    (\<exists>c. res = Inr c \<and> authentic parse secret claim tok c \<and> cache'' = JWTCache_Set tok c cache' \<and>
       (\<exists>t. parse (hmac_key secret) now tok = Inr t))"
proof (cases "parse (hmac_key secret) now tok")
  case (Inl e)
  with assms show ?thesis by (auto simp: extractUserIDFromJWT_def)
next
  case (Inr t)
  let ?rk = "claim_string (map_of (Claims t) claim)"
  show ?thesis
  proof (cases "Valid t \<and> ?rk \<noteq> []")
    case True
    with Inr have "authentic parse secret claim tok
        \<lparr>RoutingKey = ?rk, Exp = unix_time (claim_number (map_of (Claims t) ''exp''))\<rparr>"
      unfolding authentic_def by fastforce
    with assms Inr True show ?thesis by (auto simp: extractUserIDFromJWT_def Let_def)
  next
    case False
    with assms Inr show ?thesis by (auto simp: extractUserIDFromJWT_def Let_def split: if_splits)
  qed
qed

text \<open>Every accepted header, and the cache it leaves behind.\<close>

lemma extract_accepts:
  assumes doc: "parse_documented method_of verifies parse"
    and inv: "cache_authentic parse secret claim cache"
    and run: "extractUserIDFromJWT parse now hdr cache secret claim = (res, cache')"
  shows "cache_authentic parse secret claim cache' \<and>
    (case res of
       Inl e \<Rightarrow> True
     | Inr c \<Rightarrow> \<exists>tok. hdr = ''Bearer '' @ tok \<and> method_of tok = SigningMethodHMAC \<and>
         verifies secret tok \<and> authentic parse secret claim tok c \<and> RoutingKey c \<noteq> [] \<and>
         ((\<exists>t. parse (hmac_key secret) now tok = Inr t) \<or> now \<le> Exp c))"
proof (cases "\<exists>tok. splitN2 hdr = Some (''Bearer'', tok)")
  case False
  with run inv show ?thesis by (auto simp: extract_no_bearer)
next
  case True
  then obtain tok where tok: "splitN2 hdr = Some (''Bearer'', tok)" by blast
  then have hdr: "hdr = ''Bearer '' @ tok" by (auto dest: splitN2_Some)
  obtain r c1 where g: "JWTCache_Get now tok cache = (r, c1)" by (cases "JWTCache_Get now tok cache")
  have inv1: "cache_authentic parse secret claim c1"
    using cache_authentic_Get [OF inv, of now tok] by (simp add: g)
  have nonempty: "authentic parse secret claim tok c \<Longrightarrow> RoutingKey c \<noteq> []" for c
    by (auto simp: authentic_def)
  show ?thesis
  proof (cases r)
    case (Some c)
    with g JWTCache_Get_SomeD have "map_of (jc_data cache) tok = Some c" "now \<le> Exp c" by blast+
    with inv have "authentic parse secret claim tok c" by (simp add: cache_authentic_def)
    with extract_hit [OF tok] g Some run inv1 hdr authentic_signed [OF doc] nonempty \<open>now \<le> Exp c\<close>
    show ?thesis by force
  next
    case None
    from extract_miss [OF tok _ run] g None consider
        (no) e where "res = Inl e" "cache' = c1"
      | (yes) c where "res = Inr c" "authentic parse secret claim tok c" "cache' = JWTCache_Set tok c c1"
          "\<exists>t. parse (hmac_key secret) now tok = Inr t" by blast
    then show ?thesis
    proof cases
      case no
      with inv1 show ?thesis by simp
    next
      case yes
      with inv1 hdr authentic_signed [OF doc] nonempty cache_authentic_Set show ?thesis by force
    qed
  qed
qed

text \<open>
  C4: Authentication is sound. From any cache state in which every entry is authentic,
  \<^verbatim>\<open>extractUserIDFromJWT\<close> accepts a header only if it is a bearer token that is HMAC
  signed under the configured secret and carries the returned, non-empty routing key;
  the token was verified at this very instant or its cached verdict has not expired; and
  the cache it leaves behind is again authentic.
\<close>

theorem extract_sound:
  assumes doc: "parse_documented method_of verifies parse"
    and inv: "cache_authentic parse secret claim cache"
    and run: "extractUserIDFromJWT parse now hdr cache secret claim = (res, cache')"
  shows "cache_authentic parse secret claim cache' \<and>
    (case res of
       Inl e \<Rightarrow> True
     | Inr c \<Rightarrow> \<exists>tok. hdr = ''Bearer '' @ tok \<and> method_of tok = SigningMethodHMAC \<and>
         verifies secret tok \<and> authentic parse secret claim tok c \<and> RoutingKey c \<noteq> [] \<and>
         ((\<exists>t. parse (hmac_key secret) now tok = Inr t) \<or> now \<le> Exp c))"
  using assms by (rule extract_accepts)

text \<open>A concrete library: one token, accepted under the key \<^verbatim>\<open>k\<close>.\<close>

definition demo_parse :: jwt_parser where
  "demo_parse kf now s =
     (case kf SigningMethodHMAC of
        Inl e \<Rightarrow> Inl e
      | Inr key \<Rightarrow>
          if s = ''tok'' \<and> key = ''k''
          then Inr \<lparr>Valid = True, Claims = [(''sub'', ClaimString ''u1''), (''exp'', ClaimNumber 2000)]\<rparr>
          else Inl (LibraryError ''signature is invalid''))"

theorem extract_sound_witness:
  "cache_authentic demo_parse ''k'' ''sub''
     (snd (extractUserIDFromJWT demo_parse 5 ''Bearer tok'' (NewJWTCache 10) ''k'' ''sub'')) \<and>
   fst (extractUserIDFromJWT demo_parse 5 ''Bearer tok'' (NewJWTCache 10) ''k'' ''sub'') =
     Inr \<lparr>RoutingKey = ''u1'', Exp = 2000 * second\<rparr>"
proof -
  have doc: "parse_documented (\<lambda>_. SigningMethodHMAC) (\<lambda>key s. s = ''tok'' \<and> key = ''k'') demo_parse"
    by (auto simp: parse_documented_def demo_parse_def split: sum.splits if_splits)
  have run: "extractUserIDFromJWT demo_parse 5 ''Bearer tok'' (NewJWTCache 10) ''k'' ''sub'' =
     (Inr \<lparr>RoutingKey = ''u1'', Exp = 2000 * second\<rparr>,
      JWTCache_Set ''tok'' \<lparr>RoutingKey = ''u1'', Exp = 2000 * second\<rparr> (NewJWTCache 10))"
    by (simp add: extractUserIDFromJWT_def splitN2_def JWTCache_Get_def NewJWTCache_def demo_parse_def
        unix_time_def Let_def)
  from extract_sound [OF doc cache_authentic_new run] run show ?thesis by simp
qed

end
