(* ===== verification/Rate_Limiter.thy ===== *)
theory Rate_Limiter
  imports Go_Prelude
begin

text \<open>
  The per-user token bucket (rate_limiter.go). Each user has a bucket of at most \<open>burst\<close>
  tokens that refills at \<open>rate\<close> tokens per second; \<^verbatim>\<open>Allow\<close> refills the bucket for the time
  since its last use and takes one token. Token counts are \<open>float64\<close> in the code and
  exact rationals here, so rounding is not part of the model. Instants are nanoseconds.
\<close>

record user_limiter =
  tokens :: rat
  lastRefill :: instant

record rate_limiter =
  rl_rate :: rat
  rl_burst :: int
  rl_limiters :: "(string, user_limiter) gomap"

definition NewRateLimiter :: "rat \<Rightarrow> int \<Rightarrow> rate_limiter" where
  "NewRateLimiter rate burst = \<lparr>rl_rate = rate, rl_burst = burst, rl_limiters = []\<rparr>"

text \<open>\<^verbatim>\<open>now.Sub(t).Seconds()\<close>\<close>

definition seconds_between :: "instant \<Rightarrow> instant \<Rightarrow> rat" where
  "seconds_between t now = of_int (now - t) / of_int second"

definition Allow :: "instant \<Rightarrow> string \<Rightarrow> rate_limiter \<Rightarrow> bool \<times> rate_limiter" where
  "Allow now userID rl =
     (let ul = (case map_of (rl_limiters rl) userID of
                  None \<Rightarrow> \<lparr>tokens = of_int (rl_burst rl), lastRefill = now\<rparr>
                | Some ul \<Rightarrow> ul);
          elapsed = seconds_between (lastRefill ul) now;
          tk = tokens ul + elapsed * rl_rate rl;
          tk = (if tk > of_int (rl_burst rl) then of_int (rl_burst rl) else tk)
      in if tk \<ge> 1
         then (True, rl\<lparr>rl_limiters := put userID \<lparr>tokens = tk - 1, lastRefill = now\<rparr> (rl_limiters rl)\<rparr>)
         else (False, rl\<lparr>rl_limiters := put userID \<lparr>tokens = tk, lastRefill = now\<rparr> (rl_limiters rl)\<rparr>))"

text \<open>One tick of \<^verbatim>\<open>cleanup\<close>: buckets idle for more than five minutes are dropped.\<close>

definition staleThreshold :: duration where
  "staleThreshold = 5 * minute"

definition rl_cleanup :: "instant \<Rightarrow> rate_limiter \<Rightarrow> rate_limiter" where
  "rl_cleanup now rl =
     rl\<lparr>rl_limiters := filter (\<lambda>(user, ul). \<not> now - lastRefill ul > staleThreshold) (rl_limiters rl)\<rparr>"

section \<open>The bucket as seen at an instant\<close>

definition avail :: "rate_limiter \<Rightarrow> string \<Rightarrow> instant \<Rightarrow> rat" where
  "avail rl u t = (case map_of (rl_limiters rl) u of
      None \<Rightarrow> of_int (rl_burst rl)
    | Some ul \<Rightarrow> min (of_int (rl_burst rl)) (tokens ul + seconds_between (lastRefill ul) t * rl_rate rl))"

definition rl_wf :: "rate_limiter \<Rightarrow> bool" where
  "rl_wf rl \<longleftrightarrow> wf_map (rl_limiters rl) \<and> 0 \<le> rl_rate rl \<and> 0 \<le> rl_burst rl \<and>
     (\<forall>u ul. map_of (rl_limiters rl) u = Some ul \<longrightarrow> 0 \<le> tokens ul)"

text \<open>No bucket was touched after \<open>t\<close>: the clock does not run backwards.\<close>

definition settled :: "rate_limiter \<Rightarrow> instant \<Rightarrow> bool" where
  "settled rl t \<longleftrightarrow> (\<forall>u ul. map_of (rl_limiters rl) u = Some ul \<longrightarrow> lastRefill ul \<le> t)"

lemma second_pos [simp]: "0 < second" "(0 :: rat) < of_int second"
  by (simp_all add: second_def)

lemma seconds_same [simp]: "seconds_between t t = 0"
  by (simp add: seconds_between_def)

lemma seconds_split: "seconds_between t u = seconds_between t m + seconds_between m u"
  by (simp add: seconds_between_def add_divide_distrib [symmetric])

lemma seconds_nonneg: "t \<le> u \<Longrightarrow> 0 \<le> seconds_between t u"
  unfolding seconds_between_def by (rule divide_nonneg_pos) (simp_all flip: of_int_diff)

lemma settled_later: "settled rl t \<Longrightarrow> t \<le> u \<Longrightarrow> settled rl u"
  by (force simp: settled_def)

lemma avail_le_burst: "avail rl u t \<le> of_int (rl_burst rl)"
  by (simp add: avail_def split: option.split)

lemma avail_nonneg: "rl_wf rl \<Longrightarrow> settled rl t \<Longrightarrow> 0 \<le> avail rl u t"
  by (auto simp: avail_def rl_wf_def settled_def seconds_nonneg split: option.split)

lemma avail_refills:
  assumes "0 \<le> rl_rate rl" and "t \<le> later" and "settled rl t"
  shows "avail rl u later \<le> avail rl u t + seconds_between t later * rl_rate rl"
proof (cases "map_of (rl_limiters rl) u")
  case None
  then show ?thesis using assms by (simp add: avail_def seconds_nonneg)
next
  case (Some ul)
  have "0 \<le> seconds_between t later * rl_rate rl"
    using assms by (simp add: seconds_nonneg)
  then show ?thesis
    using Some seconds_split [of "lastRefill ul" later t]
    by (auto simp: avail_def min_def distrib_right)
qed

lemma Allow_fst: "fst (Allow now u rl) \<longleftrightarrow> 1 \<le> avail rl u now"
  by (auto simp: Allow_def avail_def Let_def min_def split: option.split)

lemma Allow_frame [simp]:
  "rl_rate (snd (Allow now u rl)) = rl_rate rl"
  "rl_burst (snd (Allow now u rl)) = rl_burst rl"
  by (simp_all add: Allow_def Let_def split: option.split)

lemma Allow_avail_same:
  "avail (snd (Allow now u rl)) u now = avail rl u now - (if fst (Allow now u rl) then 1 else 0)"
  by (auto simp: Allow_def avail_def Let_def min_def gomap_simps split: option.split)

lemma Allow_avail_other: "v \<noteq> u \<Longrightarrow> avail (snd (Allow now u rl)) v t = avail rl v t"
  by (simp add: Allow_def avail_def Let_def gomap_simps split: option.split)

lemma Allow_settled: "settled rl now \<Longrightarrow> settled (snd (Allow now u rl)) now"
  by (auto simp: settled_def Allow_def Let_def gomap_simps split: option.splits if_splits)

lemma Allow_wf:
  assumes "rl_wf rl" and "settled rl now"
  shows "rl_wf (snd (Allow now u rl))"
proof -
  have "0 \<le> tokens ul" if "map_of (rl_limiters (snd (Allow now u rl))) v = Some ul" for v ul
  proof (cases "v = u")
    case True
    have "0 \<le> tokens ul0 + seconds_between (lastRefill ul0) now * rl_rate rl"
      if "map_of (rl_limiters rl) u = Some ul0" for ul0
      using that assms by (simp add: rl_wf_def settled_def seconds_nonneg)
    with True that assms show ?thesis
      by (auto simp: rl_wf_def Allow_def Let_def gomap_simps split: option.splits if_splits)
  next
    case False
    with that assms show ?thesis
      by (auto simp: rl_wf_def Allow_def Let_def gomap_simps split: option.splits if_splits)
  qed
  with assms show ?thesis
    by (simp add: rl_wf_def) (simp add: Allow_def Let_def split: option.splits)
qed

text \<open>
  A bucket that the cleanup drops was idle long enough to be full again, provided that
  five minutes of refill cover the burst; then the cleanup is invisible.
\<close>

definition refill_covers_burst :: "rate_limiter \<Rightarrow> bool" where
  "refill_covers_burst rl \<longleftrightarrow> of_int (rl_burst rl) \<le> 300 * rl_rate rl"

lemma cleanup_transparent:
  assumes wf: "rl_wf rl" and "refill_covers_burst rl" and "now \<le> t"
  shows "avail (rl_cleanup now rl) u t = avail rl u t"
proof (cases "map_of (rl_limiters rl) u")
  case None
  then show ?thesis
    using wf by (simp add: avail_def rl_cleanup_def map_of_filter_wf rl_wf_def)
next
  case (Some ul)
  show ?thesis
  proof (cases "now - lastRefill ul > staleThreshold")
    case False
    with Some wf show ?thesis
      by (simp add: avail_def rl_cleanup_def map_of_filter_wf rl_wf_def)
  next
    case True
    then have "t - lastRefill ul \<ge> 300 * second"
      using assms(3) by (simp add: staleThreshold_def minute_def)
    then have "300 \<le> seconds_between (lastRefill ul) t"
      by (simp add: seconds_between_def pos_le_divide_eq flip: of_int_diff)
    then have "300 * rl_rate rl \<le> seconds_between (lastRefill ul) t * rl_rate rl"
      using wf by (intro mult_right_mono) (simp_all add: rl_wf_def)
    moreover have "0 \<le> tokens ul" using wf Some by (simp add: rl_wf_def)
    ultimately have full: "of_int (rl_burst rl) \<le> tokens ul + seconds_between (lastRefill ul) t * rl_rate rl"
      using assms(2) by (simp add: refill_covers_burst_def)
    show ?thesis
      using Some wf True full by (simp add: avail_def rl_cleanup_def map_of_filter_wf rl_wf_def)
  qed
qed

section \<open>Runs\<close>

datatype rl_event = Request instant string | CleanupTick instant

fun event_time :: "rl_event \<Rightarrow> instant" where
  "event_time (Request t u) = t"
| "event_time (CleanupTick t) = t"

fun rl_step :: "rl_event \<Rightarrow> rate_limiter \<Rightarrow> rate_limiter" where
  "rl_step (Request t u) rl = snd (Allow t u rl)"
| "rl_step (CleanupTick t) rl = rl_cleanup t rl"

text \<open>How many of a user's requests a run of the limiter admits.\<close>

fun admitted :: "string \<Rightarrow> rl_event list \<Rightarrow> rate_limiter \<Rightarrow> nat" where
  "admitted u [] rl = 0"
| "admitted u (e # es) rl =
     (case e of Request t v \<Rightarrow> if v = u \<and> fst (Allow t v rl) then 1 else 0 | CleanupTick t \<Rightarrow> 0)
     + admitted u es (rl_step e rl)"

lemma cleanup_lookup:
  "rl_wf rl \<Longrightarrow> map_of (rl_limiters (rl_cleanup now rl)) u = Some ul \<Longrightarrow>
   map_of (rl_limiters rl) u = Some ul"
  by (auto simp: rl_cleanup_def rl_wf_def map_of_filter_wf split: option.splits if_splits)

lemma cleanup_settled: "rl_wf rl \<Longrightarrow> settled rl t \<Longrightarrow> settled (rl_cleanup now rl) t"
  by (auto simp: settled_def dest: cleanup_lookup)

lemma cleanup_wf:
  assumes "rl_wf rl"
  shows "rl_wf (rl_cleanup now rl)"
proof -
  have "0 \<le> tokens ul" if "map_of (rl_limiters (rl_cleanup now rl)) u = Some ul" for u ul
    using cleanup_lookup [OF assms that] assms by (auto simp: rl_wf_def)
  moreover have "wf_map (rl_limiters (rl_cleanup now rl))"
    using assms by (simp add: rl_wf_def rl_cleanup_def)
  moreover have "rl_rate (rl_cleanup now rl) = rl_rate rl" "rl_burst (rl_cleanup now rl) = rl_burst rl"
    by (simp_all add: rl_cleanup_def)
  ultimately show ?thesis using assms by (auto simp: rl_wf_def)
qed

lemma step_settled:
  "rl_wf rl \<Longrightarrow> settled rl t \<Longrightarrow> t \<le> event_time e \<Longrightarrow> settled (rl_step e rl) (event_time e)"
  by (cases e) (simp_all add: Allow_settled settled_later cleanup_settled)

lemma step_wf: "rl_wf rl \<Longrightarrow> settled rl t \<Longrightarrow> t \<le> event_time e \<Longrightarrow> rl_wf (rl_step e rl)"
  by (cases e) (simp_all add: Allow_wf settled_later cleanup_wf)

lemma step_frame [simp]:
  "rl_rate (rl_step e rl) = rl_rate rl" "rl_burst (rl_step e rl) = rl_burst rl"
  by (cases e; simp add: rl_cleanup_def)+

text \<open>
  The accounting of a run: what is admitted is paid for by the tokens at the start and by
  the refill over the elapsed time.
\<close>

lemma admitted_budget:
  assumes "rl_wf rl" and "settled rl t" and "refill_covers_burst rl"
    and "sorted (t # map event_time es)" and "\<forall>e \<in> set es. event_time e \<le> tend" and "t \<le> tend"
  shows "of_nat (admitted u es rl) \<le> avail rl u t + seconds_between t tend * rl_rate rl"
  using assms
proof (induction es arbitrary: rl t)
  case Nil
  then show ?case
    using avail_nonneg [of rl t u] by (simp add: seconds_nonneg rl_wf_def)
next
  case (Cons e es)
  let ?t = "event_time e" and ?rl = "rl_step e rl"
  have t: "t \<le> ?t" and tend: "?t \<le> tend" using Cons.prems by simp_all
  have rate: "0 \<le> rl_rate rl" using Cons.prems(1) by (simp add: rl_wf_def)
  have IH: "of_nat (admitted u es ?rl) \<le> avail ?rl u ?t + seconds_between ?t tend * rl_rate rl"
    using Cons.IH [of ?rl ?t] Cons.prems t tend
    by (simp add: step_wf [of rl t e] step_settled [of rl t e] refill_covers_burst_def)
  have now: "avail rl u ?t \<le> avail rl u t + seconds_between t ?t * rl_rate rl"
    by (rule avail_refills [OF rate t Cons.prems(2)])
  have split: "seconds_between t tend * rl_rate rl =
      seconds_between t ?t * rl_rate rl + seconds_between ?t tend * rl_rate rl"
    by (simp add: seconds_split [of t tend ?t] distrib_right)
  show ?case
  proof (cases e)
    case (Request now v)
    then show ?thesis
      using IH now split Allow_avail_same [of now v rl] Allow_avail_other [of u v now rl now]
      by (cases "v = u") auto
  next
    case (CleanupTick now)
    then show ?thesis
      using IH \<open>avail rl u ?t \<le> _\<close> split cleanup_transparent [OF Cons.prems(1,3), of now now u] by simp
  qed
qed

lemma NewRateLimiter_wf: "0 \<le> rate \<Longrightarrow> 0 \<le> burst \<Longrightarrow> rl_wf (NewRateLimiter rate burst)"
  by (simp add: rl_wf_def NewRateLimiter_def)

lemma run_wf_settled:
  assumes "rl_wf rl" and "settled rl t0" and "sorted (t0 # map event_time es)"
    and "\<forall>e \<in> set es. event_time e \<le> t" and "t0 \<le> t"
  shows "rl_wf (fold rl_step es rl) \<and> settled (fold rl_step es rl) t \<and>
    rl_rate (fold rl_step es rl) = rl_rate rl \<and> rl_burst (fold rl_step es rl) = rl_burst rl"
  using assms
proof (induction es arbitrary: rl t0)
  case Nil
  then show ?case using settled_later by auto
next
  case (Cons e es)
  then show ?case
    using Cons.IH [of "rl_step e rl" "event_time e"]
    by (simp add: step_wf [of rl t0 e] step_settled [of rl t0 e])
qed

text \<open>
  C11: The rate limit holds over every window. Whatever the limiter served before
  (requests of any users and cleanup ticks, in time order), the requests of one user that
  it admits between two instants \<open>t\<close> and \<open>tend\<close> number at most \<open>burst\<close> plus \<open>rate\<close> per
  second of the window. The cleanup of idle buckets does not weaken the bound as long as
  five minutes of refill cover a burst, which the configured 100 per second and 200 do.
\<close>

theorem rate_limit_window:
  assumes "0 \<le> rate" and "0 \<le> burst" and "of_int burst \<le> 300 * rate"
    and "sorted (map event_time (es0 @ es))"
    and "\<forall>e \<in> set es0. event_time e \<le> t"
    and "\<forall>e \<in> set es. t \<le> event_time e \<and> event_time e \<le> tend"
    and "t \<le> tend"
  shows "of_nat (admitted u es (fold rl_step es0 (NewRateLimiter rate burst)))
    \<le> of_int burst + seconds_between t tend * rate"
proof -
  let ?new = "NewRateLimiter rate burst"
  let ?t0 = "Min (insert t (event_time ` set es0))"
  let ?rl = "fold rl_step es0 ?new"
  have "settled ?new ?t0" by (simp add: settled_def NewRateLimiter_def)
  moreover have "sorted (?t0 # map event_time es0)"
    using assms(4) by (auto simp: sorted_append)
  ultimately have st: "rl_wf ?rl \<and> settled ?rl t \<and> rl_rate ?rl = rate \<and> rl_burst ?rl = burst"
    using run_wf_settled [OF NewRateLimiter_wf [OF assms(1,2)], of ?t0 es0 t] assms(5)
    by (auto simp: NewRateLimiter_def)
  then have "of_nat (admitted u es ?rl) \<le> avail ?rl u t + seconds_between t tend * rl_rate ?rl"
    using assms(3,4,6,7)
    by (intro admitted_budget) (auto simp: refill_covers_burst_def sorted_append)
  also have "\<dots> \<le> of_int burst + seconds_between t tend * rate"
    using avail_le_burst [of ?rl u t] st by simp
  finally show ?thesis .
qed

theorem rate_limit_window_witness:
  "admitted ''u'' [Request 0 ''u'', Request 0 ''u'', Request 0 ''u'']
      (fold rl_step [Request 0 ''v''] (NewRateLimiter 1 2)) = 2 \<and>
   of_nat (admitted ''u'' [Request 0 ''u'', Request 0 ''u'', Request 0 ''u'']
      (fold rl_step [Request 0 ''v''] (NewRateLimiter 1 2)))
    \<le> (of_int 2 + seconds_between 0 0 * 1 :: rat)"
  using rate_limit_window [of 1 2 "[Request 0 ''v'']"
      "[Request 0 ''u'', Request 0 ''u'', Request 0 ''u'']" 0 0 "''u''"]
  by (simp add: NewRateLimiter_def Allow_def Let_def)

section \<open>Isolation\<close>

definition same_bucket :: "string \<Rightarrow> rate_limiter \<Rightarrow> rate_limiter \<Rightarrow> bool" where
  "same_bucket u rl rl' \<longleftrightarrow> wf_map (rl_limiters rl) \<and> wf_map (rl_limiters rl') \<and>
     map_of (rl_limiters rl) u = map_of (rl_limiters rl') u \<and>
     rl_rate rl = rl_rate rl' \<and> rl_burst rl = rl_burst rl'"

definition concerns :: "string \<Rightarrow> rl_event \<Rightarrow> bool" where
  "concerns u e = (case e of Request t v \<Rightarrow> v = u | CleanupTick t \<Rightarrow> True)"

lemma same_bucket_Allow: "same_bucket u rl rl' \<Longrightarrow> fst (Allow t u rl) = fst (Allow t u rl')"
  by (auto simp: same_bucket_def Allow_fst avail_def split: option.split)

lemma same_bucket_step: "same_bucket u rl rl' \<Longrightarrow> same_bucket u (rl_step e rl) (rl_step e rl')"
  by (cases e) (auto simp: same_bucket_def Allow_def rl_cleanup_def Let_def gomap_simps map_of_filter_wf
      split: option.splits)

lemma same_bucket_skip: "same_bucket u rl rl' \<Longrightarrow> \<not> concerns u e \<Longrightarrow> same_bucket u (rl_step e rl) rl'"
  by (cases e) (auto simp: same_bucket_def concerns_def Allow_def Let_def gomap_simps split: option.splits)

lemma admitted_same_bucket:
  "same_bucket u rl rl' \<Longrightarrow> admitted u es rl = admitted u (filter (concerns u) es) rl'"
proof (induction es arbitrary: rl rl')
  case (Cons e es)
  show ?case
  proof (cases "concerns u e")
    case True
    with Cons.IH [OF same_bucket_step [OF Cons.prems, of e]] Cons.prems show ?thesis
      by (auto simp: same_bucket_Allow split: rl_event.split)
  next
    case False
    with Cons.IH [OF same_bucket_skip [OF Cons.prems False]] show ?thesis
      by (auto simp: concerns_def split: rl_event.split)
  qed
qed simp

text \<open>
  Users are isolated. The requests of other users never change which requests of a
  user the limiter admits: a run and the run without them admit the same number.
\<close>

theorem rate_limit_isolation:
  "admitted u es (NewRateLimiter rate burst) =
   admitted u (filter (concerns u) es) (NewRateLimiter rate burst)"
  by (rule admitted_same_bucket) (simp add: same_bucket_def NewRateLimiter_def)

end
