(* ===== verification/Poison_Pill.thy ===== *)
theory Poison_Pill
  imports Go_Prelude
begin

text \<open>
  The poison pill detector (poison.go): forced reassignments per routing key within a
  sliding window; a key that reaches the threshold is quarantined until an operator
  releases it. The abstract specification keeps the full history of a key and counts the
  events inside the window; the detector, which trims its event lists as it goes and
  prunes them in the background, is proved to give the same verdicts.
\<close>

record poison_detector =
  pp_events :: "(string, instant list) gomap"
  pp_quarantine :: "string list"
  pp_threshold :: int
  pp_window :: duration

definition NewPoisonPillDetector :: "int \<Rightarrow> duration \<Rightarrow> poison_detector" where
  "NewPoisonPillDetector threshold window =
     \<lparr>pp_events = [], pp_quarantine = [], pp_threshold = threshold, pp_window = window\<rparr>"

text \<open>\<^verbatim>\<open>p.events[routingKey]\<close>: a missing key reads as the empty slice.\<close>

definition events_of :: "poison_detector \<Rightarrow> string \<Rightarrow> instant list" where
  "events_of p k = (case map_of (pp_events p) k of None \<Rightarrow> [] | Some es \<Rightarrow> es)"

text \<open>The loop that advances \<open>i\<close> over the events before the cutoff.\<close>

definition drop_before :: "instant \<Rightarrow> instant list \<Rightarrow> instant list" where
  "drop_before cutoff events = dropWhile (\<lambda>e. e < cutoff) events"

definition RecordReassignment :: "instant \<Rightarrow> string \<Rightarrow> poison_detector \<Rightarrow> bool \<times> poison_detector" where
  "RecordReassignment now routingKey p =
     (if routingKey \<in> set (pp_quarantine p) then (True, p)
      else
        (let cutoff = now - pp_window p;
             events = drop_before cutoff (events_of p routingKey @ [now]);
             p1 = p\<lparr>pp_events := put routingKey events (pp_events p)\<rparr>
         in if int (length events) \<ge> pp_threshold p
            then (True, p1\<lparr>pp_quarantine := routingKey # pp_quarantine p1,
                           pp_events := del routingKey (pp_events p1)\<rparr>)
            else (False, p1)))"

definition IsQuarantined :: "string \<Rightarrow> poison_detector \<Rightarrow> bool" where
  "IsQuarantined routingKey p \<longleftrightarrow> routingKey \<in> set (pp_quarantine p)"

definition Unquarantine :: "string \<Rightarrow> poison_detector \<Rightarrow> poison_detector" where
  "Unquarantine routingKey p =
     (if routingKey \<in> set (pp_quarantine p)
      then p\<lparr>pp_quarantine := filter (\<lambda>k. k \<noteq> routingKey) (pp_quarantine p)\<rparr> else p)"

definition QuarantinedAccounts :: "poison_detector \<Rightarrow> string list" where
  "QuarantinedAccounts p = pp_quarantine p"

definition prune :: "instant \<Rightarrow> poison_detector \<Rightarrow> poison_detector" where
  "prune now p =
     (let cutoff = now - pp_window p in
      p\<lparr>pp_events := filter (\<lambda>(k, es). es \<noteq> [])
          (map (\<lambda>(k, es). (k, drop_before cutoff es)) (pp_events p))\<rparr>)"

definition pp_wf :: "poison_detector \<Rightarrow> bool" where
  "pp_wf p \<longleftrightarrow> wf_map (pp_events p) \<and> distinct (pp_quarantine p)"

lemma drop_before_Nil [simp]: "drop_before c [] = []"
  by (simp add: drop_before_def)

lemma wf_map_trim: "wf_map m \<Longrightarrow> wf_map (map (\<lambda>(k, es). (k, drop_before c es)) m)"
  by (rule wf_map_map_snd)

lemma pp_wf_ops [wf_intros, simp]:
  "pp_wf (NewPoisonPillDetector n w)"
  "pp_wf p \<Longrightarrow> pp_wf (snd (RecordReassignment now k p))"
  "pp_wf p \<Longrightarrow> pp_wf (Unquarantine k p)"
  "pp_wf p \<Longrightarrow> pp_wf (prune now p)"
  by (auto simp: pp_wf_def NewPoisonPillDetector_def RecordReassignment_def Unquarantine_def prune_def
      Let_def wf_map_trim wf_map_filter simp del: map_map)

lemma events_of_prune:
  "pp_wf p \<Longrightarrow> events_of (prune now p) k = drop_before (now - pp_window p) (events_of p k)"
  by (auto simp: events_of_def prune_def Let_def pp_wf_def map_of_filter_wf wf_map_trim map_of_map_snd
      simp del: map_map split: option.splits)

section \<open>The sliding window specification\<close>

record window_spec =
  ws_hist :: "string \<Rightarrow> instant list"
  ws_quar :: "string set"

definition in_window :: "instant \<Rightarrow> instant list \<Rightarrow> instant list" where
  "in_window cutoff hist = filter (\<lambda>e. cutoff \<le> e) hist"

datatype pp_event = Reassigned instant string | PruneTick instant | Release string

fun pp_step :: "pp_event \<Rightarrow> poison_detector \<Rightarrow> poison_detector" where
  "pp_step (Reassigned t k) p = snd (RecordReassignment t k p)"
| "pp_step (PruneTick t) p = prune t p"
| "pp_step (Release k) p = Unquarantine k p"

fun ws_step :: "int \<Rightarrow> duration \<Rightarrow> pp_event \<Rightarrow> window_spec \<Rightarrow> window_spec" where
  "ws_step n w (Reassigned t k) s =
     (if k \<in> ws_quar s then s
      else let h = ws_hist s k @ [t] in
        if n \<le> int (length (in_window (t - w) h))
        then \<lparr>ws_hist = (ws_hist s)(k := []), ws_quar = insert k (ws_quar s)\<rparr>
        else s\<lparr>ws_hist := (ws_hist s)(k := h)\<rparr>)"
| "ws_step n w (PruneTick t) s = s"
| "ws_step n w (Release k) s = s\<lparr>ws_quar := ws_quar s - {k}\<rparr>"

definition ws_init :: window_spec where
  "ws_init = \<lparr>ws_hist = (\<lambda>_. []), ws_quar = {}\<rparr>"

text \<open>The events of a run are in time order, starting at \<open>now\<close>.\<close>

fun pp_ordered :: "instant \<Rightarrow> pp_event list \<Rightarrow> bool" where
  "pp_ordered now [] = True"
| "pp_ordered now (Reassigned t k # es) = (now \<le> t \<and> pp_ordered t es)"
| "pp_ordered now (PruneTick t # es) = (now \<le> t \<and> pp_ordered t es)"
| "pp_ordered now (Release k # es) = pp_ordered now es"

section \<open>Refinement\<close>

text \<open>
  The simulation: the quarantine sets agree and each event list is the part of the full
  history that some earlier cutoff kept.
\<close>

definition pp_sim :: "instant \<Rightarrow> poison_detector \<Rightarrow> window_spec \<Rightarrow> bool" where
  "pp_sim now p s \<longleftrightarrow> pp_wf p \<and> set (pp_quarantine p) = ws_quar s \<and>
     (\<forall>k. sorted (ws_hist s k) \<and> (\<forall>e \<in> set (ws_hist s k). e \<le> now) \<and>
        (\<exists>c \<le> now - pp_window p. events_of p k = in_window c (ws_hist s k)))"

lemma drop_before_sorted: "sorted es \<Longrightarrow> drop_before c es = in_window c es"
proof (induction es)
  case (Cons e es)
  show ?case
  proof (cases "e < c")
    case True
    with Cons show ?thesis by (simp add: drop_before_def in_window_def)
  next
    case False
    with Cons.prems show ?thesis
      by (force simp: drop_before_def in_window_def intro!: filter_True [symmetric])
  qed
qed (simp add: drop_before_def in_window_def)

lemma in_window_in_window: "c \<le> d \<Longrightarrow> in_window d (in_window c es) = in_window d es"
  by (auto simp: in_window_def intro: filter_cong)

lemma in_window_append: "in_window c (xs @ ys) = in_window c xs @ in_window c ys"
  by (simp add: in_window_def)

lemma sorted_in_window: "sorted es \<Longrightarrow> sorted (in_window c es)"
  by (simp add: in_window_def sorted_wrt_filter)

lemma pp_sim_trim:
  assumes "pp_sim now p s" and "now \<le> t"
  shows "drop_before (t - pp_window p) (events_of p k @ [t]) = in_window (t - pp_window p) (ws_hist s k @ [t])"
proof -
  obtain c where c: "c \<le> now - pp_window p" "events_of p k = in_window c (ws_hist s k)"
    using assms(1) unfolding pp_sim_def by blast
  have "sorted (in_window c (ws_hist s k) @ [t])"
    using assms by (auto simp: pp_sim_def sorted_append sorted_in_window) (force simp: in_window_def)
  with c assms(2) show ?thesis
    by (simp add: drop_before_sorted in_window_append in_window_in_window)
qed

lemma pp_frame [simp]:
  "pp_window (snd (RecordReassignment t k p)) = pp_window p"
  "pp_threshold (snd (RecordReassignment t k p)) = pp_threshold p"
  "pp_window (prune t p) = pp_window p" "pp_threshold (prune t p) = pp_threshold p"
  "pp_window (Unquarantine k p) = pp_window p" "pp_threshold (Unquarantine k p) = pp_threshold p"
  by (simp_all add: RecordReassignment_def prune_def Unquarantine_def Let_def)

lemma events_of_Record:
  "events_of (snd (RecordReassignment t k p)) k' =
     (if k \<in> set (pp_quarantine p) \<or> k' \<noteq> k then events_of p k'
      else let es = drop_before (t - pp_window p) (events_of p k @ [t])
           in if pp_threshold p \<le> int (length es) then [] else es)"
  by (simp add: RecordReassignment_def events_of_def Let_def gomap_simps)

lemma quarantine_Record:
  "set (pp_quarantine (snd (RecordReassignment t k p))) =
     (if k \<notin> set (pp_quarantine p) \<and>
         pp_threshold p \<le> int (length (drop_before (t - pp_window p) (events_of p k @ [t])))
      then insert k (set (pp_quarantine p)) else set (pp_quarantine p))"
  by (simp add: RecordReassignment_def Let_def)

lemma Record_verdict:
  "fst (RecordReassignment t k p) \<longleftrightarrow> k \<in> set (pp_quarantine (snd (RecordReassignment t k p)))"
  by (simp add: RecordReassignment_def Let_def)

lemma pp_sim_Record:
  assumes sim: "pp_sim now p s" and t: "now \<le> t"
  shows "pp_sim t (snd (RecordReassignment t k p)) (ws_step (pp_threshold p) (pp_window p) (Reassigned t k) s)"
    (is "pp_sim t ?p ?s")
proof -
  have trim: "drop_before (t - pp_window p) (events_of p k @ [t]) =
      in_window (t - pp_window p) (ws_hist s k @ [t])"
    by (rule pp_sim_trim [OF sim t])
  have "sorted (ws_hist ?s k') \<and> (\<forall>e \<in> set (ws_hist ?s k'). e \<le> t) \<and>
      (\<exists>c \<le> t - pp_window p. events_of ?p k' = in_window c (ws_hist ?s k'))" for k'
  proof -
    from sim obtain c where old: "sorted (ws_hist s k')" "\<forall>e \<in> set (ws_hist s k'). e \<le> now"
        "c \<le> now - pp_window p" "events_of p k' = in_window c (ws_hist s k')"
      unfolding pp_sim_def by blast
    have q: "set (pp_quarantine p) = ws_quar s" using sim by (simp add: pp_sim_def)
    show ?thesis
    proof (cases "k \<in> ws_quar s \<or> k' \<noteq> k")
      case True
      have "c \<le> t - pp_window p" using old(3) t by simp
      moreover have "\<forall>e \<in> set (ws_hist s k'). e \<le> t" using old(2) t by fastforce
      ultimately show ?thesis using True old q by (auto simp: events_of_Record Let_def)
    next
      case False
      then have "sorted (ws_hist s k' @ [t])" "\<forall>e \<in> set (ws_hist s k' @ [t]). e \<le> t"
        using old(1,2) t by (auto simp: sorted_append intro: order_trans)
      moreover have "in_window c' [] = []" for c' by (simp add: in_window_def)
      ultimately show ?thesis
        using False q trim by (auto simp: events_of_Record Let_def)
    qed
  qed
  moreover have "set (pp_quarantine ?p) = ws_quar ?s"
    using sim trim by (auto simp: quarantine_Record pp_sim_def Let_def)
  ultimately show ?thesis using sim by (simp add: pp_sim_def)
qed

lemma pp_sim_prune:
  assumes "pp_sim now p s" and "now \<le> t"
  shows "pp_sim t (prune t p) s"
proof -
  have "\<exists>c \<le> t - pp_window p. events_of (prune t p) k = in_window c (ws_hist s k)" for k
  proof -
    from assms obtain c where c: "c \<le> now - pp_window p" "events_of p k = in_window c (ws_hist s k)"
      "sorted (ws_hist s k)" "pp_wf p" unfolding pp_sim_def by blast
    then have "events_of (prune t p) k = in_window (t - pp_window p) (ws_hist s k)"
      using assms(2) by (simp add: events_of_prune drop_before_sorted sorted_in_window in_window_in_window)
    then show ?thesis by blast
  qed
  moreover have "pp_quarantine (prune t p) = pp_quarantine p" by (simp add: prune_def Let_def)
  moreover have "\<forall>e \<in> set (ws_hist s k). e \<le> t" for k
    using assms unfolding pp_sim_def by (meson order_trans)
  ultimately show ?thesis using assms by (simp add: pp_sim_def)
qed

lemma pp_sim_Release: "pp_sim now p s \<Longrightarrow> pp_sim now (Unquarantine k p) (ws_step n w (Release k) s)"
  by (auto simp: pp_sim_def Unquarantine_def events_of_def pp_wf_def)

lemma pp_run_sim:
  "pp_sim now p s \<Longrightarrow> pp_ordered now es \<Longrightarrow>
   \<exists>t. pp_sim t (fold pp_step es p) (fold (ws_step (pp_threshold p) (pp_window p)) es s)"
proof (induction es arbitrary: p s now)
  case Nil
  then show ?case by auto
next
  case (Cons e es)
  show ?case
  proof (cases e)
    case (Reassigned t k)
    with Cons.prems have "pp_sim t (snd (RecordReassignment t k p))
        (ws_step (pp_threshold p) (pp_window p) e s)" by (simp add: pp_sim_Record del: ws_step.simps)
    from Cons.IH [OF this] Cons.prems Reassigned show ?thesis by simp
  next
    case (PruneTick t)
    with Cons.prems have "pp_sim t (prune t p) s" by (simp add: pp_sim_prune)
    from Cons.IH [OF this] Cons.prems PruneTick show ?thesis by simp
  next
    case (Release k)
    from Cons.IH [OF pp_sim_Release [OF Cons.prems(1)]] Cons.prems Release show ?thesis by simp
  qed
qed

lemma pp_sim_init: "pp_sim now (NewPoisonPillDetector n w) ws_init"
  by (auto simp: pp_sim_def NewPoisonPillDetector_def ws_init_def events_of_def pp_wf_def in_window_def)

text \<open>
  C10: The detector implements the sliding window. After any run of forced reassignments,
  background prunes and operator releases in time order, exactly those keys are
  quarantined that the specification quarantines, which keeps every reassignment ever
  seen and counts those of the last \<open>window\<close>: neither trimming a key's events nor
  pruning them ever changes a verdict, and the verdict of \<^verbatim>\<open>RecordReassignment\<close> is the
  state of the quarantine after it.
\<close>

theorem quarantine_refines_window:
  assumes "pp_ordered start es"
  shows "(\<forall>k. IsQuarantined k (fold pp_step es (NewPoisonPillDetector n w)) \<longleftrightarrow>
            k \<in> ws_quar (fold (ws_step n w) es ws_init)) \<and>
    (\<forall>t k p. fst (RecordReassignment t k p) = IsQuarantined k (snd (RecordReassignment t k p)))"
proof -
  obtain t where "pp_sim t (fold pp_step es (NewPoisonPillDetector n w)) (fold (ws_step n w) es ws_init)"
    using pp_run_sim [OF pp_sim_init assms, of n w] by (auto simp: NewPoisonPillDetector_def)
  then show ?thesis by (auto simp: pp_sim_def IsQuarantined_def Record_verdict)
qed

theorem quarantine_refines_window_witness:
  "IsQuarantined ''u'' (fold pp_step [Reassigned 0 ''u'', PruneTick 3, Reassigned 9 ''u'', Reassigned 11 ''u'']
      (NewPoisonPillDetector 2 10))
   \<and> \<not> IsQuarantined ''u'' (fold pp_step [Reassigned 0 ''u'', PruneTick 3, Reassigned 11 ''u'']
      (NewPoisonPillDetector 2 10))"
  using quarantine_refines_window [of 0 "[Reassigned 0 ''u'', PruneTick 3, Reassigned 9 ''u'', Reassigned 11 ''u'']" 2 10]
    quarantine_refines_window [of 0 "[Reassigned 0 ''u'', PruneTick 3, Reassigned 11 ''u'']" 2 10]
  by (simp add: ws_init_def in_window_def Let_def)

end
