(* ===== verification/Hashing.thy ===== *)
theory Hashing
  imports Go_Prelude
begin

text \<open>
  The routing hash of the proxy: \<^verbatim>\<open>HashUser\<close> (hashing.go) is the IEEE CRC-32 of the
  routing key, and a backend is picked by reducing a hash modulo the number of backends
  (proxy.go, rebalancer.go, redis.go). The CRC is Go's \<^verbatim>\<open>hash/crc32\<close> in its bit-serial
  form over 32-bit words.
\<close>

section \<open>CRC-32\<close>

definition crc_bit :: "u32 \<Rightarrow> u32" where
  "crc_bit c = (if c AND 1 = 0 then drop_bit 1 c else drop_bit 1 c XOR 0xEDB88320)"

definition crc_byte :: "u32 \<Rightarrow> byte \<Rightarrow> u32" where
  "crc_byte c b = (crc_bit ^^ 8) (c XOR ucast b)"

definition ChecksumIEEE :: "byte list \<Rightarrow> u32" where
  "ChecksumIEEE bs = NOT (foldl crc_byte (NOT 0) bs)"

definition bytes_of :: "string \<Rightarrow> byte list" where
  "bytes_of s = map of_char s"

definition HashUser :: "string \<Rightarrow> u32" where
  "HashUser userID = ChecksumIEEE (bytes_of userID)"

text \<open>
  \<^verbatim>\<open>byte(hash), byte(hash >> 8), byte(hash >> 16), byte(hash >> 24)\<close>: the four bytes the
  fallback of redis.go hashes a second time.
\<close>

definition le_bytes :: "u32 \<Rightarrow> byte list" where
  "le_bytes h = [ucast h, ucast (drop_bit 8 h), ucast (drop_bit 16 h), ucast (drop_bit 24 h)]"

text \<open>
  \<^verbatim>\<open>backends[hash%uint32(len(backends))]\<close>. A length that is zero modulo
  \<open>2\<^sup>3\<^sup>2\<close> makes the Go remainder panic: no result.
\<close>

definition pick_backend :: "string list \<Rightarrow> u32 \<Rightarrow> string option" where
  "pick_backend backends hash =
     (let n = (of_nat (length backends) :: u32) in
      if n = 0 then None else Some (backends ! unat (hash mod n)))"

section \<open>Evaluation\<close>

lemma crc_byte_unrolled:
  "crc_byte c b =
     crc_bit (crc_bit (crc_bit (crc_bit (crc_bit (crc_bit (crc_bit (crc_bit (c XOR ucast b))))))))"
  by (simp add: crc_byte_def eval_nat_numeral)

lemmas crc_eval = HashUser_def ChecksumIEEE_def bytes_of_def crc_byte_unrolled crc_bit_def

lemma HashUser_check_value: "HashUser ''123456789'' = 0xCBF43926"
  by (simp add: crc_eval)

section \<open>The checksum is a bijection on four bytes\<close>

lemma bit_u32_ext:
  fixes x y :: u32
  assumes "\<And>n. n < 32 \<Longrightarrow> bit x n = bit y n"
  shows "x = y"
  using assms by (intro bit_word_eqI) simp

lemma crc_bit_alt: "crc_bit c = drop_bit 1 c XOR (if bit c 0 then 0xEDB88320 else 0)"
  by (simp add: crc_bit_def and_one_eq bit_0 flip: even_iff_mod_2_eq_zero)

lemma crc_bit_xor: "crc_bit (x XOR y) = crc_bit x XOR crc_bit y"
  by (simp add: crc_bit_alt bit_xor_iff xor.assoc xor.left_commute)

lemma crc_bits_xor: "(crc_bit ^^ n) (x XOR y) = (crc_bit ^^ n) x XOR (crc_bit ^^ n) y"
  by (induction n) (simp_all add: crc_bit_xor)

lemma crc_bit_top: "bit (crc_bit c) 31 = bit c 0"
proof -
  have p: "bit (0xEDB88320 :: u32) 31" by simp
  have d: "\<not> bit (drop_bit 1 c) 31"
    using bit_imp_le_length [of c 32] by (auto simp: bit_drop_bit_eq)
  show ?thesis
    by (cases "bit c 0") (use p d in \<open>simp_all add: crc_bit_alt bit_xor_iff\<close>)
qed

lemma crc_bit_even: "\<not> bit c 0 \<Longrightarrow> crc_bit c = drop_bit 1 c"
  by (simp add: crc_bit_alt)

lemma crc_bits_shift: "(\<And>i. i < n \<Longrightarrow> \<not> bit x i) \<Longrightarrow> (crc_bit ^^ n) x = drop_bit n x"
proof (induction n)
  case (Suc n)
  then have "\<not> bit (drop_bit n x) 0" by (simp add: bit_drop_bit_eq)
  with Suc show ?case by (simp add: crc_bit_even)
qed simp

lemma crc_bit_eq_0:
  assumes "crc_bit c = 0"
  shows "c = 0"
proof (rule bit_u32_ext)
  fix n :: nat
  have low: "\<not> bit c 0" using assms crc_bit_top [of c] by simp
  with assms have "drop_bit 1 c = 0" by (simp add: crc_bit_even)
  then have "bit (drop_bit 1 c) (n - 1) = bit (0 :: u32) (n - 1)" by simp
  with low show "bit c n = bit (0 :: u32) n"
    by (cases n) (simp_all add: bit_drop_bit_eq)
qed

lemma inj_crc_bit: "inj crc_bit"
proof (rule injI)
  fix x y assume "crc_bit x = crc_bit y"
  then have "crc_bit (x XOR y) = 0" by (simp add: crc_bit_xor)
  then have "x XOR y = 0" by (rule crc_bit_eq_0)
  then show "x = y" by (metis xor.assoc xor.right_neutral xor_self_eq)
qed

lemma inj_crc_bits: "inj (crc_bit ^^ n)"
  by (rule inj_fn [OF inj_crc_bit])

lemma crc_bits_push:
  fixes y :: u32
  assumes "\<And>i. bit y i \<Longrightarrow> i + n < 32"
  shows "(crc_bit ^^ n) (push_bit n y) = y"
proof -
  have "(crc_bit ^^ n) (push_bit n y) = drop_bit n (push_bit n y)"
    by (rule crc_bits_shift) (simp add: bit_push_bit_iff)
  also have "\<dots> = y"
  proof (rule bit_u32_ext)
    fix i :: nat
    show "bit (drop_bit n (push_bit n y)) i = bit y i"
      using assms [of i] by (simp add: bit_push_bit_iff bit_drop_bit_eq) linarith
  qed
  finally show ?thesis .
qed

lemma crc_byte_after:
  assumes "n + 8 \<le> 32"
  shows "crc_byte ((crc_bit ^^ n) x) b = (crc_bit ^^ (n + 8)) (x XOR push_bit n (ucast b))"
proof -
  have "\<And>i. bit (ucast b :: u32) i \<Longrightarrow> i + n < 32"
    using assms by (auto simp: bit_ucast_iff dest: bit_imp_le_length)
  then have "(crc_bit ^^ n) (push_bit n (ucast b)) = (ucast b :: u32)"
    by (rule crc_bits_push)
  then have "(crc_bit ^^ n) (x XOR push_bit n (ucast b)) = (crc_bit ^^ n) x XOR ucast b"
    by (simp only: crc_bits_xor)
  then show ?thesis
    by (simp only: crc_byte_def funpow_add add.commute [of n 8] comp_apply)
qed

lemma bytes_reassemble:
  fixes h :: u32
  shows "(ucast (ucast h :: byte) :: u32) XOR push_bit 8 (ucast (ucast (drop_bit 8 h) :: byte))
     XOR push_bit 16 (ucast (ucast (drop_bit 16 h) :: byte))
     XOR push_bit 24 (ucast (ucast (drop_bit 24 h) :: byte)) = h" (is "?l = h")
proof (rule bit_u32_ext)
  fix n :: nat
  assume n: "n < 32"
  consider "n < 8" | "8 \<le> n" "n < 16" | "16 \<le> n" "n < 24" | "24 \<le> n" by linarith
  then show "bit ?l n = bit h n"
    by cases (use n in \<open>auto simp: bit_xor_iff bit_push_bit_iff bit_ucast_iff bit_drop_bit_eq\<close>)
qed

lemma ChecksumIEEE_le_bytes:
  "ChecksumIEEE (le_bytes h) = NOT ((crc_bit ^^ 32) (NOT 0 XOR h))"
proof -
  let ?b = "\<lambda>k. ucast (drop_bit k h) :: byte"
  have "foldl crc_byte x (le_bytes h)
      = crc_byte (crc_byte (crc_byte (crc_byte ((crc_bit ^^ 0) x) (?b 0)) (?b 8)) (?b 16)) (?b 24)" for x
    by (simp add: le_bytes_def)
  also have "\<dots> x = (crc_bit ^^ (0 + 8 + 8 + 8 + 8)) ((((x XOR push_bit 0 (ucast (?b 0)))
      XOR push_bit (0 + 8) (ucast (?b 8))) XOR push_bit (0 + 8 + 8) (ucast (?b 16)))
      XOR push_bit (0 + 8 + 8 + 8) (ucast (?b 24)))" for x
    by (subst crc_byte_after, simp)+ (rule refl)
  also have "\<dots> x = (crc_bit ^^ 32) (x XOR h)" for x
    using bytes_reassemble [of h] by (simp add: xor.assoc)
  finally show ?thesis by (simp only: ChecksumIEEE_def)
qed

lemma secondary_hash_injective: "inj (\<lambda>h. ChecksumIEEE (le_bytes h))"
proof (rule injI)
  fix g h :: u32
  assume "ChecksumIEEE (le_bytes g) = ChecksumIEEE (le_bytes h)"
  then have "(crc_bit ^^ 32) (NOT 0 XOR g) = (crc_bit ^^ 32) (NOT 0 XOR h)"
    by (simp only: ChecksumIEEE_le_bytes bit.compl_eq_compl_iff)
  then have "NOT 0 XOR g = NOT 0 XOR h"
    using inj_crc_bits [of 32] by (simp only: inj_eq)
  then show "g = h" by simp
qed

section \<open>Picking a backend\<close>

lemma pick_backend_Some:
  assumes "backends \<noteq> []" and "length backends < 2 ^ 32"
  shows "\<exists>b \<in> set backends. pick_backend backends hash = Some b"
proof -
  let ?n = "of_nat (length backends) :: u32"
  have un: "unat ?n = length backends"
    using assms(2) by (simp add: unat_of_nat)
  then have "?n \<noteq> 0" using assms(1) by (metis length_0_conv unat_0)
  moreover have "unat (hash mod ?n) < length backends"
    using un assms(1) by (simp add: unat_mod_distrib)
  ultimately show ?thesis by (auto simp: pick_backend_def Let_def)
qed

lemma pick_backend_mem: "pick_backend backends hash = Some b \<Longrightarrow> length backends < 2 ^ 32 \<Longrightarrow> b \<in> set backends"
  using pick_backend_Some [of backends hash] by (cases "backends = []") (auto simp: pick_backend_def)


end
