(* ===== verification/Redis_Breaker.thy ===== *)
theory Redis_Breaker
  imports Hashing
begin

text \<open>
  The circuit breaker in front of Redis and its hash fallback (redis.go:
  \<^verbatim>\<open>isCBOpen\<close>, \<^verbatim>\<open>recordCBFailure\<close>, \<^verbatim>\<open>recordCBSuccess\<close>, \<^verbatim>\<open>hashFallback\<close>). The state is the part of
  the \<^verbatim>\<open>Redis\<close> struct that the mutex \<open>cbMu\<close> and the atomic \<open>cachedBackends\<close> protect;
  each operation is one critical section, so an interleaving of requests is a list of
  operations.
\<close>

datatype cb_state = cbClosed | cbOpen | cbHalfOpen

record redis_cb =
  cbFailures :: int
  cbState :: cb_state
  cbOpenedAt :: instant
  cbThreshold :: int
  cbCooldown :: duration
  cachedBackends :: "string list"

definition NewRedis :: "int \<Rightarrow> duration \<Rightarrow> redis_cb" where
  "NewRedis threshold cooldown =
     \<lparr>cbFailures = 0, cbState = cbClosed, cbOpenedAt = zero_time, cbThreshold = threshold,
      cbCooldown = cooldown, cachedBackends = []\<rparr>"

definition isCBOpen :: "instant \<Rightarrow> redis_cb \<Rightarrow> bool \<times> redis_cb" where
  "isCBOpen now r =
     (case cbState r of
        cbOpen \<Rightarrow> if now - cbOpenedAt r \<ge> cbCooldown r then (False, r\<lparr>cbState := cbHalfOpen\<rparr>)
                  else (True, r)
      | cbHalfOpen \<Rightarrow> (False, r)
      | cbClosed \<Rightarrow> (False, r))"

definition recordCBFailure :: "instant \<Rightarrow> redis_cb \<Rightarrow> redis_cb" where
  "recordCBFailure now r =
     (let r1 = r\<lparr>cbFailures := cbFailures r + 1\<rparr> in
      if cbFailures r1 \<ge> cbThreshold r1 then r1\<lparr>cbState := cbOpen, cbOpenedAt := now\<rparr> else r1)"

definition recordCBSuccess :: "redis_cb \<Rightarrow> redis_cb" where
  "recordCBSuccess r =
     (let r1 = r\<lparr>cbFailures := 0\<rparr> in
      if cbState r1 \<noteq> cbClosed then r1\<lparr>cbState := cbClosed\<rparr> else r1)"

text \<open>
  \<^verbatim>\<open>RefreshBackendList\<close> stores what \<^verbatim>\<open>ActiveBackends\<close> returned; on an error (\<open>None\<close>) the list
  stays.
\<close>

definition RefreshBackendList :: "string list option \<Rightarrow> redis_cb \<Rightarrow> redis_cb" where
  "RefreshBackendList fetched r =
     (case fetched of None \<Rightarrow> r | Some backends \<Rightarrow> r\<lparr>cachedBackends := backends\<rparr>)"

text \<open>The empty string is the code's "no fallback"; \<open>None\<close> is a division by zero.\<close>

definition hashFallback :: "u32 \<Rightarrow> redis_cb \<Rightarrow> string option" where
  "hashFallback hash r =
     (if cachedBackends r = [] then Some []
      else pick_backend (cachedBackends r) (ChecksumIEEE (le_bytes hash)))"

section \<open>Runs\<close>

datatype cb_event = Probe instant | Failure instant | Success

fun cb_step :: "cb_event \<Rightarrow> redis_cb \<Rightarrow> redis_cb" where
  "cb_step (Probe t) r = snd (isCBOpen t r)"
| "cb_step (Failure t) r = recordCBFailure t r"
| "cb_step Success r = recordCBSuccess r"

lemmas cb_defs [component_defs] = isCBOpen_def recordCBFailure_def recordCBSuccess_def Let_def

lemma cb_frame [simp]:
  "cbThreshold (cb_step e r) = cbThreshold r" "cbCooldown (cb_step e r) = cbCooldown r"
  "cachedBackends (cb_step e r) = cachedBackends r"
  by (cases e; simp add: cb_defs split: cb_state.split)+

lemma cb_run_frame [simp]:
  "cbThreshold (fold cb_step es r) = cbThreshold r" "cbCooldown (fold cb_step es r) = cbCooldown r"
  by (induction es arbitrary: r) simp_all

text \<open>What the breaker should know of its past: the failures since the last success.\<close>

fun failures_since :: "nat \<Rightarrow> cb_event list \<Rightarrow> nat" where
  "failures_since n [] = n"
| "failures_since n (Probe t # es) = failures_since n es"
| "failures_since n (Failure t # es) = failures_since (Suc n) es"
| "failures_since n (Success # es) = failures_since 0 es"

lemma cbFailures_run:
  "cbFailures r = int n \<Longrightarrow> cbFailures (fold cb_step es r) = int (failures_since n es)"
proof (induction es arbitrary: r n)
  case (Cons e es)
  show ?case
  proof (cases e)
    case (Probe t)
    have "cbFailures (cb_step e r) = int n"
      using Cons.prems Probe by (simp add: cb_defs split: cb_state.split)
    from Cons.IH [OF this] Probe show ?thesis by simp
  next
    case (Failure t)
    have "cbFailures (cb_step e r) = int (Suc n)"
      using Cons.prems Failure by (simp add: cb_defs)
    from Cons.IH [OF this] Failure show ?thesis by simp
  next
    case Success
    have "cbFailures (cb_step e r) = int 0"
      using Success by (simp add: cb_defs)
    from Cons.IH [OF this] Success show ?thesis by simp
  qed
qed simp

text \<open>The breaker is closed exactly while the count is below the threshold.\<close>

definition cb_inv :: "redis_cb \<Rightarrow> bool" where
  "cb_inv r \<longleftrightarrow> (cbState r = cbClosed \<longleftrightarrow> cbFailures r < cbThreshold r)"

lemma cb_inv_step: "0 < cbThreshold r \<Longrightarrow> cb_inv r \<Longrightarrow> cb_inv (cb_step e r)"
  by (cases e) (auto simp: cb_inv_def cb_defs split: cb_state.splits)

lemma cb_inv_run: "0 < cbThreshold r \<Longrightarrow> cb_inv r \<Longrightarrow> cb_inv (fold cb_step es r)"
  by (induction es arbitrary: r) (simp_all add: cb_inv_step)

lemma cb_inv_new: "0 < threshold \<Longrightarrow> cb_inv (NewRedis threshold cooldown)"
  by (simp add: cb_inv_def NewRedis_def)

text \<open>
  C13: The breaker trips on consecutive failures and on nothing else. After any
  interleaving of checks, failures and successes it is closed if and only if fewer than
  \<open>threshold\<close> failures were recorded since the last success (or since the start).
\<close>

theorem breaker_closed_iff:
  assumes "0 < threshold"
  shows "cbState (fold cb_step es (NewRedis threshold cooldown)) = cbClosed \<longleftrightarrow>
    int (failures_since 0 es) < threshold"
proof -
  let ?r = "NewRedis threshold cooldown"
  have "cbFailures (fold cb_step es ?r) = int (failures_since 0 es)"
    by (rule cbFailures_run) (simp add: NewRedis_def)
  moreover have "cb_inv (fold cb_step es ?r)"
    using assms by (intro cb_inv_run cb_inv_new) (simp_all add: NewRedis_def)
  moreover have "cbThreshold (fold cb_step es ?r) = threshold"
    by (simp add: NewRedis_def)
  ultimately show ?thesis by (simp add: cb_inv_def)
qed

theorem breaker_closed_iff_witness:
  "cbState (fold cb_step [Failure 1, Success, Failure 2, Failure 3] (NewRedis 2 30)) \<noteq> cbClosed"
  using breaker_closed_iff [of 2 "[Failure 1, Success, Failure 2, Failure 3]" 30] by simp

text \<open>
  An open breaker recovers only through its cooldown. A failure at \<open>t0\<close> that reaches
  the threshold makes every check before \<open>t0 + cooldown\<close> answer "open" and change nothing;
  a check from then on lets the request through and leaves the breaker half-open, where
  one failure opens it again for a whole cooldown and one success closes it with a clean
  count.
\<close>

theorem breaker_cycle:
  assumes "cbThreshold r \<le> cbFailures r + 1"
  shows "isCBOpen now (recordCBFailure t0 r) =
      (if now < t0 + cbCooldown r then (True, recordCBFailure t0 r)
       else (False, (recordCBFailure t0 r)\<lparr>cbState := cbHalfOpen\<rparr>)) \<and>
    (let half = (recordCBFailure t0 r)\<lparr>cbState := cbHalfOpen\<rparr> in
      fst (isCBOpen later (recordCBFailure t1 half)) = (later < t1 + cbCooldown r) \<and>
      cbState (recordCBSuccess half) = cbClosed \<and> cbFailures (recordCBSuccess half) = 0)"
  using assms by (auto simp: cb_defs)

theorem breaker_cycle_witness:
  "isCBOpen 20 (recordCBFailure 10 (NewRedis 1 30)) = (True, recordCBFailure 10 (NewRedis 1 30)) \<and>
   fst (isCBOpen 45 (recordCBFailure 10 (NewRedis 1 30))) = False"
  using breaker_cycle [of "NewRedis 1 30" 20 10 0 0] breaker_cycle [of "NewRedis 1 30" 45 10 0 0]
  by (simp add: NewRedis_def)

text \<open>
  Half-open is not limited to one probe: every check passes until a verdict is recorded.
\<close>

lemma half_open_admits_every_check:
  "cbState r = cbHalfOpen \<Longrightarrow> fst (isCBOpen t r) = False \<and> fold cb_step (map Probe ts) r = r"
  by (induction ts) (simp_all add: cb_defs)

section \<open>Fallback\<close>

lemma hashFallback_member:
  assumes "cachedBackends r \<noteq> []" and "length (cachedBackends r) < 2 ^ 32"
  shows "\<exists>b \<in> set (cachedBackends r). hashFallback hash r = Some b"
  using pick_backend_Some [OF assms] assms(1) by (simp add: hashFallback_def)

lemma hashFallback_empty [simp]: "cachedBackends r = [] \<Longrightarrow> hashFallback hash r = Some []"
  by (simp add: hashFallback_def)

end
