(* ===== verification/Backend_Manager.thy ===== *)
theory Backend_Manager
  imports Go_Prelude
begin

text \<open>
  The per-backend circuit breaker and the reverse proxy call (backends.go): \<^verbatim>\<open>Available\<close>,
  \<^verbatim>\<open>recordFailure\<close>, \<^verbatim>\<open>getOrCreateProxy\<close> and \<^verbatim>\<open>ProxyRequest\<close>. The eviction goroutine that
  \<^verbatim>\<open>recordFailure\<close> starts is recorded in \<open>bm_evictions\<close>; its body is modelled with the other
  clients of the store. \<^verbatim>\<open>url.Parse\<close> enters as the predicate of the backends it accepts, the
  round trip to the backend as its outcome.
\<close>

record failure =
  f_count :: int
  f_until :: instant

record backend_manager =
  bm_failures :: "(string, failure) gomap"
  bm_proxies :: "string list"
  bm_evictionThreshold :: int
  bm_evictionCooldown :: duration
  bm_evictions :: "string list"

definition NewBackendManager :: "int \<Rightarrow> duration \<Rightarrow> backend_manager" where
  "NewBackendManager threshold cooldown =
     \<lparr>bm_failures = [], bm_proxies = [], bm_evictionThreshold = threshold,
      bm_evictionCooldown = cooldown, bm_evictions = []\<rparr>"

text \<open>The defaults that the constructor applies to its transport configuration.\<close>

record transport_config =
  MaxConnsPerHost :: int
  MaxIdleConnsPerHost :: int
  IdleConnTimeout :: duration

definition transport_defaults :: "transport_config \<Rightarrow> transport_config \<times> int" where
  "transport_defaults tc =
     (let tc = (if MaxConnsPerHost tc \<le> 0 then tc\<lparr>MaxConnsPerHost := 500\<rparr> else tc);
          tc = (if MaxIdleConnsPerHost tc \<le> 0 then tc\<lparr>MaxIdleConnsPerHost := MaxConnsPerHost tc\<rparr> else tc);
          tc = (if IdleConnTimeout tc \<le> 0 then tc\<lparr>IdleConnTimeout := 90 * second\<rparr> else tc);
          maxIdleTotal = MaxIdleConnsPerHost tc * 10
      in (tc, if maxIdleTotal < 1000 then 1000 else maxIdleTotal))"

definition Available :: "instant \<Rightarrow> string \<Rightarrow> backend_manager \<Rightarrow> bool \<times> backend_manager" where
  "Available now backend b =
     (case map_of (bm_failures b) backend of
        None \<Rightarrow> (True, b)
      | Some f \<Rightarrow>
          if now > f_until f then (True, b\<lparr>bm_failures := del backend (bm_failures b)\<rparr>)
          else (False, b))"

definition recordFailure :: "instant \<Rightarrow> string \<Rightarrow> backend_manager \<Rightarrow> backend_manager" where
  "recordFailure now backend b =
     (let f = (case map_of (bm_failures b) backend of
                 None \<Rightarrow> \<lparr>f_count = 0, f_until = zero_time\<rparr> | Some f \<Rightarrow> f);
          f = f\<lparr>f_count := f_count f + 1\<rparr>;
          shouldEvict = (f_count f \<ge> bm_evictionThreshold b);
          f = (if shouldEvict then f\<lparr>f_until := now + bm_evictionCooldown b\<rparr> else f);
          b = b\<lparr>bm_failures := put backend f (bm_failures b)\<rparr>
      in if shouldEvict
         then b\<lparr>bm_proxies := removeAll backend (bm_proxies b), bm_evictions := bm_evictions b @ [backend]\<rparr>
         else b)"

definition getOrCreateProxy :: "(string \<Rightarrow> bool) \<Rightarrow> string \<Rightarrow> backend_manager \<Rightarrow> bool \<times> backend_manager" where
  "getOrCreateProxy url_ok backend b =
     (if backend \<in> set (bm_proxies b) then (True, b)
      else if \<not> url_ok backend then (False, b)
      else (True, b\<lparr>bm_proxies := backend # bm_proxies b\<rparr>))"

text \<open>The outcome of the round trip: the backend's status, or the transport's error.\<close>

datatype upstream = Answered nat | TransportError

definition StatusServiceUnavailable :: nat where "StatusServiceUnavailable = 503"
definition StatusBadGateway :: nat where "StatusBadGateway = 502"

definition ProxyRequest ::
  "(string \<Rightarrow> bool) \<Rightarrow> instant \<Rightarrow> instant \<Rightarrow> upstream \<Rightarrow> string \<Rightarrow> backend_manager \<Rightarrow>
   nat \<times> backend_manager" where
  "ProxyRequest url_ok now now' outcome backend b =
     (case Available now backend b of
        (False, b1) \<Rightarrow> (StatusServiceUnavailable, b1)
      | (True, b1) \<Rightarrow>
          (case getOrCreateProxy url_ok backend b1 of
             (False, b2) \<Rightarrow> (StatusBadGateway, b2)
           | (True, b2) \<Rightarrow>
               (case outcome of
                  Answered status \<Rightarrow> (status, b2)
                | TransportError \<Rightarrow> (StatusBadGateway, recordFailure now' backend b2))))"

section \<open>The breaker\<close>

definition failure_of :: "backend_manager \<Rightarrow> string \<Rightarrow> failure option" where
  "failure_of b backend = map_of (bm_failures b) backend"

definition failing :: "backend_manager \<Rightarrow> string \<Rightarrow> int" where
  "failing b backend = (case failure_of b backend of None \<Rightarrow> 0 | Some f \<Rightarrow> f_count f)"

lemma recordFailure_same:
  "failure_of (recordFailure now x b) x =
     Some \<lparr>f_count = failing b x + 1,
           f_until = (if bm_evictionThreshold b \<le> failing b x + 1 then now + bm_evictionCooldown b
                      else case failure_of b x of None \<Rightarrow> zero_time | Some f \<Rightarrow> f_until f)\<rparr>"
  by (simp add: recordFailure_def failure_of_def failing_def Let_def gomap_simps split: option.split)

lemma recordFailure_other:
  "y \<noteq> x \<Longrightarrow> failure_of (recordFailure now x b) y = failure_of b y"
  by (simp add: recordFailure_def failure_of_def Let_def gomap_simps split: option.split)

lemma recordFailure_frame [simp]:
  "bm_evictionThreshold (recordFailure now x b) = bm_evictionThreshold b"
  "bm_evictionCooldown (recordFailure now x b) = bm_evictionCooldown b"
  by (simp_all add: recordFailure_def Let_def split: option.split)

lemma failing_recordFailure: "failing (recordFailure now x b) x = failing b x + 1"
  using recordFailure_same [of now x b] by (simp add: failing_def)

lemma failing_repeat: "failing (fold (\<lambda>t. recordFailure t x) ts b) x = failing b x + int (length ts)"
  by (induction ts arbitrary: b) (simp_all add: failing_recordFailure)

lemma repeat_frame [simp]:
  "bm_evictionThreshold (fold (\<lambda>t. recordFailure t x) ts b) = bm_evictionThreshold b"
  "bm_evictionCooldown (fold (\<lambda>t. recordFailure t x) ts b) = bm_evictionCooldown b"
  by (induction ts arbitrary: b) simp_all

text \<open>
  Failures that pile up without an availability check in between trip the breaker.
  Once a backend has \<open>threshold\<close> of them, the last at \<open>t\<close>, it is unavailable up to and
  including \<open>t + cooldown\<close>, its cached proxy is gone and the eviction of its mappings has
  been started; the first check after that resets it completely.
\<close>

theorem failures_open_breaker:
  fixes t :: instant and x :: string and ts :: "instant list" and b :: backend_manager
  assumes "bm_evictionThreshold b \<le> failing b x + int (length ts) + 1"
  defines "b' \<equiv> recordFailure t x (fold (\<lambda>t. recordFailure t x) ts b)"
  shows "(\<forall>now \<le> t + bm_evictionCooldown b. Available now x b' = (False, b')) \<and>
    x \<notin> set (bm_proxies b') \<and> x \<in> set (bm_evictions b') \<and>
    (\<forall>now > t + bm_evictionCooldown b. fst (Available now x b') \<and>
        failing (snd (Available now x b')) x = 0)"
proof -
  let ?b = "fold (\<lambda>t. recordFailure t x) ts b"
  have trip: "bm_evictionThreshold ?b \<le> failing ?b x + 1"
    using assms(1) by (simp add: failing_repeat)
  then have f: "map_of (bm_failures b') x =
      Some \<lparr>f_count = failing ?b x + 1, f_until = t + bm_evictionCooldown b\<rparr>"
    using recordFailure_same [of t x ?b] by (simp add: b'_def failure_of_def)
  have "x \<notin> set (bm_proxies b')" "x \<in> set (bm_evictions b')"
    using trip by (auto simp: b'_def recordFailure_def Let_def failing_def failure_of_def split: option.splits)
  with f show ?thesis
    by (simp add: Available_def failing_def failure_of_def gomap_simps)
qed

theorem failures_open_breaker_witness:
  "fst (Available 50 ''b'' (recordFailure 12 ''b'' (fold (\<lambda>t. recordFailure t ''b'') [10, 11]
      (NewBackendManager 3 60)))) = False"
  using failures_open_breaker [where b = "NewBackendManager 3 60" and x = "''b''" and ts = "[10, 11]" and t = 12]
  by (simp add: NewBackendManager_def failing_def failure_of_def)

section \<open>Sequential requests\<close>

text \<open>One client after the other: each request checks, calls the backend, and is done.\<close>

fun sequential :: "(string \<Rightarrow> bool) \<Rightarrow> string \<Rightarrow> (instant \<times> instant \<times> upstream) list \<Rightarrow> backend_manager \<Rightarrow>
    nat list \<times> backend_manager" where
  "sequential url_ok x [] b = ([], b)"
| "sequential url_ok x ((t, t', outcome) # rs) b =
     (let (status, b1) = ProxyRequest url_ok t t' outcome x b;
          (ss, b2) = sequential url_ok x rs b1
      in (status # ss, b2))"

definition below_threshold :: "string \<Rightarrow> backend_manager \<Rightarrow> bool" where
  "below_threshold x b \<longleftrightarrow> 2 \<le> bm_evictionThreshold b \<and>
     (\<forall>f. failure_of b x = Some f \<longrightarrow> f_until f = zero_time)"

lemma ProxyRequest_below:
  assumes "below_threshold x b" and "zero_time < t" and "url_ok x"
  shows "fst (ProxyRequest url_ok t t' outcome x b) =
      (case outcome of Answered s \<Rightarrow> s | TransportError \<Rightarrow> StatusBadGateway)"
    and "below_threshold x (snd (ProxyRequest url_ok t t' outcome x b))"
proof -
  obtain b1 where a: "Available t x b = (True, b1)" and none: "failure_of b1 x = None"
    and th: "bm_evictionThreshold b1 = bm_evictionThreshold b"
    using assms by (cases "failure_of b x")
      (auto simp: below_threshold_def Available_def failure_of_def gomap_simps)
  obtain b2 where g: "getOrCreateProxy url_ok x b1 = (True, b2)" and none2: "failure_of b2 x = None"
    and th2: "bm_evictionThreshold b2 = bm_evictionThreshold b"
    using none th assms(3) by (cases "x \<in> set (bm_proxies b1)") (auto simp: getOrCreateProxy_def failure_of_def)
  show "fst (ProxyRequest url_ok t t' outcome x b) =
      (case outcome of Answered s \<Rightarrow> s | TransportError \<Rightarrow> StatusBadGateway)"
    by (simp add: ProxyRequest_def a g split: upstream.split)
  show "below_threshold x (snd (ProxyRequest url_ok t t' outcome x b))"
    using assms(1) none2 th2 recordFailure_same [of t' x b2]
    by (auto simp: ProxyRequest_def a g below_threshold_def failing_def split: upstream.split)
qed

text \<open>
  C14: Requests that do not overlap never trip the breaker. With a threshold of two or
  more (the default is three), every availability check of a backend whose count is still
  below the threshold deletes the count, because an untripped entry has the zero time as
  its end. So a client that sends requests one after the other is always forwarded, even
  if the backend fails every single one of them, and the breaker of a dead backend stays
  closed for ever.
\<close>

theorem sequential_failures_never_trip:
  assumes "2 \<le> threshold" and "url_ok x" and "\<forall>(t, t', outcome) \<in> set rs. zero_time < t"
  shows "fst (sequential url_ok x rs (NewBackendManager threshold cooldown)) =
    map (\<lambda>(t, t', outcome). case outcome of Answered s \<Rightarrow> s | TransportError \<Rightarrow> StatusBadGateway) rs"
proof -
  have "below_threshold x b \<Longrightarrow> \<forall>(t, t', outcome) \<in> set rs. zero_time < t \<Longrightarrow>
      fst (sequential url_ok x rs b) =
      map (\<lambda>(t, t', outcome). case outcome of Answered s \<Rightarrow> s | TransportError \<Rightarrow> StatusBadGateway) rs" for b
  proof (induction rs arbitrary: b)
    case (Cons r rs)
    obtain t t' oc where r: "r = (t, t', oc)" by (cases r)
    note one = ProxyRequest_below [where url_ok = url_ok and t = t and t' = t' and outcome = oc]
    show ?case
      using Cons.IH [of "snd (ProxyRequest url_ok t t' oc x b)"] Cons.prems one [OF Cons.prems(1) _ assms(2)] r
      by (auto simp: Let_def split: prod.splits)
  qed simp
  moreover have "below_threshold x (NewBackendManager threshold cooldown)"
    using assms(1) by (simp add: below_threshold_def NewBackendManager_def failure_of_def)
  ultimately show ?thesis using assms(3) by blast
qed

theorem sequential_failures_never_trip_witness:
  "fst (sequential (\<lambda>_. True) ''b''
      [(1, 2, TransportError), (3, 4, TransportError), (5, 6, TransportError), (7, 8, TransportError)]
      (NewBackendManager 3 60)) = [502, 502, 502, 502]"
  using sequential_failures_never_trip [of 3 "\<lambda>_. True" "''b''"
      "[(1, 2, TransportError), (3, 4, TransportError), (5, 6, TransportError), (7, 8, TransportError)]" 60]
  by (simp add: zero_time_def StatusBadGateway_def)

end
