(* ===== verification/Assignments.thy ===== *)
theory Assignments
  imports Go_Prelude
begin

text \<open>
  The assignment table's data (assignment.go): an \<^verbatim>\<open>Assignment\<close> is the backend a routing
  key is bound to, with the time, the source and the resource weight; a
  \<^verbatim>\<open>BulkAssignEntry\<close> carries a backend and a weight into a bulk operation. Weights are
  Go \<open>int\<close>s, read here as integers: sums of weights stay far below the 64-bit range.
\<close>

record assignment =
  Backend :: string
  AssignedAt :: instant
  Source :: string
  Weight :: int

record bulk_assign_entry =
  EntryBackend :: string
  EntryWeight :: int

text \<open>\<^verbatim>\<open>if w <= 0 { w = 1 }\<close>, the default every store operation applies to a weight.\<close>

definition norm_weight :: "int \<Rightarrow> int" where
  "norm_weight w = (if w \<le> 0 then 1 else w)"

definition EffectiveWeight :: "assignment \<Rightarrow> int" where
  "EffectiveWeight a = (if Weight a \<le> 0 then 1 else Weight a)"

lemma EffectiveWeight_pos [simp]: "0 < EffectiveWeight a"
  by (simp add: EffectiveWeight_def)

lemma norm_weight_pos [simp]: "0 < norm_weight w"
  by (simp add: norm_weight_def)

lemma EffectiveWeight_norm: "EffectiveWeight a = norm_weight (Weight a)"
  by (simp add: EffectiveWeight_def norm_weight_def)

lemma norm_weight_idem [simp]: "norm_weight (norm_weight w) = norm_weight w"
  by (simp add: norm_weight_def)

text \<open>
  A value of a Redis hash is text. What the code needs of that text is whether
  \<^verbatim>\<open>json.Unmarshal\<close> (and \<^verbatim>\<open>cjson.decode\<close> in the scripts) accepts it and with which fields, or
  which integer it spells, so a stored value is the encoding of an assignment, a decimal
  integer, or text that is neither. A weight of zero is the omitted field.
\<close>

datatype json_text = Encoded assignment | Number int | Garbage string

fun unmarshalAssignment :: "json_text \<Rightarrow> assignment option" where
  "unmarshalAssignment (Encoded a) = Some a"
| "unmarshalAssignment (Number _) = None"
| "unmarshalAssignment (Garbage _) = None"

text \<open>\<^verbatim>\<open>tonumber(text) or 0\<close>\<close>

fun tonumber_or_0 :: "json_text option \<Rightarrow> int" where
  "tonumber_or_0 (Some (Number n)) = n"
| "tonumber_or_0 _ = 0"

text \<open>The assignments an operation creates carry the time in seconds and the source "assignment".\<close>

definition rfc3339 :: "instant \<Rightarrow> instant" where
  "rfc3339 t = t div second * second"

definition new_assignment :: "instant \<Rightarrow> string \<Rightarrow> int \<Rightarrow> assignment" where
  "new_assignment t b w = \<lparr>Backend = b, AssignedAt = t, Source = ''assignment'', Weight = w\<rparr>"

lemma new_assignment_simps [simp]:
  "Backend (new_assignment t b w) = b" "EffectiveWeight (new_assignment t b w) = norm_weight w"
  by (simp_all add: new_assignment_def EffectiveWeight_def norm_weight_def)

section \<open>Loads\<close>

type_synonym table = "(string, assignment) gomap"

text \<open>The total effective weight on a backend, and over all backends.\<close>

definition load :: "table \<Rightarrow> string \<Rightarrow> int" where
  "load asg b = sum_list (map (\<lambda>(u, a). if Backend a = b then EffectiveWeight a else 0) asg)"

definition total_load :: "table \<Rightarrow> int" where
  "total_load asg = sum_list (map (\<lambda>(u, a). EffectiveWeight a) asg)"

lemma load_put:
  "load (put u a asg) b = load asg b + (if Backend a = b then EffectiveWeight a else 0)
     - (case map_of asg u of None \<Rightarrow> 0 | Some a' \<Rightarrow> if Backend a' = b then EffectiveWeight a' else 0)"
  by (induction asg) (auto simp: load_def split: option.splits)

lemma load_del:
  "wf_map asg \<Longrightarrow> load (del u asg) b = load asg b
     - (case map_of asg u of None \<Rightarrow> 0 | Some a' \<Rightarrow> if Backend a' = b then EffectiveWeight a' else 0)"
proof (induction asg)
  case (Cons x asg)
  obtain v a where x: "x = (v, a)" by (cases x)
  show ?case
  proof (cases "v = u")
    case True
    with Cons.prems x have "del u asg = asg" by (intro delete_id) simp
    with True x show ?thesis by (simp add: load_def)
  next
    case False
    with Cons x show ?thesis by (simp add: load_def)
  qed
qed (simp add: load_def)

text \<open>Two tables with the same entries have the same loads, whatever their order.\<close>

lemma load_cong:
  assumes "wf_map m" and "wf_map m'" and "map_of m = map_of m'"
  shows "load m b = load m' b"
proof -
  have "(k, v) \<in> set m \<longleftrightarrow> (k, v) \<in> set m'" for k v
    using map_of_eq_Some_wf [OF assms(1), of k v] map_of_eq_Some_wf [OF assms(2), of k v] assms(3) by simp
  then have "set m = set m'" by auto
  moreover have "distinct m" "distinct m'" using assms(1, 2) by (simp_all add: distinct_map)
  ultimately have "mset m = mset m'" by (simp add: set_eq_iff_mset_eq_distinct)
  then show ?thesis by (simp add: load_def flip: sum_mset_sum_list)
qed

end
