(* ===== verification/Rebalance_Strategy.thy ===== *)
theory Rebalance_Strategy
  imports Assignments Hashing
begin

text \<open>
  The two rebalance strategies (rebalancer.go, \<^verbatim>\<open>RebalanceStrategy\<close>): least-loaded and
  consistent hash. Both read the table of assignments and the list of active backends and
  answer a list of moves. The table is an association list; its order is the order in which
  \<^verbatim>\<open>range\<close> visits it. \<^verbatim>\<open>LeastLoadedStrategy\<close> also ranges over the map \<^verbatim>\<open>backendUsers\<close>
  that it builds from the table: every order of that map and of the users in it arises from
  some order of the table, so a lemma about every table covers them all.
\<close>

record move =
  RoutingKey :: string
  FromBackend :: string
  ToBackend :: string

definition value_of :: "('k, int) gomap \<Rightarrow> 'k \<Rightarrow> int" where
  "value_of m k = (case map_of m k of None \<Rightarrow> 0 | Some w \<Rightarrow> w)"

definition append_to :: "'k \<Rightarrow> 'v \<Rightarrow> ('k, 'v list) gomap \<Rightarrow> ('k, 'v list) gomap" where
  "append_to k v m = put k ((case map_of m k of None \<Rightarrow> [] | Some vs \<Rightarrow> vs) @ [v]) m"

definition weight_of :: "table \<Rightarrow> string \<Rightarrow> int" where
  "weight_of asg user = (case map_of asg user of None \<Rightarrow> 0 | Some a \<Rightarrow> EffectiveWeight a)"

section \<open>Least loaded\<close>

definition backend_weights :: "table \<Rightarrow> string list \<Rightarrow> (string, int) gomap" where
  "backend_weights asg active =
     fold (\<lambda>(user, a) m. put (Backend a) (value_of m (Backend a) + EffectiveWeight a) m) asg
       (fold (\<lambda>b. put b 0) active [])"

definition backend_users :: "table \<Rightarrow> (string, string list) gomap" where
  "backend_users asg = fold (\<lambda>(user, a). append_to (Backend a) user) asg []"

definition ideal_weight :: "table \<Rightarrow> string list \<Rightarrow> int" where
  "ideal_weight asg active =
     (let ideal = sum_list (map snd (backend_weights asg active)) div int (length active)
      in if ideal = 0 then 1 else ideal)"

definition pick_target :: "(string, int) gomap \<Rightarrow> int \<Rightarrow> int \<Rightarrow> string list \<Rightarrow> int \<times> string" where
  "pick_target planned ideal w active =
     fold (\<lambda>b (minWeight, target).
         if value_of planned b < minWeight \<and> value_of planned b + w \<le> ideal + 1
         then (value_of planned b, b) else (minWeight, target)) active (ideal, [])"

fun shed :: "table \<Rightarrow> string list \<Rightarrow> int \<Rightarrow> string \<Rightarrow> int \<Rightarrow> string list \<Rightarrow> int \<Rightarrow>
    (string, int) gomap \<times> move list \<Rightarrow> (string, int) gomap \<times> move list" where
  "shed asg active ideal backend excess [] moved (planned, moves) = (planned, moves)"
| "shed asg active ideal backend excess (user # users) moved (planned, moves) =
     (if moved \<ge> excess then (planned, moves)
      else
        let w = weight_of asg user; target = snd (pick_target planned ideal w active)
        in if target = [] then shed asg active ideal backend excess users moved (planned, moves)
           else
             let planned = put target (value_of planned target + w) planned;
                 planned = put backend (value_of planned backend - w) planned
             in shed asg active ideal backend excess users (moved + w)
                  (planned, moves @ [\<lparr>RoutingKey = user, FromBackend = backend, ToBackend = target\<rparr>]))"

definition shed_backend :: "table \<Rightarrow> string list \<Rightarrow> int \<Rightarrow> (string, int) gomap \<Rightarrow>
    string \<times> string list \<Rightarrow> (string, int) gomap \<times> move list \<Rightarrow> (string, int) gomap \<times> move list" where
  "shed_backend asg active ideal weights = (\<lambda>(backend, users) (planned, moves).
     if backend \<notin> set active
     then shed asg active ideal backend (value_of weights backend) users 0 (planned, moves)
     else if value_of weights backend > ideal + 1
     then shed asg active ideal backend (value_of weights backend - ideal - 1) users 0 (planned, moves)
     else (planned, moves))"

definition LeastLoaded_ComputeMoves :: "table \<Rightarrow> string list \<Rightarrow> move list" where
  "LeastLoaded_ComputeMoves asg active =
     (if active = [] then []
      else
        let weights = backend_weights asg active; ideal = ideal_weight asg active
        in snd (fold (shed_backend asg active ideal weights) (backend_users asg) (weights, [])))"

section \<open>Consistent hash\<close>

definition ConsistentHash_ComputeMoves :: "table \<Rightarrow> string list \<Rightarrow> move list" where
  "ConsistentHash_ComputeMoves asg active =
     (if active = [] then []
      else
        let sorted_backends = sort active
        in concat (map (\<lambda>(user, a).
             case pick_backend sorted_backends (HashUser user) of
               None \<Rightarrow> []
             | Some target \<Rightarrow>
                 if target \<noteq> Backend a
                 then [\<lparr>RoutingKey = user, FromBackend = Backend a, ToBackend = target\<rparr>]
                 else []) asg))"

section \<open>What a plan does to the table\<close>

definition apply_move :: "move \<Rightarrow> table \<Rightarrow> table" where
  "apply_move m asg = (case map_of asg (RoutingKey m) of
     None \<Rightarrow> asg | Some a \<Rightarrow> put (RoutingKey m) (a\<lparr>Backend := ToBackend m\<rparr>) asg)"

definition apply_moves :: "move list \<Rightarrow> table \<Rightarrow> table" where
  "apply_moves ms asg = fold apply_move ms asg"

section \<open>The contract of a strategy\<close>

text \<open>
  What the rebalancer relies on: a plan moves each routing key at most once, away from the
  backend the table has it on and to a different backend that is active.
\<close>

definition valid_plan :: "table \<Rightarrow> string list \<Rightarrow> move list \<Rightarrow> bool" where
  "valid_plan asg active ms \<longleftrightarrow> distinct (map RoutingKey ms) \<and>
     (\<forall>m \<in> set ms. ToBackend m \<in> set active \<and> ToBackend m \<noteq> FromBackend m \<and>
        (\<exists>a. map_of asg (RoutingKey m) = Some a \<and> Backend a = FromBackend m))"

lemma valid_plan_Nil [simp]: "valid_plan asg active []"
  by (simp add: valid_plan_def)

lemma valid_plan_snoc:
  "valid_plan asg active (ms @ [m]) \<longleftrightarrow> valid_plan asg active ms \<and>
     RoutingKey m \<notin> RoutingKey ` set ms \<and> ToBackend m \<in> set active \<and> ToBackend m \<noteq> FromBackend m \<and>
     (\<exists>a. map_of asg (RoutingKey m) = Some a \<and> Backend a = FromBackend m)"
  by (auto simp: valid_plan_def)

definition planned_backend :: "move list \<Rightarrow> table \<Rightarrow> string \<Rightarrow> string option" where
  "planned_backend ms asg user = map_option Backend (map_of (apply_moves ms asg) user)"

lemma apply_moves_Nil [simp]: "apply_moves [] asg = asg"
  by (simp add: apply_moves_def)

lemma apply_moves_Cons [simp]: "apply_moves (m # ms) asg = apply_moves ms (apply_move m asg)"
  by (simp add: apply_moves_def)

lemma apply_moves_snoc [simp]: "apply_moves (ms @ [m]) asg = apply_move m (apply_moves ms asg)"
  by (simp add: apply_moves_def)

lemma map_of_apply_move:
  "map_of (apply_move m asg) u =
     (if u = RoutingKey m then map_option (\<lambda>a. a\<lparr>Backend := ToBackend m\<rparr>) (map_of asg u) else map_of asg u)"
  by (auto simp: apply_move_def gomap_simps split: option.split)

lemma wf_apply_move [wf_intros, simp]: "wf_map asg \<Longrightarrow> wf_map (apply_move m asg)"
  by (simp add: apply_move_def split: option.split)

lemma wf_apply_moves [wf_intros, simp]: "wf_map asg \<Longrightarrow> wf_map (apply_moves ms asg)"
  by (induction ms arbitrary: asg) simp_all

lemma map_of_apply_moves_other:
  "u \<notin> RoutingKey ` set ms \<Longrightarrow> map_of (apply_moves ms asg) u = map_of asg u"
  by (induction ms arbitrary: asg) (simp_all add: map_of_apply_move)

lemma map_of_apply_moves_moved:
  assumes "distinct (map RoutingKey ms)" and "m \<in> set ms"
  shows "map_of (apply_moves ms asg) (RoutingKey m) =
    map_option (\<lambda>a. a\<lparr>Backend := ToBackend m\<rparr>) (map_of asg (RoutingKey m))"
  using assms
proof (induction ms arbitrary: asg)
  case (Cons m' ms)
  show ?case
  proof (cases "m = m'")
    case True
    then show ?thesis using Cons.prems(1) by (simp add: map_of_apply_moves_other map_of_apply_move)
  next
    case False
    with Cons.prems have "RoutingKey m \<in> RoutingKey ` set ms" by (intro imageI) simp
    with Cons.prems have "RoutingKey m \<noteq> RoutingKey m'" by auto
    with Cons False show ?thesis by (simp add: map_of_apply_move)
  qed
qed simp

lemma EffectiveWeight_move [simp]: "EffectiveWeight (a\<lparr>Backend := b\<rparr>) = EffectiveWeight a"
  by (simp add: EffectiveWeight_def)

lemma total_load_put:
  "total_load (put u a asg) = total_load asg + EffectiveWeight a
     - (case map_of asg u of None \<Rightarrow> 0 | Some a' \<Rightarrow> EffectiveWeight a')"
  by (induction asg) (auto simp: total_load_def split: option.splits)

lemma load_apply_move:
  assumes "map_of asg (RoutingKey m) = Some a"
  shows "load (apply_move m asg) b = load asg b + (if b = ToBackend m then EffectiveWeight a else 0)
    - (if b = Backend a then EffectiveWeight a else 0)"
  using assms by (auto simp: apply_move_def load_put)

lemma total_load_apply_move [simp]: "total_load (apply_move m asg) = total_load asg"
  by (simp add: apply_move_def total_load_put split: option.split)

lemma total_load_apply_moves [simp]: "total_load (apply_moves ms asg) = total_load asg"
  by (induction ms arbitrary: asg) simp_all

locale rebalance_strategy =
  fixes compute :: "table \<Rightarrow> string list \<Rightarrow> move list"
  assumes compute_none: "compute asg [] = []"
    and compute_valid: "wf_map asg \<Longrightarrow> length active < 2 ^ 32 \<Longrightarrow> valid_plan asg active (compute asg active)"
begin

lemma moved_to_active:
  assumes "wf_map asg" and "length active < 2 ^ 32" and "m \<in> set (compute asg active)"
  shows "\<exists>a. map_of asg (RoutingKey m) = Some a \<and> Backend a = FromBackend m \<and>
    ToBackend m \<in> set active \<and> ToBackend m \<noteq> FromBackend m"
  using compute_valid [OF assms(1, 2)] assms(3) by (auto simp: valid_plan_def)

lemma plan_result:
  assumes "wf_map asg" and "length active < 2 ^ 32"
  shows "dom (map_of (apply_moves (compute asg active) asg)) = dom (map_of asg) \<and>
    total_load (apply_moves (compute asg active) asg) = total_load asg \<and>
    (\<forall>u a. map_of asg u = Some a \<longrightarrow>
       (\<exists>b. map_of (apply_moves (compute asg active) asg) u = Some (a\<lparr>Backend := b\<rparr>) \<and>
          (b = Backend a \<or> b \<in> set active)))"
proof -
  let ?ms = "compute asg active"
  have v: "valid_plan asg active ?ms" by (rule compute_valid [OF assms])
  have each: "\<exists>b. map_of (apply_moves ?ms asg) u = map_option (\<lambda>a. a\<lparr>Backend := b a\<rparr>) (map_of asg u) \<and>
      (\<forall>a. b a = Backend a \<or> b a \<in> set active)" for u
  proof (cases "u \<in> RoutingKey ` set ?ms")
    case True
    then obtain m where m: "m \<in> set ?ms" "u = RoutingKey m" by blast
    with v have "map_of (apply_moves ?ms asg) u = map_option (\<lambda>a. a\<lparr>Backend := ToBackend m\<rparr>) (map_of asg u)"
      by (simp add: map_of_apply_moves_moved valid_plan_def)
    moreover have "ToBackend m \<in> set active" using v m by (simp add: valid_plan_def)
    ultimately show ?thesis by (intro exI [of _ "\<lambda>_. ToBackend m"]) simp
  next
    case False
    then show ?thesis
      by (intro exI [of _ Backend]) (simp add: map_of_apply_moves_other option.map_ident)
  qed
  have "map_of (apply_moves ?ms asg) u = None \<longleftrightarrow> map_of asg u = None" for u
    using each [of u] by auto
  then have "dom (map_of (apply_moves ?ms asg)) = dom (map_of asg)"
    by (auto simp: dom_def simp flip: not_None_eq)
  moreover have "\<exists>b. map_of (apply_moves ?ms asg) u = Some (a\<lparr>Backend := b\<rparr>) \<and> (b = Backend a \<or> b \<in> set active)"
    if "map_of asg u = Some a" for u a
    using each [of u] that by auto
  ultimately show ?thesis by simp
qed

end

section \<open>Consistent hash\<close>

lemma ConsistentHash_valid:
  assumes wf: "wf_map asg" and len: "length active < 2 ^ 32"
  shows "valid_plan asg active (ConsistentHash_ComputeMoves asg active)"
proof (cases "active = []")
  case False
  let ?f = "\<lambda>(user, a). case pick_backend (sort active) (HashUser user) of None \<Rightarrow> []
      | Some target \<Rightarrow> if target \<noteq> Backend a
          then [\<lparr>RoutingKey = user, FromBackend = Backend a, ToBackend = target\<rparr>] else []"
  have keys: "set (map RoutingKey (concat (map ?f xs))) \<subseteq> set (keys xs)" for xs
    by (force split: option.splits if_splits)
  have d: "wf_map xs \<Longrightarrow> distinct (map RoutingKey (concat (map ?f xs)))" for xs
  proof (induction xs)
    case (Cons x xs)
    then show ?case using keys [of xs] by (cases x) (force split: option.split)
  qed simp
  have "pick_backend (sort active) h = Some b \<Longrightarrow> b \<in> set active" for h b
    using pick_backend_mem [of "sort active" h b] len by simp
  with d [OF wf] False wf show ?thesis
    by (auto simp: valid_plan_def ConsistentHash_ComputeMoves_def map_of_eq_Some_wf split: option.splits if_splits)
qed (simp add: ConsistentHash_ComputeMoves_def)

interpretation chash: rebalance_strategy ConsistentHash_ComputeMoves
  by unfold_locales (simp_all add: ConsistentHash_valid, simp add: ConsistentHash_ComputeMoves_def)

lemma ConsistentHash_backend:
  assumes wf: "wf_map asg" and "active \<noteq> []" and len: "length active < 2 ^ 32"
    and u: "map_of asg u = Some a"
  shows "planned_backend (ConsistentHash_ComputeMoves asg active) asg u = pick_backend (sort active) (HashUser u)"
proof -
  let ?ms = "ConsistentHash_ComputeMoves asg active"
  obtain b where b: "pick_backend (sort active) (HashUser u) = Some b"
    using pick_backend_Some [of "sort active" "HashUser u"] assms(2, 3)
    by (metis length_0_conv length_sort)
  have mem: "m \<in> set ?ms \<longleftrightarrow> (\<exists>a t. map_of asg (RoutingKey m) = Some a \<and>
      pick_backend (sort active) (HashUser (RoutingKey m)) = Some t \<and> t \<noteq> Backend a \<and>
      m = \<lparr>RoutingKey = RoutingKey m, FromBackend = Backend a, ToBackend = t\<rparr>)" for m
    using assms(2) wf
    by (auto simp: ConsistentHash_ComputeMoves_def map_of_eq_Some_wf split: option.splits if_splits) force+
  show ?thesis
  proof (cases "b = Backend a")
    case True
    then have "u \<notin> RoutingKey ` set ?ms" using b u by (auto simp: mem)
    then show ?thesis using b u True by (simp add: planned_backend_def map_of_apply_moves_other)
  next
    case False
    let ?m = "\<lparr>RoutingKey = u, FromBackend = Backend a, ToBackend = b\<rparr>"
    have "?m \<in> set ?ms" using b u False by (simp add: mem)
    then show ?thesis
      using map_of_apply_moves_moved [of ?ms ?m asg] ConsistentHash_valid [OF wf len] b u
      by (simp add: planned_backend_def valid_plan_def)
  qed
qed

section \<open>Least loaded: the maps the plan starts from\<close>

lemma value_of_put [simp]: "value_of (put k v m) = (value_of m)(k := v)"
  by (rule ext) (simp add: value_of_def gomap_simps)

lemma sum_put: "sum_list (map snd (put k v m)) = sum_list (map snd m) + v - value_of m k"
  by (induction m) (auto simp: value_of_def)

lemma zeros: "value_of (fold (\<lambda>b. put b 0) active m) k = (if k \<in> set active then 0 else value_of m k)"
  by (induction active arbitrary: m) simp_all

lemma zeros_sum:
  "(\<And>k. value_of m k = 0) \<Longrightarrow> sum_list (map snd (fold (\<lambda>b. put b 0) active m)) = sum_list (map snd m)"
  by (induction active arbitrary: m) (simp_all add: sum_put)

lemma value_of_backend_weights: "value_of (backend_weights asg active) b = load asg b"
proof -
  have "value_of (fold (\<lambda>(user, a) m. put (Backend a) (value_of m (Backend a) + EffectiveWeight a) m) asg m) b =
      value_of m b + load asg b" for m
    by (induction asg arbitrary: m) (auto simp: load_def)
  then show ?thesis by (simp add: backend_weights_def zeros) (simp add: value_of_def)
qed

lemma sum_backend_weights: "sum_list (map snd (backend_weights asg active)) = total_load asg"
proof -
  have "sum_list (map snd (fold (\<lambda>(user, a) m. put (Backend a) (value_of m (Backend a) + EffectiveWeight a) m) asg m)) =
      sum_list (map snd m) + total_load asg" for m
    by (induction asg arbitrary: m) (auto simp: total_load_def sum_put)
  then show ?thesis by (simp add: backend_weights_def zeros_sum value_of_def)
qed

lemma ideal_weight_eq:
  "ideal_weight asg active =
     (if total_load asg div int (length active) = 0 then 1 else total_load asg div int (length active))"
  by (simp add: ideal_weight_def sum_backend_weights Let_def)

definition users_on :: "table \<Rightarrow> string \<Rightarrow> string list" where
  "users_on asg b = map fst (filter (\<lambda>(u, a). Backend a = b) asg)"

lemma map_of_backend_users:
  "map_of (backend_users asg) b = (if users_on asg b = [] then None else Some (users_on asg b))"
proof -
  have "map_of (fold (\<lambda>(user, a). append_to (Backend a) user) asg m) b =
      (case map_of m b of None \<Rightarrow> if users_on asg b = [] then None else Some (users_on asg b)
       | Some us \<Rightarrow> Some (us @ users_on asg b))" for m
    by (induction asg arbitrary: m) (auto simp: users_on_def append_to_def gomap_simps split: option.split)
  then show ?thesis by (simp add: backend_users_def)
qed

lemma wf_backend_users [simp]: "wf_map (backend_users asg)"
proof -
  have "wf_map m \<Longrightarrow> wf_map (fold (\<lambda>(user, a). append_to (Backend a) user) asg m)" for m
    by (induction asg arbitrary: m) (auto simp: append_to_def)
  then show ?thesis by (simp add: backend_users_def)
qed

lemma backend_users_mem: "(b, us) \<in> set (backend_users asg) \<longleftrightarrow> us = users_on asg b \<and> us \<noteq> []"
  by (auto simp: map_of_backend_users simp flip: map_of_eq_Some_wf [OF wf_backend_users])

lemma users_on_mem: "wf_map asg \<Longrightarrow> u \<in> set (users_on asg b) \<longleftrightarrow> (\<exists>a. map_of asg u = Some a \<and> Backend a = b)"
  by (force simp: users_on_def map_of_eq_Some_wf)

lemma users_on_distinct: "wf_map asg \<Longrightarrow> distinct (users_on asg b)"
  unfolding users_on_def by (rule wf_map_filter)

section \<open>Least loaded: the target\<close>

definition fits :: "(string, int) gomap \<Rightarrow> int \<Rightarrow> int \<Rightarrow> string \<Rightarrow> bool" where
  "fits planned ideal w b \<longleftrightarrow> value_of planned b < ideal \<and> value_of planned b + w \<le> ideal + 1"

lemma pick_target_cases:
  assumes "pick_target planned ideal w active = (mw, t)"
  shows "((mw, t) = (ideal, []) \<and> (\<forall>b \<in> set active. \<not> fits planned ideal w b)) \<or>
    (t \<in> set active \<and> fits planned ideal w t \<and> mw = value_of planned t)"
proof -
  let ?f = "\<lambda>b (minWeight, target).
      if value_of planned b < minWeight \<and> value_of planned b + w \<le> ideal + 1
      then (value_of planned b, b) else (minWeight, target)"
  have "m \<le> ideal \<Longrightarrow> fold ?f active (m, t0) = (mw, t) \<Longrightarrow>
      ((mw, t) = (m, t0) \<and> (\<forall>b \<in> set active. \<not> (value_of planned b < m \<and> value_of planned b + w \<le> ideal + 1))) \<or>
      (t \<in> set active \<and> fits planned ideal w t \<and> mw = value_of planned t)" for m t0
  proof (induction active arbitrary: m t0)
    case (Cons b bs)
    show ?case
    proof (cases "value_of planned b < m \<and> value_of planned b + w \<le> ideal + 1")
      case True
      with Cons.IH [of "value_of planned b" b] Cons.prems show ?thesis by (auto simp: fits_def)
    next
      case False
      with Cons.IH [of m t0] Cons.prems show ?thesis by auto
    qed
  qed simp
  from this [of ideal "[]"] assms show ?thesis by (auto simp: pick_target_def fits_def)
qed

lemma pick_target_some:
  assumes "snd (pick_target planned ideal w active) \<noteq> []"
  shows "snd (pick_target planned ideal w active) \<in> set active"
    and "fits planned ideal w (snd (pick_target planned ideal w active))"
  using pick_target_cases [of planned ideal w active] assms by (cases "pick_target planned ideal w active"; force)+

lemma pick_target_none:
  assumes "[] \<notin> set active"
  shows "snd (pick_target planned ideal w active) = [] \<longleftrightarrow> (\<forall>b \<in> set active. \<not> fits planned ideal w b)"
  using pick_target_cases [of planned ideal w active] assms
  by (cases "pick_target planned ideal w active") force

section \<open>Least loaded: the invariant of the planning loop\<close>

text \<open>
  \<open>done\<close> are the backends already treated. The running weights are the loads the moves
  planned so far lead to; an active backend is above its own initial load only up to the
  balance threshold; an overloaded backend that has not had its turn is untouched.
\<close>

definition plan_inv :: "table \<Rightarrow> string list \<Rightarrow> int \<Rightarrow> string set \<Rightarrow> (string, int) gomap \<times> move list \<Rightarrow> bool" where
  "plan_inv asg active ideal treated = (\<lambda>(planned, moves).
     valid_plan asg active moves \<and>
     (\<forall>b. value_of planned b = load (apply_moves moves asg) b) \<and>
     (\<forall>b \<in> set active. value_of planned b \<le> max (load asg b) (ideal + 1)) \<and>
     (\<forall>m \<in> set moves. FromBackend m \<in> treated) \<and>
     (\<forall>b. b \<notin> treated \<longrightarrow> ideal + 1 < load asg b \<longrightarrow> b \<in> set active \<longrightarrow> value_of planned b = load asg b))"

lemma plan_inv_bound:
  "plan_inv asg active ideal D (planned, moves) \<Longrightarrow> b \<in> set active \<Longrightarrow>
     value_of planned b \<le> max (load asg b) (ideal + 1)"
  unfolding plan_inv_def prod.case by blast

lemma plan_inv_kept:
  "plan_inv asg active ideal D (planned, moves) \<Longrightarrow> b \<notin> D \<Longrightarrow> ideal + 1 < load asg b \<Longrightarrow> b \<in> set active \<Longrightarrow>
     value_of planned b = load asg b"
  unfolding plan_inv_def prod.case by blast

lemma plan_inv_loads:
  "plan_inv asg active ideal D (planned, moves) \<Longrightarrow> value_of planned b = load (apply_moves moves asg) b"
  unfolding plan_inv_def prod.case by blast

lemma plan_invI:
  assumes "valid_plan asg active moves" and "\<And>b. value_of planned b = load (apply_moves moves asg) b"
    and "\<And>b. b \<in> set active \<Longrightarrow> value_of planned b \<le> max (load asg b) (ideal + 1)"
    and "\<And>b. b \<notin> D \<Longrightarrow> ideal + 1 < load asg b \<Longrightarrow> b \<in> set active \<Longrightarrow> value_of planned b = load asg b"
    and "\<forall>m \<in> set moves. FromBackend m \<in> D"
  shows "plan_inv asg active ideal D (planned, moves)"
  unfolding plan_inv_def prod.case using assms by blast

lemma plan_inv_init:
  assumes "\<And>b. value_of weights b = load asg b"
  shows "plan_inv asg active ideal {} (weights, [])"
  using assms by (simp add: plan_inv_def)

lemma plan_inv_weaken: "plan_inv asg active ideal D s \<Longrightarrow> D \<subseteq> D' \<Longrightarrow> plan_inv asg active ideal D' s"
  by (auto simp: plan_inv_def)

lemma plan_inv_move:
  assumes inv: "plan_inv asg active ideal D (planned, moves)" and b: "backend \<in> D"
    and u: "map_of asg user = Some a" "Backend a = backend" "user \<notin> RoutingKey ` set moves"
    and t: "target \<in> set active" "fits planned ideal (EffectiveWeight a) target" "target \<noteq> backend"
  shows "plan_inv asg active ideal D
    (put backend (value_of planned backend - EffectiveWeight a)
       (put target (value_of planned target + EffectiveWeight a) planned),
     moves @ [\<lparr>RoutingKey = user, FromBackend = backend, ToBackend = target\<rparr>])"
proof -
  let ?m = "\<lparr>RoutingKey = user, FromBackend = backend, ToBackend = target\<rparr>"
  let ?p = "put backend (value_of planned backend - EffectiveWeight a)
       (put target (value_of planned target + EffectiveWeight a) planned)"
  have cur: "map_of (apply_moves moves asg) (RoutingKey ?m) = Some a"
    using u by (simp add: map_of_apply_moves_other)
  have "valid_plan asg active (moves @ [?m])"
    using inv u t by (simp add: plan_inv_def valid_plan_snoc)
  moreover have "value_of ?p b' = load (apply_moves (moves @ [?m]) asg) b'" for b'
    using inv u t by (simp add: plan_inv_def load_apply_move [OF cur])
  moreover have "value_of ?p b' \<le> max (load asg b') (ideal + 1)" if "b' \<in> set active" for b'
  proof -
    have "value_of planned b' \<le> max (load asg b') (ideal + 1)" by (rule plan_inv_bound [OF inv that])
    moreover have "value_of planned target + EffectiveWeight a \<le> ideal + 1" using t by (simp add: fits_def)
    ultimately show ?thesis
      using EffectiveWeight_pos [of a] t(3) by (auto simp: max_def simp del: EffectiveWeight_pos split: if_splits)
  qed
  moreover have "value_of ?p b' = load asg b'"
    if "b' \<notin> D" "ideal + 1 < load asg b'" "b' \<in> set active" for b'
    using plan_inv_kept [OF inv that] t b that by (auto simp: fits_def)
  moreover have "\<forall>m \<in> set (moves @ [?m]). FromBackend m \<in> D"
    using inv b by (simp add: plan_inv_def)
  ultimately show ?thesis by (rule plan_invI)
qed

text \<open>
  While a backend sheds, its running weight stays above the threshold, so it is never its
  own target.
\<close>

definition shedding :: "table \<Rightarrow> string list \<Rightarrow> int \<Rightarrow> string \<Rightarrow> int \<Rightarrow> int \<Rightarrow> (string, int) gomap \<Rightarrow> bool" where
  "shedding asg active ideal backend excess moved planned \<longleftrightarrow>
     backend \<in> set active \<longrightarrow>
       excess = load asg backend - ideal - 1 \<and> value_of planned backend = load asg backend - moved"

lemma shed_inv:
  assumes "plan_inv asg active ideal D (planned, moves)" and "backend \<in> D" and "distinct users"
    and "\<forall>u \<in> set users. u \<notin> RoutingKey ` set moves \<and> (\<exists>a. map_of asg u = Some a \<and> Backend a = backend)"
    and "shedding asg active ideal backend excess moved planned"
  shows "plan_inv asg active ideal D (shed asg active ideal backend excess users moved (planned, moves))"
  using assms
proof (induction users arbitrary: planned moves moved)
  case (Cons u us)
  obtain a where a: "map_of asg u = Some a" "Backend a = backend" using Cons.prems(4) by auto
  then have w: "weight_of asg u = EffectiveWeight a" by (simp add: weight_of_def)
  let ?t = "snd (pick_target planned ideal (weight_of asg u) active)"
  show ?case
  proof (cases "excess \<le> moved \<or> ?t = []")
    case True
    have "plan_inv asg active ideal D (shed asg active ideal backend excess us moved (planned, moves))"
      using Cons.prems by (intro Cons.IH) auto
    then show ?thesis using True Cons.prems(1) by (auto simp: Let_def)
  next
    case False
    then have t: "?t \<in> set active" "fits planned ideal (EffectiveWeight a) ?t"
      using pick_target_some w by auto
    then have ne: "?t \<noteq> backend"
      using False Cons.prems(5) by (auto simp: shedding_def fits_def)
    let ?p = "put backend (value_of planned backend - EffectiveWeight a)
       (put ?t (value_of planned ?t + EffectiveWeight a) planned)"
    have "plan_inv asg active ideal D (?p, moves @ [\<lparr>RoutingKey = u, FromBackend = backend, ToBackend = ?t\<rparr>])"
      using Cons.prems(4) by (intro plan_inv_move [OF Cons.prems(1, 2) a _ t ne]) simp
    from Cons.IH [OF this Cons.prems(2), of "moved + weight_of asg u"] show ?thesis
      using False Cons.prems ne w by (auto simp: Let_def shedding_def)
  qed
qed simp

lemma shed_backend_inv:
  assumes inv: "plan_inv asg active ideal D s" and "b \<notin> D" and us: "us = users_on asg b" and wf: "wf_map asg"
    and weights: "\<And>b. value_of weights b = load asg b"
  shows "plan_inv asg active ideal (insert b D) (shed_backend asg active ideal weights (b, us) s)"
proof -
  obtain planned moves where s: "s = (planned, moves)" by (cases s)
  have inv': "plan_inv asg active ideal (insert b D) (planned, moves)"
    using inv s plan_inv_weaken by blast
  have fresh: "\<forall>u \<in> set us. u \<notin> RoutingKey ` set moves \<and> (\<exists>a. map_of asg u = Some a \<and> Backend a = b)"
  proof
    fix u assume "u \<in> set us"
    then obtain a where a: "map_of asg u = Some a" "Backend a = b" using us users_on_mem [OF wf] by auto
    have "FromBackend m \<noteq> b" if "m \<in> set moves" for m
      using inv s that assms(2) by (auto simp: plan_inv_def)
    then have "u \<notin> RoutingKey ` set moves"
      using inv s a by (fastforce simp: plan_inv_def valid_plan_def)
    then show "u \<notin> RoutingKey ` set moves \<and> (\<exists>a. map_of asg u = Some a \<and> Backend a = b)" using a by blast
  qed
  have kept: "b \<in> set active \<Longrightarrow> ideal + 1 < load asg b \<Longrightarrow> value_of planned b = load asg b"
    using plan_inv_kept [OF inv [unfolded s] assms(2)] by blast
  note run = shed_inv [OF inv' _ _ fresh]
  show ?thesis
    using inv' kept users_on_distinct [OF wf, of b, folded us]
    by (auto simp: shed_backend_def s weights shedding_def intro!: run)
qed

lemma shed_all_inv:
  assumes "plan_inv asg active ideal D s" and "wf_map asg" and "\<And>b. value_of weights b = load asg b"
    and "wf_map bu" and "\<forall>(b, us) \<in> set bu. b \<notin> D \<and> us = users_on asg b"
  shows "plan_inv asg active ideal (D \<union> set (keys bu)) (fold (shed_backend asg active ideal weights) bu s)"
  using assms(1, 4, 5)
proof (induction bu arbitrary: D s)
  case (Cons x bu)
  obtain b us where x: "x = (b, us)" by (cases x)
  have "plan_inv asg active ideal (insert b D) (shed_backend asg active ideal weights (b, us) s)"
    using Cons.prems x by (intro shed_backend_inv [OF _ _ _ assms(2, 3)]) auto
  moreover have "\<forall>(b', us') \<in> set bu. b' \<notin> insert b D \<and> us' = users_on asg b'"
    using Cons.prems x by force
  ultimately show ?case using Cons.IH [of "insert b D"] Cons.prems(2) by (simp add: x)
qed simp

lemma LeastLoaded_inv:
  assumes "wf_map asg" and "active \<noteq> []"
  obtains planned where "plan_inv asg active (ideal_weight asg active) (set (keys (backend_users asg)))
    (planned, LeastLoaded_ComputeMoves asg active)"
proof -
  have "plan_inv asg active (ideal_weight asg active) ({} \<union> set (keys (backend_users asg)))
      (fold (shed_backend asg active (ideal_weight asg active) (backend_weights asg active)) (backend_users asg)
        (backend_weights asg active, []))"
    by (rule shed_all_inv [OF plan_inv_init assms(1)])
       (auto simp: value_of_backend_weights backend_users_mem)
  then show ?thesis
    using that assms(2) by (cases "fold (shed_backend asg active (ideal_weight asg active) (backend_weights asg active))
        (backend_users asg) (backend_weights asg active, [])") (simp add: LeastLoaded_ComputeMoves_def Let_def)
qed

lemma LeastLoaded_valid: "wf_map asg \<Longrightarrow> valid_plan asg active (LeastLoaded_ComputeMoves asg active)"
proof (cases "active = []")
  case False
  assume "wf_map asg"
  from LeastLoaded_inv [OF this False] obtain planned where
    "plan_inv asg active (ideal_weight asg active) (set (keys (backend_users asg)))
      (planned, LeastLoaded_ComputeMoves asg active)" .
  then show ?thesis by (simp add: plan_inv_def)
qed (simp add: LeastLoaded_ComputeMoves_def)

interpretation lload: rebalance_strategy LeastLoaded_ComputeMoves
  by unfold_locales (simp_all add: LeastLoaded_valid, simp add: LeastLoaded_ComputeMoves_def)

section \<open>Least loaded: when nothing moves\<close>

lemma shed_appends: "\<exists>ms. snd (shed asg active ideal b excess users moved (planned, moves)) = moves @ ms"
proof (induction users arbitrary: moved planned moves)
  case (Cons u us)
  show ?case
    using Cons [of moved planned moves]
      Cons [of "moved + weight_of asg u" _ "moves @ [\<lparr>RoutingKey = u, FromBackend = b,
          ToBackend = snd (pick_target planned ideal (weight_of asg u) active)\<rparr>]"]
    by (auto simp: Let_def)
qed simp

lemma shed_nonempty [simp]: "snd (shed asg active ideal b excess users moved (planned, m # ms)) \<noteq> []"
  using shed_appends [of asg active ideal b excess users moved planned "m # ms"] by auto

lemma shed_backend_appends: "\<exists>ms. snd (shed_backend asg active ideal weights x s) = snd s @ ms"
  using shed_appends by (cases x; cases s) (auto simp: shed_backend_def)

lemma shed_all_appends: "\<exists>ms. snd (fold (shed_backend asg active ideal weights) bu s) = snd s @ ms"
proof (induction bu arbitrary: s)
  case (Cons x bu)
  show ?case using Cons [of "shed_backend asg active ideal weights x s"]
      shed_backend_appends [of asg active ideal weights x s] by auto
qed simp

lemma shed_idle:
  assumes "0 < excess"
  shows "snd (shed asg active ideal b excess users 0 (planned, [])) = [] \<longleftrightarrow>
    (\<forall>u \<in> set users. snd (pick_target planned ideal (weight_of asg u) active) = [])"
    and "snd (shed asg active ideal b excess users 0 (planned, [])) = [] \<Longrightarrow>
      shed asg active ideal b excess users 0 (planned, []) = (planned, [])"
proof -
  have *: "(if \<forall>u \<in> set users. snd (pick_target planned ideal (weight_of asg u) active) = []
      then shed asg active ideal b excess users 0 (planned, []) = (planned, [])
      else snd (shed asg active ideal b excess users 0 (planned, [])) \<noteq> [])"
    using assms by (induction users) (auto simp: Let_def)
  from * show "snd (shed asg active ideal b excess users 0 (planned, [])) = [] \<longleftrightarrow>
      (\<forall>u \<in> set users. snd (pick_target planned ideal (weight_of asg u) active) = [])"
    by (auto split: if_splits)
  with * show "snd (shed asg active ideal b excess users 0 (planned, [])) = [] \<Longrightarrow>
      shed asg active ideal b excess users 0 (planned, []) = (planned, [])"
    by auto
qed

definition sheds :: "table \<Rightarrow> string list \<Rightarrow> int \<Rightarrow> string \<Rightarrow> bool" where
  "sheds asg active ideal b \<longleftrightarrow> b \<notin> set active \<or> ideal + 1 < load asg b"

lemma load_pos: "wf_map asg \<Longrightarrow> map_of asg u = Some a \<Longrightarrow> 0 < load asg (Backend a)"
proof (induction asg)
  case (Cons x asg)
  have "0 \<le> load asg b" for b
    unfolding load_def by (rule sum_list_nonneg) (auto simp: less_imp_le)
  with Cons show ?case
    by (cases x) (auto simp: load_def add_pos_nonneg add_nonneg_pos map_of_eq_Some_wf split: if_splits)
qed simp

lemma shed_backend_idle:
  assumes wf: "wf_map asg" and us: "us = users_on asg b" "us \<noteq> []" and weights: "\<And>b. value_of weights b = load asg b"
  shows "if sheds asg active ideal b \<longrightarrow>
       (\<forall>u \<in> set us. snd (pick_target weights ideal (weight_of asg u) active) = [])
     then shed_backend asg active ideal weights (b, us) (weights, []) = (weights, [])
     else snd (shed_backend asg active ideal weights (b, us) (weights, [])) \<noteq> []"
proof -
  obtain u where "u \<in> set us" using us(2) by (cases us) auto
  then have "0 < load asg b" using load_pos [OF wf] us(1) users_on_mem [OF wf] by auto
  then show ?thesis
    using shed_idle [of "load asg b" asg active ideal b us weights]
      shed_idle [of "load asg b - ideal - 1" asg active ideal b us weights]
    by (auto simp: shed_backend_def sheds_def weights)
qed

lemma shed_all_idle:
  assumes wf: "wf_map asg" and weights: "\<And>b. value_of weights b = load asg b"
    and "\<forall>(b, us) \<in> set bu. us = users_on asg b \<and> us \<noteq> []"
  shows "snd (fold (shed_backend asg active ideal weights) bu (weights, [])) = [] \<longleftrightarrow>
    (\<forall>(b, us) \<in> set bu. sheds asg active ideal b \<longrightarrow>
       (\<forall>u \<in> set us. snd (pick_target weights ideal (weight_of asg u) active) = []))"
  using assms(3)
proof (induction bu)
  case (Cons x bu)
  obtain b us where x: "x = (b, us)" by (cases x)
  note one = shed_backend_idle [OF wf _ _ weights, of us b active ideal]
  show ?case
    using one Cons x shed_all_appends [of asg active ideal weights bu "shed_backend asg active ideal weights (b, us) (weights, [])"]
    by (auto split: if_splits)
qed simp

lemma LeastLoaded_idle:
  assumes wf: "wf_map asg" and "active \<noteq> []" and "[] \<notin> set active"
  shows "LeastLoaded_ComputeMoves asg active = [] \<longleftrightarrow>
    (\<forall>u a. map_of asg u = Some a \<longrightarrow> sheds asg active (ideal_weight asg active) (Backend a) \<longrightarrow>
      (\<forall>b \<in> set active. ideal_weight asg active \<le> load asg b \<or>
         ideal_weight asg active + 1 < load asg b + EffectiveWeight a))"
proof -
  let ?i = "ideal_weight asg active" and ?w = "backend_weights asg active"
  have "LeastLoaded_ComputeMoves asg active = [] \<longleftrightarrow>
      (\<forall>(b, us) \<in> set (backend_users asg). sheds asg active ?i b \<longrightarrow>
         (\<forall>u \<in> set us. snd (pick_target ?w ?i (weight_of asg u) active) = []))"
  proof -
    have "\<forall>(b, us) \<in> set (backend_users asg). us = users_on asg b \<and> us \<noteq> []"
      by (auto simp: backend_users_mem)
    from shed_all_idle [OF wf value_of_backend_weights this] show ?thesis
      using assms(2) by (simp add: LeastLoaded_ComputeMoves_def Let_def)
  qed
  also have "\<dots> \<longleftrightarrow> (\<forall>b u. sheds asg active ?i b \<longrightarrow> u \<in> set (users_on asg b) \<longrightarrow>
      (\<forall>b \<in> set active. \<not> fits ?w ?i (weight_of asg u) b))"
    by (force simp: backend_users_mem pick_target_none [OF assms(3)])
  also have "\<dots> \<longleftrightarrow> (\<forall>u a. map_of asg u = Some a \<longrightarrow> sheds asg active ?i (Backend a) \<longrightarrow>
      (\<forall>b \<in> set active. ?i \<le> load asg b \<or> ?i + 1 < load asg b + EffectiveWeight a))"
    by (force simp: users_on_mem [OF wf] fits_def value_of_backend_weights weight_of_def not_less not_le)
  finally show ?thesis .
qed

text \<open>The weights a least-loaded plan leads to.\<close>

lemma LeastLoaded_bound:
  assumes "wf_map asg"
  shows "total_load (apply_moves (LeastLoaded_ComputeMoves asg active) asg) = total_load asg"
    and "b \<in> set active \<Longrightarrow> load (apply_moves (LeastLoaded_ComputeMoves asg active) asg) b
       \<le> max (load asg b) (max 1 (total_load asg div int (length active)) + 1)"
proof -
  have "total_load (apply_moves (LeastLoaded_ComputeMoves asg active) asg) = total_load asg \<and>
    (\<forall>b \<in> set active. load (apply_moves (LeastLoaded_ComputeMoves asg active) asg) b
       \<le> max (load asg b) (max 1 (total_load asg div int (length active)) + 1))"
  proof (cases "active = []")
    case False
    have "0 \<le> total_load asg"
      unfolding total_load_def by (rule sum_list_nonneg) (auto simp: less_imp_le)
    then have i: "ideal_weight asg active = max 1 (total_load asg div int (length active))"
      using pos_imp_zdiv_nonneg_iff [of "int (length active)" "total_load asg"] False
      by (auto simp: ideal_weight_eq max_def)
    obtain planned where "plan_inv asg active (ideal_weight asg active) (set (keys (backend_users asg)))
        (planned, LeastLoaded_ComputeMoves asg active)"
      using LeastLoaded_inv [OF assms False] .
    from plan_inv_bound [OF this] plan_inv_loads [OF this] show ?thesis by (simp add: i)
  qed (simp add: LeastLoaded_ComputeMoves_def)
  then show "total_load (apply_moves (LeastLoaded_ComputeMoves asg active) asg) = total_load asg"
    and "b \<in> set active \<Longrightarrow> load (apply_moves (LeastLoaded_ComputeMoves asg active) asg) b
       \<le> max (load asg b) (max 1 (total_load asg div int (length active)) + 1)" by simp_all
qed

section \<open>Properties\<close>

text \<open>
  C9: A least-loaded plan is safe to carry out. It moves each user at most once, from the
  backend the table has the user on to a different backend that is active; it loses no
  weight; and in the table it leads to, no active backend is above the balance threshold
  (the ideal share plus one) unless it already was, and then it is no fuller than before.
\<close>

theorem least_loaded_plan:
  assumes "wf_map asg"
  shows "valid_plan asg active (LeastLoaded_ComputeMoves asg active) \<and>
    total_load (apply_moves (LeastLoaded_ComputeMoves asg active) asg) = total_load asg \<and>
    (\<forall>b \<in> set active. load (apply_moves (LeastLoaded_ComputeMoves asg active) asg) b
       \<le> max (load asg b) (max 1 (total_load asg div int (length active)) + 1))"
  using LeastLoaded_valid [OF assms] LeastLoaded_bound [OF assms] by simp

theorem least_loaded_plan_witness:
  "valid_plan [(''u'', \<lparr>Backend = ''a'', AssignedAt = 0, Source = [], Weight = 2\<rparr>)] [''b'']
     (LeastLoaded_ComputeMoves [(''u'', \<lparr>Backend = ''a'', AssignedAt = 0, Source = [], Weight = 2\<rparr>)] [''b'']) \<and>
   LeastLoaded_ComputeMoves [(''u'', \<lparr>Backend = ''a'', AssignedAt = 0, Source = [], Weight = 2\<rparr>)] [''b''] =
     [\<lparr>RoutingKey = ''u'', FromBackend = ''a'', ToBackend = ''b''\<rparr>]"
  by (rule conjI, rule least_loaded_plan [THEN conjunct1], simp, code_simp)

text \<open>
  C15: The least-loaded strategy moves nothing exactly when no user of a shedding backend
  (one that is inactive, or loaded above the ideal share plus one) fits anywhere: every
  active backend already carries the ideal share or would exceed the threshold with that
  user. In particular users of a dead backend can be left where they are.
\<close>

theorem least_loaded_idle_iff:
  assumes "wf_map asg" and "active \<noteq> []" and "[] \<notin> set active"
  shows "LeastLoaded_ComputeMoves asg active = [] \<longleftrightarrow>
    (\<forall>u a. map_of asg u = Some a \<longrightarrow>
      Backend a \<notin> set active \<or> ideal_weight asg active + 1 < load asg (Backend a) \<longrightarrow>
      (\<forall>b \<in> set active. ideal_weight asg active \<le> load asg b \<or>
         ideal_weight asg active + 1 < load asg b + EffectiveWeight a))"
  using LeastLoaded_idle [OF assms] by (simp add: sheds_def)

definition unit_on :: "string \<Rightarrow> assignment" where
  "unit_on b = \<lparr>Backend = b, AssignedAt = 0, Source = [], Weight = 1\<rparr>"

theorem least_loaded_idle_iff_witness:
  "LeastLoaded_ComputeMoves [(''u'', unit_on ''a''), (''v'', unit_on ''b''), (''w'', unit_on ''dead'')]
     [''a'', ''b''] = []"
  by (subst least_loaded_idle_iff)
     (simp_all add: unit_on_def ideal_weight_eq total_load_def load_def EffectiveWeight_def)

text \<open>
  A consistent-hash plan puts every user of the table on the backend at
  \<open>CRC-32(user) mod n\<close> of the sorted active list, whatever order the list came in, and
  planning again on the resulting table moves nothing.
\<close>

theorem consistent_hash_plan:
  assumes "wf_map asg" and "active \<noteq> []" and "length active < 2 ^ 32" and "distinct active"
    and "distinct active'" and "set active' = set active"
  shows "(\<forall>u a. map_of asg u = Some a \<longrightarrow>
      planned_backend (ConsistentHash_ComputeMoves asg active') asg u = pick_backend (sort active) (HashUser u)) \<and>
    ConsistentHash_ComputeMoves (apply_moves (ConsistentHash_ComputeMoves asg active') asg) active = []"
proof -
  have s: "sort active' = sort active"
    using assms(4-6) by (intro sort_of_same_set) auto
  then have len: "length active' = length active" by (metis length_sort)
  have ne: "active' \<noteq> []" using assms(2, 6) by auto
  let ?asg = "apply_moves (ConsistentHash_ComputeMoves asg active') asg"
  have tgt: "planned_backend (ConsistentHash_ComputeMoves asg active') asg u = pick_backend (sort active) (HashUser u)"
    if "map_of asg u = Some a" for u a
    using ConsistentHash_backend [OF assms(1) ne _ that] assms(3) len s by simp
  have "pick_backend (sort active) (HashUser u) = Some (Backend a)" if "(u, a) \<in> set ?asg" for u a
  proof -
    have a: "map_of ?asg u = Some a" using that assms(1) by (simp add: map_of_eq_Some_wf)
    then obtain a0 where "map_of asg u = Some a0"
      using chash.plan_result [OF assms(1), of active'] assms(3) len domI [of "map_of ?asg" u a] by auto
    from tgt [OF this] a show ?thesis by (simp add: planned_backend_def)
  qed
  then have "ConsistentHash_ComputeMoves ?asg active = []"
    by (auto simp: ConsistentHash_ComputeMoves_def split: option.split)
  with tgt show ?thesis by blast
qed

theorem consistent_hash_plan_witness:
  "planned_backend (ConsistentHash_ComputeMoves [(''u'', unit_on ''a'')] [''c'', ''b'']) [(''u'', unit_on ''a'')] ''u'' =
     pick_backend (sort [''b'', ''c'']) (HashUser ''u'')"
  using consistent_hash_plan [of "[(''u'', unit_on ''a'')]" "[''b'', ''c'']" "[''c'', ''b'']"]
  by (simp add: insert_commute)

end
