(* ===== verification/Hold_Manager.thy ===== *)
theory Hold_Manager
  imports Go_Prelude
begin

text \<open>
  Requests held during a drain or a rebalance (hold.go). An entry of the map \<^verbatim>\<open>holds\<close> is a
  pointer to a fresh \<^verbatim>\<open>holdEntry\<close>; here it is a number, and \<open>hm_closed\<close> holds the numbers
  whose \<^verbatim>\<open>done\<close> channel is closed. \<^verbatim>\<open>Wait\<close> blocks: its result is a function of what the other
  goroutines do after it was called.
\<close>

record hold_manager =
  hm_holds :: "(string, nat) gomap"
  hm_timeout :: duration
  hm_closed :: "nat list"
  hm_next :: nat

definition NewHoldManager :: "duration \<Rightarrow> hold_manager" where
  "NewHoldManager timeout = \<lparr>hm_holds = [], hm_timeout = timeout, hm_closed = [], hm_next = 0\<rparr>"

text \<open>The entry's \<^verbatim>\<open>sync.Once\<close>: closing a closed channel would panic, closing twice is a no-op.\<close>

definition holdEntry_close :: "nat \<Rightarrow> hold_manager \<Rightarrow> hold_manager" where
  "holdEntry_close e h = (if e \<in> set (hm_closed h) then h else h\<lparr>hm_closed := e # hm_closed h\<rparr>)"

definition mark_key :: "string \<Rightarrow> hold_manager \<Rightarrow> hold_manager" where
  "mark_key key h =
     (case map_of (hm_holds h) key of
        Some _ \<Rightarrow> h
      | None \<Rightarrow> h\<lparr>hm_holds := put key (hm_next h) (hm_holds h), hm_next := Suc (hm_next h)\<rparr>)"

definition MarkTransition :: "string list \<Rightarrow> hold_manager \<Rightarrow> hold_manager" where
  "MarkTransition routingKeys = fold mark_key routingKeys"

definition clear_key :: "string \<Rightarrow> hold_manager \<Rightarrow> hold_manager" where
  "clear_key key h =
     (case map_of (hm_holds h) key of
        Some e \<Rightarrow> (holdEntry_close e h)\<lparr>hm_holds := del key (hm_holds h)\<rparr>
      | None \<Rightarrow> h)"

definition ClearTransition :: "string list \<Rightarrow> hold_manager \<Rightarrow> hold_manager" where
  "ClearTransition routingKeys = fold clear_key routingKeys"

datatype hold_event = Mark instant "string list" | Clear instant "string list"

fun hold_step :: "hold_event \<Rightarrow> hold_manager \<Rightarrow> hold_manager" where
  "hold_step (Mark _ ks) = MarkTransition ks"
| "hold_step (Clear _ ks) = ClearTransition ks"

fun hold_time :: "hold_event \<Rightarrow> instant" where
  "hold_time (Mark t _) = t"
| "hold_time (Clear t _) = t"

text \<open>When the channel of entry \<open>e\<close> is closed by one of the events to come.\<close>

fun closed_at :: "nat \<Rightarrow> hold_event list \<Rightarrow> hold_manager \<Rightarrow> instant option" where
  "closed_at e [] h = None"
| "closed_at e (ev # evs) h =
     (if e \<in> set (hm_closed (hold_step ev h)) then Some (hold_time ev) else closed_at e evs (hold_step ev h))"

text \<open>
  The call at \<open>now\<close>, with the events that follow it and the instant at which the request's
  context ends, if it does. The result is the returned value and the instant of the return.
  A timer with a negative duration fires at once. The \<^verbatim>\<open>select\<close> takes whatever is ready first; \<open>tie\<close> is its choice when the entry is
  closed at the very deadline.
\<close>

definition Wait :: "bool \<Rightarrow> instant option \<Rightarrow> hold_event list \<Rightarrow> instant \<Rightarrow> string \<Rightarrow> hold_manager \<Rightarrow> bool \<times> instant" where
  "Wait tie ctx_done evs now routingKey h =
     (case map_of (hm_holds h) routingKey of
        None \<Rightarrow> (False, now)
      | Some entry \<Rightarrow>
          let timer = now + max 0 (hm_timeout h);
              deadline = (case ctx_done of None \<Rightarrow> timer | Some c \<Rightarrow> min timer (max now c))
          in case closed_at entry evs h of
               Some t \<Rightarrow> if t < deadline \<or> t = deadline \<and> tie then (True, t) else (False, deadline)
             | None \<Rightarrow> (False, deadline))"

section \<open>Invariant\<close>

definition hold_wf :: "hold_manager \<Rightarrow> bool" where
  "hold_wf h \<longleftrightarrow> wf_map (hm_holds h) \<and>
     (\<forall>k e. map_of (hm_holds h) k = Some e \<longrightarrow> e < hm_next h \<and> e \<notin> set (hm_closed h)) \<and>
     (\<forall>k k' e. map_of (hm_holds h) k = Some e \<longrightarrow> map_of (hm_holds h) k' = Some e \<longrightarrow> k = k') \<and>
     (\<forall>e \<in> set (hm_closed h). e < hm_next h)"

abbreviation held :: "hold_manager \<Rightarrow> string \<Rightarrow> bool" where
  "held h k \<equiv> map_of (hm_holds h) k \<noteq> None"

lemma hold_wf_New: "hold_wf (NewHoldManager timeout)"
  by (simp add: hold_wf_def NewHoldManager_def)

lemma hold_wf_mark_key [wf_intros]: "hold_wf h \<Longrightarrow> hold_wf (mark_key k h)"
  by (fastforce simp: hold_wf_def mark_key_def gomap_simps split: option.split)

lemma hold_wf_clear_key [wf_intros]: "hold_wf h \<Longrightarrow> hold_wf (clear_key k h)"
  by (fastforce simp: hold_wf_def clear_key_def holdEntry_close_def gomap_simps split: option.split)

lemma hold_wf_Mark [wf_intros]: "hold_wf h \<Longrightarrow> hold_wf (MarkTransition ks h)"
  unfolding MarkTransition_def by (induction ks arbitrary: h) (simp_all add: wf_intros)

lemma hold_wf_Clear [wf_intros]: "hold_wf h \<Longrightarrow> hold_wf (ClearTransition ks h)"
  unfolding ClearTransition_def by (induction ks arbitrary: h) (simp_all add: wf_intros)

lemma hold_wf_step [wf_intros]: "hold_wf h \<Longrightarrow> hold_wf (hold_step ev h)"
  by (cases ev) (simp_all add: wf_intros)

text \<open>Marking leaves a held key's entry and every closed channel as they are.\<close>

lemma mark_key_keeps:
  "map_of (hm_holds h) k = Some e \<Longrightarrow> map_of (hm_holds (mark_key k' h)) k = Some e"
  "hm_closed (mark_key k' h) = hm_closed h"
  by (auto simp: mark_key_def gomap_simps split: option.split)

lemma mark_keeps:
  "map_of (hm_holds h) k = Some e \<Longrightarrow> map_of (hm_holds (MarkTransition ks h)) k = Some e"
  "hm_closed (MarkTransition ks h) = hm_closed h"
  unfolding MarkTransition_def by (induction ks arbitrary: h) (simp_all add: mark_key_keeps)

lemma mark_holds: "held (MarkTransition ks h) k \<longleftrightarrow> held h k \<or> k \<in> set ks"
  unfolding MarkTransition_def
  by (induction ks arbitrary: h) (auto simp: mark_key_def gomap_simps split: option.splits)

lemma clear_key_other:
  "k' \<noteq> k \<Longrightarrow> map_of (hm_holds (clear_key k h)) k' = map_of (hm_holds h) k'"
  by (simp add: clear_key_def gomap_simps split: option.split)

lemma clear_other:
  "k \<notin> set ks \<Longrightarrow> map_of (hm_holds (ClearTransition ks h)) k = map_of (hm_holds h) k"
  unfolding ClearTransition_def by (induction ks arbitrary: h) (simp_all add: clear_key_other)

lemma clear_closed_mono: "set (hm_closed h) \<subseteq> set (hm_closed (ClearTransition ks h))"
proof -
  have "set (hm_closed h) \<subseteq> set (hm_closed (clear_key k h))" for k h
    by (auto simp: clear_key_def holdEntry_close_def split: option.split)
  then show ?thesis
    unfolding ClearTransition_def by (induction ks arbitrary: h) (simp, force)
qed

lemma clear_closes:
  assumes "map_of (hm_holds h) k = Some e" and "k \<in> set ks"
  shows "e \<in> set (hm_closed (ClearTransition ks h))"
  using assms
proof (induction ks arbitrary: h)
  case (Cons k' ks)
  show ?case
  proof (cases "k' = k")
    case True
    with Cons.prems have "e \<in> set (hm_closed (clear_key k' h))"
      by (auto simp: clear_key_def holdEntry_close_def)
    then show ?thesis
      using clear_closed_mono [of "clear_key k' h" ks] by (auto simp: ClearTransition_def)
  next
    case False
    with Cons show ?thesis by (simp add: ClearTransition_def clear_key_other)
  qed
qed simp

lemma clear_keeps_open:
  assumes "hold_wf h" and "map_of (hm_holds h) k = Some e" and "k \<notin> set ks"
  shows "e \<notin> set (hm_closed (ClearTransition ks h))"
  using hold_wf_Clear [OF assms(1), of ks] clear_other [OF assms(3), of h] assms(2) by (auto simp: hold_wf_def)

text \<open>The instant at which the first event clears \<open>k\<close>.\<close>

fun first_clear :: "string \<Rightarrow> hold_event list \<Rightarrow> instant option" where
  "first_clear k [] = None"
| "first_clear k (Mark _ _ # evs) = first_clear k evs"
| "first_clear k (Clear t ks # evs) = (if k \<in> set ks then Some t else first_clear k evs)"

lemma closed_at_first_clear:
  assumes "hold_wf h" and "map_of (hm_holds h) k = Some e"
  shows "closed_at e evs h = first_clear k evs"
  using assms
proof (induction k evs arbitrary: h rule: first_clear.induct)
  case (2 k t ks evs)
  then have "e \<notin> set (hm_closed h)" by (auto simp: hold_wf_def)
  with 2 show ?case by (simp add: mark_keeps hold_wf_Mark)
next
  case (3 k t ks evs)
  then show ?case
    by (auto simp: clear_closes clear_keeps_open clear_other hold_wf_Clear)
qed simp

text \<open>
  C12: A held request is released by the end of its own transition and by nothing else.
  Whatever drains and rebalances mark and clear meanwhile, a request that finds its key in
  transition returns \<open>true\<close> at the first \<^verbatim>\<open>ClearTransition\<close> that names the key, provided
  that comes before the request's deadline (the hold timeout or the end of its context);
  otherwise it returns \<open>false\<close> exactly at the deadline. A request whose key is not in
  transition is not delayed. The state is any that \<^verbatim>\<open>MarkTransition\<close> and \<^verbatim>\<open>ClearTransition\<close> calls produce.
\<close>

theorem hold_released_by_own_transition:
  fixes timeout :: duration
  defines "h past \<equiv> fold hold_step past (NewHoldManager timeout)"
  defines "deadline now c \<equiv> (case c of None \<Rightarrow> now + max 0 timeout | Some t \<Rightarrow> min (now + max 0 timeout) (max now t))"
  shows "Wait tie c evs now k (h past) =
    (if \<not> held (h past) k then (False, now)
     else case first_clear k evs of
       Some t \<Rightarrow> if t < deadline now c \<or> t = deadline now c \<and> tie then (True, t) else (False, deadline now c)
     | None \<Rightarrow> (False, deadline now c))"
proof -
  have wf: "hold_wf h \<Longrightarrow> hold_wf (fold hold_step past h)" for h
    by (induction past arbitrary: h) (simp_all add: wf_intros)
  have "hm_timeout (mark_key k h) = hm_timeout h" "hm_timeout (clear_key k h) = hm_timeout h" for k h
    by (simp_all add: mark_key_def clear_key_def holdEntry_close_def split: option.split)
  then have "hm_timeout (fold mark_key ks h) = hm_timeout h" "hm_timeout (fold clear_key ks h) = hm_timeout h" for ks h
    by (induction ks arbitrary: h) simp_all
  then have "hm_timeout (hold_step ev h) = hm_timeout h" for ev h
    by (cases ev) (simp_all add: MarkTransition_def ClearTransition_def)
  then have "hm_timeout (fold hold_step past h) = hm_timeout h" for h
    by (induction past arbitrary: h) simp_all
  then have to: "hm_timeout (h past) = timeout" by (simp add: h_def NewHoldManager_def)
  show ?thesis
  proof (cases "map_of (hm_holds (h past)) k")
    case (Some e)
    have "hold_wf (h past)" using wf [OF hold_wf_New] by (simp add: h_def)
    from closed_at_first_clear [OF this Some, of evs] Some to show ?thesis
      by (simp add: Wait_def deadline_def Let_def split: option.split)
  qed (simp add: Wait_def)
qed

end
