(* ===== verification/Conn_Tracker.thy ===== *)
theory Conn_Tracker
  imports Go_Prelude
begin

text \<open>
  The registry of WebSocket bridges by routing key (conn_tracker.go). A bridge is the
  pointer the code stores, a number here. \<^verbatim>\<open>CloseConns\<close> and \<^verbatim>\<open>SwapConns\<close> call the bridges
  after releasing the mutex; the model returns the bridges that are called.
\<close>

type_synonym bridge_id = nat

record conn_tracker =
  ct_conns :: "(string, bridge_id list) gomap"

definition NewConnTracker :: conn_tracker where
  "NewConnTracker = \<lparr>ct_conns = []\<rparr>"

definition bridges_of :: "conn_tracker \<Rightarrow> string \<Rightarrow> bridge_id list" where
  "bridges_of ct k = (case map_of (ct_conns ct) k of None \<Rightarrow> [] | Some bs \<Rightarrow> bs)"

definition ConnTracker_Add :: "string \<Rightarrow> bridge_id \<Rightarrow> conn_tracker \<Rightarrow> conn_tracker" where
  "ConnTracker_Add routingKey bridge ct =
     ct\<lparr>ct_conns := put routingKey (List.insert bridge (bridges_of ct routingKey)) (ct_conns ct)\<rparr>"

definition ConnTracker_Remove :: "string \<Rightarrow> bridge_id \<Rightarrow> conn_tracker \<Rightarrow> conn_tracker" where
  "ConnTracker_Remove routingKey bridge ct =
     (case map_of (ct_conns ct) routingKey of
        None \<Rightarrow> ct
      | Some s \<Rightarrow>
          let s = removeAll bridge s
          in if s = [] then ct\<lparr>ct_conns := del routingKey (ct_conns ct)\<rparr>
             else ct\<lparr>ct_conns := put routingKey s (ct_conns ct)\<rparr>)"

definition CloseConns :: "string \<Rightarrow> conn_tracker \<Rightarrow> bridge_id list \<times> conn_tracker" where
  "CloseConns routingKey ct =
     (bridges_of ct routingKey, ct\<lparr>ct_conns := del routingKey (ct_conns ct)\<rparr>)"

definition SwapConns :: "string \<Rightarrow> string \<Rightarrow> conn_tracker \<Rightarrow> (bridge_id \<times> string) list" where
  "SwapConns routingKey newBackend ct = map (\<lambda>b. (b, newBackend)) (bridges_of ct routingKey)"

definition ConnTracker_Count :: "string \<Rightarrow> conn_tracker \<Rightarrow> nat" where
  "ConnTracker_Count routingKey ct = length (bridges_of ct routingKey)"

section \<open>Refinement to a set of registrations\<close>

definition registered :: "conn_tracker \<Rightarrow> (string \<times> bridge_id) set" where
  "registered ct = {(k, b). b \<in> set (bridges_of ct k)}"

text \<open>No key is kept without a bridge, and no bridge is listed twice under a key.\<close>

definition ct_wf :: "conn_tracker \<Rightarrow> bool" where
  "ct_wf ct \<longleftrightarrow> wf_map (ct_conns ct) \<and>
     (\<forall>k bs. map_of (ct_conns ct) k = Some bs \<longrightarrow> bs \<noteq> [] \<and> distinct bs)"

lemma ct_wf_ops [wf_intros]:
  "ct_wf NewConnTracker"
  "ct_wf ct \<Longrightarrow> ct_wf (ConnTracker_Add k b ct)"
  "ct_wf ct \<Longrightarrow> ct_wf (ConnTracker_Remove k b ct)"
  "ct_wf ct \<Longrightarrow> ct_wf (snd (CloseConns k ct))"
  by (auto simp: ct_wf_def NewConnTracker_def ConnTracker_Add_def ConnTracker_Remove_def CloseConns_def
      bridges_of_def gomap_simps Let_def List.insert_def distinct_removeAll split: option.split)

lemma removeAll_empty: "removeAll x xs = [] \<longleftrightarrow> set xs \<subseteq> {x}"
  by (metis Diff_eq_empty_iff set_empty2 set_removeAll)

lemma registered_New [simp]: "registered NewConnTracker = {}"
  by (simp add: registered_def NewConnTracker_def bridges_of_def)

lemma registered_Add [simp]: "registered (ConnTracker_Add k b ct) = insert (k, b) (registered ct)"
  by (auto simp: registered_def ConnTracker_Add_def bridges_of_def gomap_simps split: if_splits option.splits)

lemma registered_Remove [simp]: "registered (ConnTracker_Remove k b ct) = registered ct - {(k, b)}"
  by (auto simp: registered_def ConnTracker_Remove_def bridges_of_def gomap_simps Let_def removeAll_empty
      split: if_splits option.splits)

lemma registered_Close [simp]: "registered (snd (CloseConns k ct)) = {p \<in> registered ct. fst p \<noteq> k}"
  by (auto simp: registered_def CloseConns_def bridges_of_def gomap_simps split: if_splits option.splits)

section \<open>Histories\<close>

datatype conn_event = Opened string bridge_id | Ended string bridge_id | Closing string

fun conn_step :: "conn_event \<Rightarrow> conn_tracker \<Rightarrow> conn_tracker" where
  "conn_step (Opened k b) ct = ConnTracker_Add k b ct"
| "conn_step (Ended k b) ct = ConnTracker_Remove k b ct"
| "conn_step (Closing k) ct = snd (CloseConns k ct)"

fun reg_step :: "conn_event \<Rightarrow> (string \<times> bridge_id) set \<Rightarrow> (string \<times> bridge_id) set" where
  "reg_step (Opened k b) S = insert (k, b) S"
| "reg_step (Ended k b) S = S - {(k, b)}"
| "reg_step (Closing k) S = {p \<in> S. fst p \<noteq> k}"

lemma ct_wf_history: "ct_wf (fold conn_step evs NewConnTracker)"
proof -
  have "ct_wf ct \<Longrightarrow> ct_wf (fold conn_step evs ct)" for ct
  proof (induction evs arbitrary: ct)
    case (Cons ev evs)
    then show ?case by (cases ev) (simp_all add: wf_intros)
  qed simp
  then show ?thesis by (simp add: wf_intros)
qed

lemma registered_history: "registered (fold conn_step evs ct) = fold reg_step evs (registered ct)"
proof (induction evs arbitrary: ct)
  case (Cons ev evs)
  then show ?case by (cases ev) simp_all
qed simp

text \<open>
  The tracker is the set of open bridges. After any history of connects, disconnects
  and closings, the bridges a close or a swap of a key reaches are exactly those that were
  registered for the key since and not removed, each of them once; the count is their
  number; and the map holds an entry for exactly the keys that have one.
\<close>

theorem tracker_refines_set:
  fixes k :: string
  defines "ct evs \<equiv> fold conn_step evs NewConnTracker"
  defines "open_bridges evs \<equiv> {b. (k, b) \<in> fold reg_step evs {}}"
  shows "set (fst (CloseConns k (ct evs))) = open_bridges evs \<and> distinct (fst (CloseConns k (ct evs))) \<and>
    map fst (SwapConns k newBackend (ct evs)) = fst (CloseConns k (ct evs)) \<and>
    ConnTracker_Count k (ct evs) = card (open_bridges evs) \<and>
    (k \<in> set (keys (ct_conns (ct evs))) \<longleftrightarrow> open_bridges evs \<noteq> {})"
proof -
  have b: "open_bridges evs = set (bridges_of (ct evs) k)"
    using registered_history [of evs NewConnTracker, symmetric]
    by (simp add: open_bridges_def ct_def) (simp add: registered_def)
  have wf: "ct_wf (ct evs)" by (simp add: ct_def ct_wf_history)
  then have d: "distinct (bridges_of (ct evs) k)"
    by (auto simp: ct_wf_def bridges_of_def split: option.split)
  have "k \<in> set (keys (ct_conns (ct evs))) \<longleftrightarrow> map_of (ct_conns (ct evs)) k \<noteq> None"
    by (simp add: map_of_eq_None_iff)
  then have "k \<in> set (keys (ct_conns (ct evs))) \<longleftrightarrow> bridges_of (ct evs) k \<noteq> []"
    using wf by (cases "map_of (ct_conns (ct evs)) k") (simp_all add: ct_wf_def bridges_of_def)
  with b d show ?thesis
    by (simp add: CloseConns_def SwapConns_def ConnTracker_Count_def distinct_card comp_def)
qed

end
