(* ===== verification/Hook_Client.thy ===== *)
theory Hook_Client
  imports Go_Prelude
begin

text \<open>
  The webhook client (hooks.go). An environment gives, for each attempt of the retry loop,
  what stops or answers it: the context has ended, the request cannot be built, the HTTP
  client reports an error, or the backend answers with a status. The payload is a list of
  strings, whose JSON encoding cannot fail. The counters are the ones metrics.go exports.
\<close>

datatype hook_attempt =
    ContextEnded
  | BadRequest
  | ClientError
  | Status nat

datatype hook_error = CtxErr | RequestErr | DoErr | StatusErr nat

record hook_client =
  hc_retries :: int

record hook_counters =
  hookAssigns :: nat
  hookUnassigns :: nat
  hookFailures :: nat

definition NewHookClient :: "int \<Rightarrow> hook_client" where
  "NewHookClient retries = \<lparr>hc_retries = retries\<rparr>"

text \<open>
  The retry loop, with \<open>n\<close> attempts left, the next of them numbered \<open>i\<close>. The result is the
  returned error and the number of requests that reached \<^verbatim>\<open>client.Do\<close>.
\<close>

fun send_loop :: "(nat \<Rightarrow> hook_attempt) \<Rightarrow> nat \<Rightarrow> nat \<Rightarrow> hook_error option \<Rightarrow> hook_error option \<times> nat" where
  "send_loop env i 0 lastErr = (lastErr, 0)"
| "send_loop env i (Suc n) lastErr =
     (case env i of
        ContextEnded \<Rightarrow> (Some CtxErr, 0)
      | BadRequest \<Rightarrow> (Some RequestErr, 0)
      | ClientError \<Rightarrow> map_prod id Suc (send_loop env (Suc i) n (Some DoErr))
      | Status s \<Rightarrow>
          if 200 \<le> s \<and> s < 300 then (None, 1)
          else map_prod id Suc (send_loop env (Suc i) n (Some (StatusErr s))))"

definition hook_send :: "(nat \<Rightarrow> hook_attempt) \<Rightarrow> hook_client \<Rightarrow> hook_error option \<times> nat" where
  "hook_send env h = send_loop env 0 (nat (hc_retries h + 1)) None"

definition SendAssign :: "(nat \<Rightarrow> hook_attempt) \<Rightarrow> hook_client \<Rightarrow> hook_counters \<Rightarrow> hook_counters" where
  "SendAssign env h c =
     (case fst (hook_send env h) of
        Some _ \<Rightarrow> c\<lparr>hookFailures := hookFailures c + 1\<rparr>
      | None \<Rightarrow> c\<lparr>hookAssigns := hookAssigns c + 1\<rparr>)"

definition SendUnassign :: "(nat \<Rightarrow> hook_attempt) \<Rightarrow> hook_client \<Rightarrow> hook_counters \<Rightarrow> hook_counters" where
  "SendUnassign env h c =
     (case fst (hook_send env h) of
        Some _ \<Rightarrow> c\<lparr>hookFailures := hookFailures c + 1\<rparr>
      | None \<Rightarrow> c\<lparr>hookUnassigns := hookUnassigns c + 1\<rparr>)"

section \<open>Retries\<close>

definition accepted :: "hook_attempt \<Rightarrow> bool" where
  "accepted a \<longleftrightarrow> (\<exists>s. a = Status s \<and> 200 \<le> s \<and> s < 300)"

definition retried :: "hook_attempt \<Rightarrow> bool" where
  "retried a \<longleftrightarrow> a = ClientError \<or> (\<exists>s. a = Status s \<and> \<not> (200 \<le> s \<and> s < 300))"

lemma send_loop_accepted:
  assumes "k < n" and "accepted (env (i + k))" and "\<forall>j < k. retried (env (i + j))"
  shows "send_loop env i n e = (None, Suc k)"
  using assms
proof (induction n arbitrary: i k e)
  case (Suc n)
  show ?case
  proof (cases k)
    case 0
    then show ?thesis using Suc.prems by (auto simp: accepted_def)
  next
    case (Suc k')
    have "retried (env i)" using Suc.prems(3) Suc by auto
    moreover have "\<forall>j < k'. retried (env (Suc i + j))"
      using Suc.prems(3) Suc by (metis Suc_less_eq add_Suc_shift)
    ultimately show ?thesis
      using Suc.IH [of k' "Suc i"] Suc.prems Suc by (auto simp: retried_def)
  qed
qed simp

lemma send_loop_failed:
  "e \<noteq> None \<or> 0 < n \<Longrightarrow> \<forall>k < n. \<not> (accepted (env (i + k)) \<and> (\<forall>j < k. retried (env (i + j)))) \<Longrightarrow>
     fst (send_loop env i n e) \<noteq> None"
proof (induction n arbitrary: i e)
  case (Suc n)
  have rest: "\<forall>k < n. \<not> (accepted (env (Suc i + k)) \<and> (\<forall>j < k. retried (env (Suc i + j))))" if "retried (env i)"
  proof (intro allI impI notI)
    fix k assume k: "k < n" and a: "accepted (env (Suc i + k)) \<and> (\<forall>j < k. retried (env (Suc i + j)))"
    have "\<forall>j < Suc k. retried (env (i + j))" using a that by (auto simp: less_Suc_eq_0_disj)
    with Suc.prems(2) k a show False by (metis Suc_less_eq add_Suc_shift)
  qed
  have "\<not> accepted (env i)" using Suc.prems(2) by force
  then show ?case
    using Suc.IH [of _ "Suc i"] rest by (cases "env i") (auto simp: accepted_def retried_def)
qed simp

lemma send_loop_count: "snd (send_loop env i n e) \<le> n"
  by (induction n arbitrary: i e) (auto split: hook_attempt.split)

text \<open>
  With a non-negative retry count the hook is reported as delivered if and only if
  some attempt within the first \<open>retries + 1\<close> was answered 2xx and every earlier one was
  retryable (a client error or another status; the end of the context or an unusable
  URL stops the loop), and the backend is called at most \<open>retries + 1\<close> times.
\<close>

theorem hook_delivery:
  assumes "0 \<le> retries"
  shows "(fst (hook_send env (NewHookClient retries)) = None \<longleftrightarrow>
      (\<exists>k. int k \<le> retries \<and> accepted (env k) \<and> (\<forall>j < k. retried (env j)))) \<and>
    int (snd (hook_send env (NewHookClient retries))) \<le> retries + 1"
proof -
  let ?n = "nat (retries + 1)"
  have n: "int k \<le> retries \<longleftrightarrow> k < ?n" for k using assms by linarith
  have "(fst (send_loop env 0 ?n None) = None) \<longleftrightarrow>
      (\<exists>k < ?n. accepted (env k) \<and> (\<forall>j < k. retried (env j)))"
    using send_loop_accepted [of _ ?n env 0 None] send_loop_failed [of None ?n env 0] assms by fastforce
  moreover have "int (snd (send_loop env 0 ?n None)) \<le> retries + 1"
    using send_loop_count [of env 0 ?n None] assms by linarith
  ultimately show ?thesis by (simp add: hook_send_def NewHookClient_def n)
qed

theorem hook_delivery_witness:
  "fst (hook_send (\<lambda>i. if i = 0 then ClientError else Status 204) (NewHookClient 2)) = None"
proof -
  have "\<exists>k. int k \<le> 2 \<and> accepted (if k = 0 then ClientError else Status 204) \<and>
      (\<forall>j < k. retried (if j = 0 then ClientError else Status 204))"
    by (rule exI [of _ 1]) (simp add: accepted_def retried_def)
  then show ?thesis
    using hook_delivery [of 2 "\<lambda>i. if i = 0 then ClientError else Status 204"] by simp
qed

text \<open>
  With a negative retry count no request is made at all, and the hook still counts as
  delivered.
\<close>

lemma negative_retries_report_success:
  assumes "retries < 0"
  shows "hook_send env (NewHookClient retries) = (None, 0)"
    and "hookAssigns (SendAssign env (NewHookClient retries) c) = hookAssigns c + 1"
  using assms by (simp_all add: hook_send_def NewHookClient_def SendAssign_def)

end
