(* ===== verification/Store_Interface.thy ===== *)
theory Store_Interface
  imports Assignments
begin

text \<open>
  The \<^verbatim>\<open>Store\<close> interface (store.go): a value of the interface is a record of its methods over
  the store's state. A method that returns \<^verbatim>\<open>(T, error)\<close> answers a sum, a method that
  returns \<^verbatim>\<open>error\<close> an option; \<^verbatim>\<open>BulkAssign\<close> can return both a map and an error. Listing
  the users of a backend is a loop whose end depends on the store's answers, so it has the
  additional result \<^const>\<open>None\<close> for a call that does not return. The two locales
  are the contract that the drain manager, the rebalancer, the discovery loops and the
  proxy rely on; \<open>inv\<close> is what a store needs in order to honour it.
\<close>

datatype store_error = ErrNotSupported | ErrNil | ErrDecode | ErrUnavailable

type_synonym bulk_entries = "(string, bulk_assign_entry) gomap"

record 's store_ops =
  AssignLeastLoaded :: "instant \<Rightarrow> string \<Rightarrow> 's \<Rightarrow> (store_error + assignment) \<times> 's"
  GetAssignment :: "string \<Rightarrow> 's \<Rightarrow> (store_error + assignment) \<times> 's"
  GetAllAssignments :: "'s \<Rightarrow> (store_error + table) \<times> 's"
  GetBackendUsers :: "string \<Rightarrow> 's \<Rightarrow> ((store_error + string list) \<times> 's) option"
  BulkAssign :: "instant \<Rightarrow> bulk_entries \<Rightarrow> 's \<Rightarrow> ((string, string) gomap \<times> store_error option) \<times> 's"
  BulkDeleteAssignments :: "string list \<Rightarrow> 's \<Rightarrow> store_error option \<times> 's"
  ActiveBackends :: "'s \<Rightarrow> (store_error + string list) \<times> 's"
  AddBackend :: "string \<Rightarrow> 's \<Rightarrow> store_error option \<times> 's"
  RemoveBackend :: "string \<Rightarrow> 's \<Rightarrow> store_error option \<times> 's"
  Ping :: "'s \<Rightarrow> store_error option \<times> 's"

text \<open>The registry of active backends.\<close>

locale backend_registry =
  fixes st :: "'s store_ops" and inv :: "'s \<Rightarrow> bool" and act :: "'s \<Rightarrow> string set"
  assumes active_law:
      "inv s \<Longrightarrow> ActiveBackends st s = (Inr bs, s') \<Longrightarrow> set bs = act s \<and> distinct bs \<and> inv s' \<and> act s' = act s"
    and add_law: "inv s \<Longrightarrow> AddBackend st b s = (None, s') \<Longrightarrow> inv s' \<and> act s' = insert b (act s)"
    and remove_law: "inv s \<Longrightarrow> RemoveBackend st b s = (None, s') \<Longrightarrow> inv s' \<and> act s' = act s - {b}"
begin

lemma add_then_active:
  assumes "inv s" and "AddBackend st b s = (None, s1)" and "ActiveBackends st s1 = (Inr bs, s2)"
  shows "set bs = insert b (act s)"
  using assms add_law active_law by metis

lemma remove_then_active:
  assumes "inv s" and "RemoveBackend st b s = (None, s1)" and "ActiveBackends st s1 = (Inr bs, s2)"
  shows "set bs = act s - {b}"
  using assms remove_law active_law by metis

end

text \<open>The table of assignments: \<open>tab\<close> is the assignment of each routing key.\<close>

locale assignment_store = backend_registry st inv act
  for st :: "'s store_ops" and inv act +
  fixes tab :: "'s \<Rightarrow> string \<rightharpoonup> assignment"
  assumes registry_frame:
      "inv s \<Longrightarrow> AddBackend st b s = (r, s') \<Longrightarrow> tab s' = tab s"
      "inv s \<Longrightarrow> RemoveBackend st b s = (r, s') \<Longrightarrow> tab s' = tab s"
      "inv s \<Longrightarrow> ActiveBackends st s = (q, s') \<Longrightarrow> tab s' = tab s"
    and assign_law: "inv s \<Longrightarrow> AssignLeastLoaded st now k s = (Inr a, s') \<Longrightarrow>
      inv s' \<and> act s' = act s \<and> tab s' = (tab s)(k \<mapsto> a) \<and> (Backend a \<in> act s \<or> tab s k = Some a)"
    and assign_sticky: "inv s \<Longrightarrow> tab s k = Some a \<Longrightarrow> Backend a \<in> act s \<Longrightarrow>
      AssignLeastLoaded st now k s = (Inr a', s') \<Longrightarrow> a' = a"
    and all_law: "inv s \<Longrightarrow> GetAllAssignments st s = (Inr asg, s') \<Longrightarrow>
      wf_map asg \<and> map_of asg = tab s \<and> inv s' \<and> act s' = act s \<and> tab s' = tab s"
    and users_law: "inv s \<Longrightarrow> GetBackendUsers st b s = Some (Inr us, s') \<Longrightarrow>
      set us = {k. \<exists>a. tab s k = Some a \<and> Backend a = b} \<and> inv s' \<and> act s' = act s \<and> tab s' = tab s"
    and bulk_assign_law: "inv s \<Longrightarrow> wf_map es \<Longrightarrow> BulkAssign st now es s = ((m, None), s') \<Longrightarrow>
      inv s' \<and> act s' = act s \<and>
      (\<forall>k. tab s' k = (case tab s k of Some a \<Rightarrow> Some a | None \<Rightarrow>
         map_option (\<lambda>e. new_assignment now (EntryBackend e) (norm_weight (EntryWeight e))) (map_of es k))) \<and>
      (\<forall>k. map_of m k = (if tab s k = None then map_option EntryBackend (map_of es k) else None))"
    and bulk_delete_law: "inv s \<Longrightarrow> BulkDeleteAssignments st ks s = (None, s') \<Longrightarrow>
      inv s' \<and> act s' = act s \<and> tab s' = tab s |` (- set ks)"
begin

text \<open>Draining the table of a backend: list its users, delete them.\<close>

lemma users_then_delete:
  assumes "inv s" and "GetBackendUsers st b s = Some (Inr us, s1)" and "BulkDeleteAssignments st us s1 = (None, s2)"
  shows "inv s2 \<and> act s2 = act s \<and>
    (\<forall>k. tab s2 k = (case tab s k of None \<Rightarrow> None | Some a \<Rightarrow> if Backend a = b then None else Some a))"
proof -
  note u = users_law [OF assms(1, 2)]
  with bulk_delete_law [OF _ assms(3)] show ?thesis
    by (auto simp: restrict_map_def split: option.split)
qed

text \<open>Deleting keys and assigning them again leaves every other key alone.\<close>

lemma delete_then_assign:
  assumes "inv s" and "BulkDeleteAssignments st ks s = (None, s1)"
    and "wf_map es" and "set (keys es) \<subseteq> set ks" and "BulkAssign st now es s1 = ((m, None), s2)"
  shows "inv s2 \<and> act s2 = act s \<and> map_of m = map_option EntryBackend \<circ> map_of es \<and>
    (\<forall>k. tab s2 k = (if k \<in> set ks
       then map_option (\<lambda>e. new_assignment now (EntryBackend e) (norm_weight (EntryWeight e))) (map_of es k)
       else tab s k))"
proof -
  note d = bulk_delete_law [OF assms(1, 2)]
  have out: "map_of es k = None" if "k \<notin> set ks" for k
    using that assms(4) by (auto simp: map_of_eq_None_iff)
  from d bulk_assign_law [OF _ assms(3, 5)] show ?thesis
    by (auto simp: restrict_map_def out split: option.splits)
qed

end

end
