(* ===== verification/Memory_Store.thy ===== *)
theory Memory_Store
  imports Store_Interface
begin

text \<open>
  The in-memory store of hash mode (store_memory.go): a registry of backends with a
  pre-sorted copy; the assignment methods answer \<^verbatim>\<open>errNotSupported\<close>. The set
  \<^verbatim>\<open>backends\<close> is a list without duplicates, in the order in which \<^verbatim>\<open>range\<close> visits it.
\<close>

record memory_store =
  ms_backends :: "string list"
  ms_sorted :: "string list"

definition NewMemoryStore :: memory_store where
  "NewMemoryStore = \<lparr>ms_backends = [], ms_sorted = []\<rparr>"

definition rebuildSorted :: "memory_store \<Rightarrow> memory_store" where
  "rebuildSorted s = s\<lparr>ms_sorted := sort (ms_backends s)\<rparr>"

definition Memory_ActiveBackends :: "memory_store \<Rightarrow> (store_error + string list) \<times> memory_store" where
  "Memory_ActiveBackends s = (Inr (ms_sorted s), s)"

definition Memory_AddBackend :: "string \<Rightarrow> memory_store \<Rightarrow> store_error option \<times> memory_store" where
  "Memory_AddBackend backend s =
     (if backend \<in> set (ms_backends s) then (None, s)
      else (None, rebuildSorted (s\<lparr>ms_backends := backend # ms_backends s\<rparr>)))"

definition Memory_RemoveBackend :: "string \<Rightarrow> memory_store \<Rightarrow> store_error option \<times> memory_store" where
  "Memory_RemoveBackend backend s =
     (None, rebuildSorted (s\<lparr>ms_backends := removeAll backend (ms_backends s)\<rparr>))"

definition memory_ops :: "memory_store store_ops" where
  "memory_ops =
     \<lparr>AssignLeastLoaded = (\<lambda>_ _ s. (Inl ErrNotSupported, s)),
      GetAssignment = (\<lambda>_ s. (Inl ErrNotSupported, s)),
      GetAllAssignments = (\<lambda>s. (Inl ErrNotSupported, s)),
      GetBackendUsers = (\<lambda>_ s. Some (Inl ErrNotSupported, s)),
      BulkAssign = (\<lambda>_ _ s. (([], Some ErrNotSupported), s)),
      BulkDeleteAssignments = (\<lambda>_ s. (Some ErrNotSupported, s)),
      ActiveBackends = Memory_ActiveBackends,
      AddBackend = Memory_AddBackend,
      RemoveBackend = Memory_RemoveBackend,
      Ping = (\<lambda>s. (None, s))\<rparr>"

definition mem_wf :: "memory_store \<Rightarrow> bool" where
  "mem_wf s \<longleftrightarrow> distinct (ms_backends s) \<and> ms_sorted s = sort (ms_backends s)"

lemmas memory_defs = memory_ops_def Memory_ActiveBackends_def Memory_AddBackend_def
  Memory_RemoveBackend_def rebuildSorted_def mem_wf_def

lemma mem_sorted: "mem_wf s \<Longrightarrow> set (ms_sorted s) = set (ms_backends s) \<and> distinct (ms_sorted s)"
  by (simp add: mem_wf_def)

interpretation mstore: assignment_store memory_ops mem_wf "\<lambda>s. set (ms_backends s)" "\<lambda>_. Map.empty"
proof unfold_locales
  show "mem_wf s \<Longrightarrow> ActiveBackends memory_ops s = (Inr bs, s') \<Longrightarrow>
      set bs = set (ms_backends s) \<and> distinct bs \<and> mem_wf s' \<and> set (ms_backends s') = set (ms_backends s)" for s bs s'
    using mem_sorted [of s] by (auto simp: memory_ops_def Memory_ActiveBackends_def)
qed (auto simp: memory_defs distinct_removeAll split: if_splits)

datatype registry_event = Added string | Removed string

fun mem_step :: "registry_event \<Rightarrow> memory_store \<Rightarrow> memory_store" where
  "mem_step (Added b) s = snd (AddBackend memory_ops b s)"
| "mem_step (Removed b) s = snd (RemoveBackend memory_ops b s)"

fun set_step :: "registry_event \<Rightarrow> string set \<Rightarrow> string set" where
  "set_step (Added b) S = insert b S"
| "set_step (Removed b) S = S - {b}"

lemma mem_history:
  "mem_wf s \<Longrightarrow> mem_wf (fold mem_step evs s) \<and>
     set (ms_backends (fold mem_step evs s)) = fold set_step evs (set (ms_backends s))"
proof (induction evs arbitrary: s)
  case (Cons ev evs)
  have "mem_wf (mem_step ev s) \<and> set (ms_backends (mem_step ev s)) = set_step ev (set (ms_backends s))"
    using Cons.prems by (cases ev) (auto simp: memory_defs distinct_removeAll insert_absorb)
  with Cons.IH [of "mem_step ev s"] show ?case by simp
qed simp

text \<open>
  The memory store always answers its active backends sorted and without duplicates,
  and they are exactly the backends added and not removed since; it never fails on the
  registry operations.
\<close>

theorem memory_registry:
  "\<exists>bs. fst (ActiveBackends memory_ops (fold mem_step evs NewMemoryStore)) = Inr bs \<and>
     sorted bs \<and> distinct bs \<and> set bs = fold set_step evs {}"
proof -
  have "mem_wf NewMemoryStore" by (simp add: mem_wf_def NewMemoryStore_def)
  from mem_history [OF this, of evs] show ?thesis
    by (simp add: memory_ops_def Memory_ActiveBackends_def mem_wf_def NewMemoryStore_def)
qed

end
