(* ===== verification/Redis_Server.thy ===== *)
theory Redis_Server
  imports Store_Interface
begin

text \<open>
  What the code uses of Redis and of its client library. Redis is not part of the
  repository: the commands are a parameter, a record of functions over an unknown server
  state, and \<open>redis_documented\<close> collects what the command reference says about the
  commands that are used, as equations on what the read commands observe. Keys are used
  with one type each, so no command meets a value of the wrong type.
\<close>

record 's redis_server =
  HGET :: "string \<Rightarrow> string \<Rightarrow> 's \<Rightarrow> json_text option"
  HSET :: "string \<Rightarrow> string \<Rightarrow> json_text \<Rightarrow> 's \<Rightarrow> 's"
  HSETNX :: "string \<Rightarrow> string \<Rightarrow> json_text \<Rightarrow> 's \<Rightarrow> bool \<times> 's"
  HDEL :: "string \<Rightarrow> string list \<Rightarrow> 's \<Rightarrow> 's"
  HINCRBY :: "string \<Rightarrow> string \<Rightarrow> int \<Rightarrow> 's \<Rightarrow> 's"
  HGETALL :: "string \<Rightarrow> 's \<Rightarrow> (string, json_text) gomap"
  HSCAN :: "string \<Rightarrow> nat \<Rightarrow> 's \<Rightarrow> (string \<times> json_text) list \<times> nat"
  DEL :: "string \<Rightarrow> 's \<Rightarrow> 's"
  SMEMBERS :: "string \<Rightarrow> 's \<Rightarrow> string list"
  SISMEMBER :: "string \<Rightarrow> string \<Rightarrow> 's \<Rightarrow> bool"
  SADD :: "string \<Rightarrow> string \<Rightarrow> 's \<Rightarrow> 's"
  SREM :: "string \<Rightarrow> string \<Rightarrow> 's \<Rightarrow> 's"
  GET :: "string \<Rightarrow> 's \<Rightarrow> string option"
  SETNX_EX :: "string \<Rightarrow> string \<Rightarrow> int \<Rightarrow> 's \<Rightarrow> bool \<times> 's"
  SCAN_keys :: "string \<Rightarrow> nat \<Rightarrow> 's \<Rightarrow> string list \<times> nat"

section \<open>Observations\<close>

record redis_view =
  rv_hash :: "string \<Rightarrow> string \<rightharpoonup> json_text"
  rv_set :: "string \<Rightarrow> string set"
  rv_str :: "string \<rightharpoonup> string"

definition view :: "'s redis_server \<Rightarrow> 's \<Rightarrow> redis_view" where
  "view R s = \<lparr>rv_hash = (\<lambda>k f. HGET R k f s), rv_set = (\<lambda>k. set (SMEMBERS R k s)), rv_str = (\<lambda>k. GET R k s)\<rparr>"

definition with_field :: "string \<Rightarrow> string \<Rightarrow> json_text option \<Rightarrow> redis_view \<Rightarrow> redis_view" where
  "with_field k f x v = v\<lparr>rv_hash := (rv_hash v)(k := (rv_hash v k)(f := x))\<rparr>"

text \<open>
  One full iteration of \<^verbatim>\<open>HSCAN\<close> or \<^verbatim>\<open>SCAN\<close>: the pages from a cursor until the cursor 0
  comes back, if that happens within the given number of calls.
\<close>

fun scan_pages :: "(nat \<Rightarrow> 'a list \<times> nat) \<Rightarrow> nat \<Rightarrow> nat \<Rightarrow> 'a list option" where
  "scan_pages page 0 c = None"
| "scan_pages page (Suc n) c =
     (case page c of (xs, c') \<Rightarrow>
        if c' = 0 then Some xs else map_option (\<lambda>ys. xs @ ys) (scan_pages page n c'))"

section \<open>Documented behaviour\<close>

text \<open>
  The scan guarantee is the documented one for a collection that does not change during
  the iteration: the iteration ends, and it returns every element, possibly more than once.
\<close>

definition redis_documented :: "'s redis_server \<Rightarrow> bool" where
  "redis_documented R \<longleftrightarrow>
    (\<forall>s k f x. view R (HSET R k f x s) = with_field k f (Some x) (view R s)) \<and>
    (\<forall>s k f x. fst (HSETNX R k f x s) \<longleftrightarrow> HGET R k f s = None) \<and>
    (\<forall>s k f x. view R (snd (HSETNX R k f x s)) =
       (if HGET R k f s = None then with_field k f (Some x) (view R s) else view R s)) \<and>
    (\<forall>s k fs. view R (HDEL R k fs s) =
       (view R s)\<lparr>rv_hash := (rv_hash (view R s))(k := rv_hash (view R s) k |` (- set fs))\<rparr>) \<and>
    (\<forall>s k f i n. HGET R k f s = None \<and> n = 0 \<or> HGET R k f s = Some (Number n) \<longrightarrow>
       view R (HINCRBY R k f i s) = with_field k f (Some (Number (n + i))) (view R s)) \<and>
    (\<forall>s k. wf_map (HGETALL R k s) \<and> (\<forall>f. map_of (HGETALL R k s) f = HGET R k f s)) \<and>
    (\<forall>s k. \<exists>n xs. scan_pages (\<lambda>c. HSCAN R k c s) n 0 = Some xs \<and> set xs = set (HGETALL R k s)) \<and>
    (\<forall>s k. view R (DEL R k s) =
       (view R s)\<lparr>rv_hash := (rv_hash (view R s))(k := Map.empty),
                  rv_set := (rv_set (view R s))(k := {}), rv_str := (rv_str (view R s))(k := None)\<rparr>) \<and>
    (\<forall>s k. distinct (SMEMBERS R k s)) \<and>
    (\<forall>s k m. SISMEMBER R k m s \<longleftrightarrow> m \<in> set (SMEMBERS R k s)) \<and>
    (\<forall>s k m. view R (SADD R k m s) =
       (view R s)\<lparr>rv_set := (rv_set (view R s))(k := insert m (rv_set (view R s) k))\<rparr>) \<and>
    (\<forall>s k m. view R (SREM R k m s) =
       (view R s)\<lparr>rv_set := (rv_set (view R s))(k := rv_set (view R s) k - {m})\<rparr>) \<and>
    (\<forall>s k x ttl. fst (SETNX_EX R k x ttl s) \<longleftrightarrow> GET R k s = None) \<and>
    (\<forall>s k x ttl. view R (snd (SETNX_EX R k x ttl s)) =
       (if GET R k s = None then (view R s)\<lparr>rv_str := (rv_str (view R s))(k \<mapsto> x)\<rparr> else view R s)) \<and>
    (\<forall>s p. \<exists>n xs. scan_pages (\<lambda>c. SCAN_keys R p c s) n 0 = Some xs \<and>
       set xs = {k. GET R k s \<noteq> None \<and> (\<exists>u. k = p @ u)})"

text \<open>
  A call through the client: \<open>net\<close> says how often the request reaches the server, whether
  a reply reaches the client, and what else happened to the server before. The client
  library retries, so a command may run more than once; without a reply the caller gets an
  error. \<open>reliable\<close> is the undisturbed case: one execution, one reply, no interference.
\<close>

type_synonym 's network = "'s \<Rightarrow> nat \<times> bool \<times> 's"

definition call :: "'s network \<Rightarrow> ('s \<Rightarrow> 'a \<times> 's) \<Rightarrow> 's \<Rightarrow> 'a option \<times> 's" where
  "call net f s =
     (case net s of (n, reply, s1) \<Rightarrow>
        if n = 0 then (None, s1)
        else
          let s2 = ((\<lambda>s. snd (f s)) ^^ (n - 1)) s1; (a, s3) = f s2
          in (if reply then Some a else None, s3))"

definition reliable :: "'s network \<Rightarrow> bool" where
  "reliable net \<longleftrightarrow> (\<forall>s. net s = (1, True, s))"

lemma call_reliable [simp]: "reliable net \<Longrightarrow> call net f s = (Some (fst (f s)), snd (f s))"
  by (simp add: call_def reliable_def split_def Let_def)

text \<open>The commands of a pipeline run one after the other and their replies come back together.\<close>

fun pipeline :: "('s \<Rightarrow> 'a \<times> 's) list \<Rightarrow> 's \<Rightarrow> 'a list \<times> 's" where
  "pipeline [] s = ([], s)"
| "pipeline (c # cs) s = (let (a, s1) = c s; (rest, s2) = pipeline cs s1 in (a # rest, s2))"

section \<open>A concrete server\<close>

text \<open>
  The documented behaviour can be had: a server that keeps its hashes, sets and strings in
  lists, read through \<^const>\<open>AList.clearjunk\<close> and \<^const>\<open>remdups\<close>, and scans in one page.
\<close>

record plain_redis =
  pr_hash :: "string \<Rightarrow> (string, json_text) gomap"
  pr_set :: "string \<Rightarrow> string list"
  pr_str :: "(string, string) gomap"

definition plain_empty :: plain_redis where
  "plain_empty = \<lparr>pr_hash = (\<lambda>_. []), pr_set = (\<lambda>_. []), pr_str = []\<rparr>"

definition plain_server :: "plain_redis redis_server" where
  "plain_server =
     \<lparr>HGET = (\<lambda>k f s. map_of (pr_hash s k) f),
      HSET = (\<lambda>k f x s. s\<lparr>pr_hash := (pr_hash s)(k := put f x (pr_hash s k))\<rparr>),
      HSETNX = (\<lambda>k f x s. if map_of (pr_hash s k) f = None
         then (True, s\<lparr>pr_hash := (pr_hash s)(k := put f x (pr_hash s k))\<rparr>) else (False, s)),
      HDEL = (\<lambda>k fs s. s\<lparr>pr_hash := (pr_hash s)(k := fold del fs (pr_hash s k))\<rparr>),
      HINCRBY = (\<lambda>k f i s. s\<lparr>pr_hash := (pr_hash s)(k :=
         put f (Number (tonumber_or_0 (map_of (pr_hash s k) f) + i)) (pr_hash s k))\<rparr>),
      HGETALL = (\<lambda>k s. AList.clearjunk (pr_hash s k)),
      HSCAN = (\<lambda>k c s. (AList.clearjunk (pr_hash s k), 0)),
      DEL = (\<lambda>k s. s\<lparr>pr_hash := (pr_hash s)(k := []), pr_set := (pr_set s)(k := []), pr_str := del k (pr_str s)\<rparr>),
      SMEMBERS = (\<lambda>k s. remdups (pr_set s k)),
      SISMEMBER = (\<lambda>k m s. m \<in> set (pr_set s k)),
      SADD = (\<lambda>k m s. s\<lparr>pr_set := (pr_set s)(k := m # pr_set s k)\<rparr>),
      SREM = (\<lambda>k m s. s\<lparr>pr_set := (pr_set s)(k := removeAll m (pr_set s k))\<rparr>),
      GET = (\<lambda>k s. map_of (pr_str s) k),
      SETNX_EX = (\<lambda>k x ttl s. if map_of (pr_str s) k = None then (True, s\<lparr>pr_str := put k x (pr_str s)\<rparr>) else (False, s)),
      SCAN_keys = (\<lambda>p c s. (filter (\<lambda>k. take (length p) k = p) (keys (pr_str s)), 0))\<rparr>"

lemma plain_server_documented: "redis_documented plain_server"
proof -
  have prefix: "take (length p) k = p \<longleftrightarrow> (\<exists>u. k = p @ u)" for p k :: string
    by (metis append_eq_conv_conj append_take_drop_id)
  show ?thesis
    unfolding redis_documented_def
  proof (intro conjI allI)
    show "\<exists>n xs. scan_pages (\<lambda>c. SCAN_keys plain_server p c s) n 0 = Some xs \<and>
        set xs = {k. GET plain_server k s \<noteq> None \<and> (\<exists>u. k = p @ u)}" for s p
      by (rule exI [of _ 1]) (auto simp: plain_server_def prefix map_of_eq_None_iff)
    show "\<exists>n xs. scan_pages (\<lambda>c. HSCAN plain_server k c s) n 0 = Some xs \<and> set xs = set (HGETALL plain_server k s)" for s k
      by (rule exI [of _ 1]) (simp add: plain_server_def)
  qed (auto simp: plain_server_def view_def with_field_def gomap_simps map_of_clearjunk distinct_clearjunk map_of_fold_del
      restrict_map_def fun_eq_iff)
qed

end
