(* ===== verification/Redis_Store.thy ===== *)
theory Redis_Store
  imports Redis_Server
begin

text \<open>
  The assignment table in Redis (redis.go and assign.lua, adapted to \<^verbatim>\<open>Store\<close> by
  store_redis.go): the hash "assignments" maps routing keys to encoded assignments, the hash
  "assignment:counts" maps backends to their total weight, and the set "backends:active"
  is the registry. \<open>R\<close> is the server and \<open>net\<close> the connection to it.
\<close>

abbreviation assignments_key :: string where "assignments_key \<equiv> ''assignments''"
abbreviation active_key :: string where "active_key \<equiv> ''backends:active''"
abbreviation counts_key :: string where "counts_key \<equiv> ''assignment:counts''"

section \<open>The assign script\<close>

datatype lua_result = LuaError | LuaNil | LuaText json_text

definition least_loaded_scan :: "'s redis_server \<Rightarrow> string list \<Rightarrow> 's \<Rightarrow> int option \<times> string" where
  "least_loaded_scan R backends s =
     fold (\<lambda>b (minCount, selected).
         let c = tonumber_or_0 (HGET R counts_key b s)
         in if (case minCount of None \<Rightarrow> True | Some m \<Rightarrow> c < m) then (Some c, b) else (minCount, selected))
       backends (None, hd backends)"

definition assign_new :: "'s redis_server \<Rightarrow> instant \<Rightarrow> string \<Rightarrow> 's \<Rightarrow> lua_result \<times> 's" where
  "assign_new R now key s =
     (let backends = SMEMBERS R active_key s
      in if backends = [] then (LuaNil, s)
         else
           let selected = snd (least_loaded_scan R backends s);
               text = Encoded (new_assignment now selected 1);
               s = HSET R assignments_key key text s;
               s = HINCRBY R counts_key selected 1 s
           in (LuaText text, s))"

definition assign_lua :: "'s redis_server \<Rightarrow> instant \<Rightarrow> string \<Rightarrow> 's \<Rightarrow> lua_result \<times> 's" where
  "assign_lua R now key s =
     (case HGET R assignments_key key s of
        None \<Rightarrow> assign_new R now key s
      | Some existing \<Rightarrow>
          (case unmarshalAssignment existing of
             None \<Rightarrow> (LuaError, s)
           | Some data \<Rightarrow>
               if SISMEMBER R active_key (Backend data) s then (LuaText existing, s)
               else
                 let s = HDEL R assignments_key [key] s;
                     s = HINCRBY R counts_key (Backend data) (- norm_weight (Weight data)) s
                 in assign_new R now key s))"

section \<open>Operations\<close>

definition AssignViaTable ::
  "'s redis_server \<Rightarrow> 's network \<Rightarrow> instant \<Rightarrow> string \<Rightarrow> 's \<Rightarrow> (store_error + assignment) \<times> 's" where
  "AssignViaTable R net now routingKey s =
     (case call net (assign_lua R (rfc3339 now) routingKey) s of
        (None, s) \<Rightarrow> (Inl ErrUnavailable, s)
      | (Some LuaError, s) \<Rightarrow> (Inl ErrUnavailable, s)
      | (Some LuaNil, s) \<Rightarrow> (Inl ErrNil, s)
      | (Some (LuaText text), s) \<Rightarrow>
          (case unmarshalAssignment text of None \<Rightarrow> (Inl ErrDecode, s) | Some a \<Rightarrow> (Inr a, s)))"

definition Redis_GetAssignment ::
  "'s redis_server \<Rightarrow> 's network \<Rightarrow> string \<Rightarrow> 's \<Rightarrow> (store_error + assignment) \<times> 's" where
  "Redis_GetAssignment R net routingKey s =
     (case call net (\<lambda>s. (HGET R assignments_key routingKey s, s)) s of
        (None, s) \<Rightarrow> (Inl ErrUnavailable, s)
      | (Some None, s) \<Rightarrow> (Inl ErrNil, s)
      | (Some (Some val), s) \<Rightarrow>
          (case unmarshalAssignment val of None \<Rightarrow> (Inl ErrDecode, s) | Some a \<Rightarrow> (Inr a, s)))"

definition DeleteAssignment ::
  "'s redis_server \<Rightarrow> 's network \<Rightarrow> string \<Rightarrow> 's \<Rightarrow> store_error option \<times> 's" where
  "DeleteAssignment R net routingKey s =
     (case Redis_GetAssignment R net routingKey s of
        (Inl e, s) \<Rightarrow> (Some e, s)
      | (Inr a, s) \<Rightarrow>
          (case call net (\<lambda>s. ((), HINCRBY R counts_key (Backend a) (- EffectiveWeight a)
                  (HDEL R assignments_key [routingKey] s))) s of
             (None, s) \<Rightarrow> (Some ErrUnavailable, s)
           | (Some _, s) \<Rightarrow> (None, s)))"

text \<open>Entries that do not decode are skipped.\<close>

fun decode_entries :: "(string, json_text) gomap \<Rightarrow> table" where
  "decode_entries [] = []"
| "decode_entries ((k, v) # vals) =
     (case unmarshalAssignment v of None \<Rightarrow> decode_entries vals | Some a \<Rightarrow> (k, a) # decode_entries vals)"

definition Redis_GetAllAssignments ::
  "'s redis_server \<Rightarrow> 's network \<Rightarrow> 's \<Rightarrow> (store_error + table) \<times> 's" where
  "Redis_GetAllAssignments R net s =
     (case call net (\<lambda>s. (HGETALL R assignments_key s, s)) s of
        (None, s) \<Rightarrow> (Inl ErrUnavailable, s)
      | (Some vals, s) \<Rightarrow> (Inr (decode_entries vals), s))"

definition page_users :: "string \<Rightarrow> (string \<times> json_text) list \<Rightarrow> string list" where
  "page_users backend page = map fst (filter (\<lambda>(k, a). Backend a = backend) (decode_entries page))"

partial_function (option) table_users_loop ::
  "'s redis_server \<Rightarrow> 's network \<Rightarrow> string \<Rightarrow> string list \<Rightarrow> nat \<Rightarrow> 's \<Rightarrow> ((store_error + string list) \<times> 's) option" where
  "table_users_loop R net backend users cursor s =
     (case call net (\<lambda>s. (HSCAN R assignments_key cursor s, s)) s of
        (None, s) \<Rightarrow> Some (Inl ErrUnavailable, s)
      | (Some (page, next), s) \<Rightarrow>
          (if next = 0 then Some (Inr (users @ page_users backend page), s)
           else table_users_loop R net backend (users @ page_users backend page) next s))"

definition GetBackendUsersFromTable ::
  "'s redis_server \<Rightarrow> 's network \<Rightarrow> string \<Rightarrow> 's \<Rightarrow> ((store_error + string list) \<times> 's) option" where
  "GetBackendUsersFromTable R net backend s = table_users_loop R net backend [] 0 s"

definition add_counts :: "(string \<times> int) list \<Rightarrow> (string, int) gomap" where
  "add_counts xs = fold (\<lambda>(b, w) m. put b ((case map_of m b of None \<Rightarrow> 0 | Some n \<Rightarrow> n) + w) m) xs []"

definition ReconcileAssignmentCounts ::
  "'s redis_server \<Rightarrow> 's network \<Rightarrow> 's \<Rightarrow> store_error option \<times> 's" where
  "ReconcileAssignmentCounts R net s =
     (case Redis_GetAllAssignments R net s of
        (Inl e, s) \<Rightarrow> (Some e, s)
      | (Inr asg, s) \<Rightarrow>
          let counts = add_counts (map (\<lambda>(k, a). (Backend a, EffectiveWeight a)) asg)
          in (case call net (\<lambda>s. ((), fold (\<lambda>(b, n). HSET R counts_key b (Number n)) counts (DEL R counts_key s))) s of
                (None, s) \<Rightarrow> (Some ErrUnavailable, s)
              | (Some _, s) \<Rightarrow> (None, s)))"

definition bulk_items :: "bulk_entries \<Rightarrow> (string \<times> string \<times> int) list" where
  "bulk_items = map (\<lambda>(k, e). (k, EntryBackend e, norm_weight (EntryWeight e)))"

definition won_items :: "(string \<times> string \<times> int) list \<Rightarrow> bool list \<Rightarrow> (string \<times> string \<times> int) list" where
  "won_items items oks = map fst (filter snd (zip items oks))"

definition Redis_BulkAssign ::
  "'s redis_server \<Rightarrow> 's network \<Rightarrow> instant \<Rightarrow> bulk_entries \<Rightarrow> 's \<Rightarrow>
   ((string, string) gomap \<times> store_error option) \<times> 's" where
  "Redis_BulkAssign R net now assignments s =
     (if assignments = [] then (([], None), s)
      else
        let items = bulk_items assignments
        in case call net (pipeline (map (\<lambda>(k, b, w). HSETNX R assignments_key k (Encoded (new_assignment now b w))) items)) s of
             (None, s) \<Rightarrow> (([], Some ErrUnavailable), s)
           | (Some oks, s) \<Rightarrow>
               let won = won_items items oks;
                   assigned = map (\<lambda>(k, b, w). (k, b)) won;
                   counts = add_counts (map snd won)
               in if counts = [] then ((assigned, None), s)
                  else (case call net (\<lambda>s. ((), fold (\<lambda>(b, n). HINCRBY R counts_key b n) counts s)) s of
                          (None, s) \<Rightarrow> ((assigned, Some ErrUnavailable), snd (ReconcileAssignmentCounts R net s))
                        | (Some _, s) \<Rightarrow> ((assigned, None), s)))"

fun collect_found :: "string list \<Rightarrow> json_text option list \<Rightarrow> table" where
  "collect_found (k # ks) (Some t # vals) = decode_entries [(k, t)] @ collect_found ks vals"
| "collect_found (k # ks) (None # vals) = collect_found ks vals"
| "collect_found _ _ = []"

definition Redis_BulkDeleteAssignments ::
  "'s redis_server \<Rightarrow> 's network \<Rightarrow> string list \<Rightarrow> 's \<Rightarrow> store_error option \<times> 's" where
  "Redis_BulkDeleteAssignments R net routingKeys s =
     (if routingKeys = [] then (None, s)
      else
        let (vals, s) = (case call net (pipeline (map (\<lambda>k s. (HGET R assignments_key k s, s)) routingKeys)) s of
                           (None, s) \<Rightarrow> (map (\<lambda>_. None) routingKeys, s)
                         | (Some vals, s) \<Rightarrow> (vals, s));
            found = collect_found routingKeys vals;
            toDelete = map fst found;
            counts = add_counts (map (\<lambda>(k, a). (Backend a, EffectiveWeight a)) found)
        in if toDelete = [] then (None, s)
           else (case call net (\<lambda>s. ((), fold (\<lambda>(b, n). HINCRBY R counts_key b (- n)) counts
                        (HDEL R assignments_key toDelete s))) s of
                   (None, s) \<Rightarrow> (Some ErrUnavailable, s)
                 | (Some _, s) \<Rightarrow> (None, s)))"

definition Redis_ActiveBackends :: "'s redis_server \<Rightarrow> 's network \<Rightarrow> 's \<Rightarrow> (store_error + string list) \<times> 's" where
  "Redis_ActiveBackends R net s =
     (case call net (\<lambda>s. (SMEMBERS R active_key s, s)) s of
        (None, s) \<Rightarrow> (Inl ErrUnavailable, s) | (Some bs, s) \<Rightarrow> (Inr bs, s))"

definition status_of :: "unit option \<times> 's \<Rightarrow> store_error option \<times> 's" where
  "status_of r = (case r of (None, s) \<Rightarrow> (Some ErrUnavailable, s) | (Some _, s) \<Rightarrow> (None, s))"

definition Redis_AddBackend :: "'s redis_server \<Rightarrow> 's network \<Rightarrow> string \<Rightarrow> 's \<Rightarrow> store_error option \<times> 's" where
  "Redis_AddBackend R net backend s = status_of (call net (\<lambda>s. ((), SADD R active_key backend s)) s)"

definition Redis_RemoveBackend :: "'s redis_server \<Rightarrow> 's network \<Rightarrow> string \<Rightarrow> 's \<Rightarrow> store_error option \<times> 's" where
  "Redis_RemoveBackend R net backend s = status_of (call net (\<lambda>s. ((), SREM R active_key backend s)) s)"

definition Redis_Ping :: "'s network \<Rightarrow> 's \<Rightarrow> store_error option \<times> 's" where
  "Redis_Ping net s = status_of (call net (\<lambda>s. ((), s)) s)"

definition redis_store :: "'s redis_server \<Rightarrow> 's network \<Rightarrow> 's store_ops" where
  "redis_store R net =
     \<lparr>AssignLeastLoaded = AssignViaTable R net,
      GetAssignment = Redis_GetAssignment R net,
      GetAllAssignments = Redis_GetAllAssignments R net,
      GetBackendUsers = GetBackendUsersFromTable R net,
      BulkAssign = Redis_BulkAssign R net,
      BulkDeleteAssignments = Redis_BulkDeleteAssignments R net,
      ActiveBackends = Redis_ActiveBackends R net,
      AddBackend = Redis_AddBackend R net,
      RemoveBackend = Redis_RemoveBackend R net,
      Ping = Redis_Ping net\<rparr>"

section \<open>What the state of the server means\<close>

definition v_tab :: "redis_view \<Rightarrow> string \<rightharpoonup> assignment" where
  "v_tab v k = Option.bind (rv_hash v assignments_key k) unmarshalAssignment"

definition v_cnt :: "redis_view \<Rightarrow> string \<Rightarrow> int" where
  "v_cnt v b = tonumber_or_0 (rv_hash v counts_key b)"

definition v_typed :: "redis_view \<Rightarrow> bool" where
  "v_typed v \<longleftrightarrow> (\<forall>k t. rv_hash v assignments_key k = Some t \<longrightarrow> (\<exists>a. t = Encoded a)) \<and>
     (\<forall>b t. rv_hash v counts_key b = Some t \<longrightarrow> (\<exists>n. t = Number n))"

abbreviation tab :: "'s redis_server \<Rightarrow> 's \<Rightarrow> string \<rightharpoonup> assignment" where
  "tab R s \<equiv> v_tab (view R s)"

abbreviation cnt :: "'s redis_server \<Rightarrow> 's \<Rightarrow> string \<Rightarrow> int" where
  "cnt R s \<equiv> v_cnt (view R s)"

abbreviation actv :: "'s redis_server \<Rightarrow> 's \<Rightarrow> string set" where
  "actv R s \<equiv> rv_set (view R s) active_key"

text \<open>The hashes hold what the code writes to them: encoded assignments and numbers.\<close>

definition rok :: "'s redis_server \<Rightarrow> 's \<Rightarrow> bool" where
  "rok R s \<longleftrightarrow> redis_documented R \<and> v_typed (view R s)"

lemma view_simps:
  "HGET R k f s = rv_hash (view R s) k f" "set (SMEMBERS R k s) = rv_set (view R s) k" "GET R k s = rv_str (view R s) k"
  by (simp_all add: view_def)

lemma rv_hash_tab: "v_typed v \<Longrightarrow> rv_hash v assignments_key k = map_option Encoded (v_tab v k)"
  by (cases "rv_hash v assignments_key k") (simp_all add: v_tab_def, force simp: v_typed_def)

lemma rv_hash_cnt:
  "v_typed v \<Longrightarrow> rv_hash v counts_key b = None \<and> v_cnt v b = 0 \<or> rv_hash v counts_key b = Some (Number (v_cnt v b))"
  by (cases "rv_hash v counts_key b") (simp_all add: v_cnt_def, force simp: v_typed_def)

lemma HINCRBY_documented:
  assumes "redis_documented R" and "HGET R k f s = None \<and> n = 0 \<or> HGET R k f s = Some (Number n)"
  shows "view R (HINCRBY R k f i s) = with_field k f (Some (Number (n + i))) (view R s)"
proof -
  have "\<forall>s k f i n. HGET R k f s = None \<and> n = 0 \<or> HGET R k f s = Some (Number n) \<longrightarrow>
      view R (HINCRBY R k f i s) = with_field k f (Some (Number (n + i))) (view R s)"
    using assms(1) unfolding redis_documented_def by (elim conjE)
  with assms(2) show ?thesis by blast
qed

text \<open>Each command the operations use, as a change of table, counts and registry.\<close>

lemma HSET_effect:
  assumes "rok R s"
  shows "rok R (HSET R assignments_key k (Encoded a) s)"
    "tab R (HSET R assignments_key k (Encoded a) s) = (tab R s)(k \<mapsto> a)"
    "cnt R (HSET R assignments_key k (Encoded a) s) = cnt R s"
    "actv R (HSET R assignments_key k (Encoded a) s) = actv R s"
proof -
  have "view R (HSET R assignments_key k (Encoded a) s) = with_field assignments_key k (Some (Encoded a)) (view R s)"
    using assms by (simp add: rok_def redis_documented_def)
  with assms show "rok R (HSET R assignments_key k (Encoded a) s)"
      "tab R (HSET R assignments_key k (Encoded a) s) = (tab R s)(k \<mapsto> a)"
      "cnt R (HSET R assignments_key k (Encoded a) s) = cnt R s"
      "actv R (HSET R assignments_key k (Encoded a) s) = actv R s"
    by (auto simp: rok_def with_field_def v_tab_def v_cnt_def v_typed_def fun_eq_iff)
qed

lemma HSETNX_effect:
  assumes "rok R s"
  shows "fst (HSETNX R assignments_key k (Encoded a) s) \<longleftrightarrow> tab R s k = None"
    "rok R (snd (HSETNX R assignments_key k (Encoded a) s))"
    "tab R (snd (HSETNX R assignments_key k (Encoded a) s)) = (if tab R s k = None then (tab R s)(k \<mapsto> a) else tab R s)"
    "cnt R (snd (HSETNX R assignments_key k (Encoded a) s)) = cnt R s"
    "actv R (snd (HSETNX R assignments_key k (Encoded a) s)) = actv R s"
proof -
  have "view R (snd (HSETNX R assignments_key k (Encoded a) s)) =
      (if HGET R assignments_key k s = None then with_field assignments_key k (Some (Encoded a)) (view R s) else view R s)"
    and f: "fst (HSETNX R assignments_key k (Encoded a) s) \<longleftrightarrow> HGET R assignments_key k s = None"
    using assms by (simp_all add: rok_def redis_documented_def)
  moreover have n: "HGET R assignments_key k s = None \<longleftrightarrow> tab R s k = None"
    using assms by (simp add: view_simps rv_hash_tab rok_def)
  ultimately show "rok R (snd (HSETNX R assignments_key k (Encoded a) s))"
    "tab R (snd (HSETNX R assignments_key k (Encoded a) s)) = (if tab R s k = None then (tab R s)(k \<mapsto> a) else tab R s)"
    "cnt R (snd (HSETNX R assignments_key k (Encoded a) s)) = cnt R s"
    "actv R (snd (HSETNX R assignments_key k (Encoded a) s)) = actv R s"
    using assms by (auto simp: rok_def with_field_def v_tab_def v_cnt_def v_typed_def fun_eq_iff)
  show "fst (HSETNX R assignments_key k (Encoded a) s) \<longleftrightarrow> tab R s k = None"
    using f n by simp
qed

lemma HDEL_effect:
  assumes "rok R s"
  shows "rok R (HDEL R assignments_key ks s)" "tab R (HDEL R assignments_key ks s) = tab R s |` (- set ks)"
    "cnt R (HDEL R assignments_key ks s) = cnt R s" "actv R (HDEL R assignments_key ks s) = actv R s"
proof -
  have "view R (HDEL R assignments_key ks s) =
      (view R s)\<lparr>rv_hash := (rv_hash (view R s))(assignments_key := rv_hash (view R s) assignments_key |` (- set ks))\<rparr>"
    using assms by (simp add: rok_def redis_documented_def)
  with assms show "rok R (HDEL R assignments_key ks s)" "tab R (HDEL R assignments_key ks s) = tab R s |` (- set ks)"
      "cnt R (HDEL R assignments_key ks s) = cnt R s" "actv R (HDEL R assignments_key ks s) = actv R s"
    by (auto simp: rok_def restrict_map_def v_tab_def v_cnt_def v_typed_def fun_eq_iff)
qed

lemma HINCRBY_effect:
  assumes "rok R s"
  shows "rok R (HINCRBY R counts_key b i s)" "tab R (HINCRBY R counts_key b i s) = tab R s"
    "cnt R (HINCRBY R counts_key b i s) = (cnt R s)(b := cnt R s b + i)"
    "actv R (HINCRBY R counts_key b i s) = actv R s"
proof -
  have "HGET R counts_key b s = None \<and> cnt R s b = 0 \<or> HGET R counts_key b s = Some (Number (cnt R s b))"
    using assms rv_hash_cnt [of "view R s" b] by (simp add: view_simps rok_def)
  then have "view R (HINCRBY R counts_key b i s) = with_field counts_key b (Some (Number (cnt R s b + i))) (view R s)"
    using assms by (intro HINCRBY_documented) (auto simp: rok_def)
  with assms show "rok R (HINCRBY R counts_key b i s)" "tab R (HINCRBY R counts_key b i s) = tab R s"
    "cnt R (HINCRBY R counts_key b i s) = (cnt R s)(b := cnt R s b + i)"
    "actv R (HINCRBY R counts_key b i s) = actv R s"
    by (auto simp: rok_def with_field_def v_tab_def v_cnt_def v_typed_def fun_eq_iff)
qed

lemma registry_effect:
  assumes "rok R s"
  shows "rok R (SADD R active_key b s)" "tab R (SADD R active_key b s) = tab R s"
    "cnt R (SADD R active_key b s) = cnt R s" "actv R (SADD R active_key b s) = insert b (actv R s)"
    "rok R (SREM R active_key b s)" "tab R (SREM R active_key b s) = tab R s"
    "cnt R (SREM R active_key b s) = cnt R s" "actv R (SREM R active_key b s) = actv R s - {b}"
proof -
  have "view R (SADD R active_key b s) = (view R s)\<lparr>rv_set := (rv_set (view R s))(active_key := insert b (actv R s))\<rparr>"
    "view R (SREM R active_key b s) = (view R s)\<lparr>rv_set := (rv_set (view R s))(active_key := actv R s - {b})\<rparr>"
    using assms by (simp_all add: rok_def redis_documented_def)
  with assms show "rok R (SADD R active_key b s)" "tab R (SADD R active_key b s) = tab R s"
      "cnt R (SADD R active_key b s) = cnt R s" "actv R (SADD R active_key b s) = insert b (actv R s)"
      "rok R (SREM R active_key b s)" "tab R (SREM R active_key b s) = tab R s"
      "cnt R (SREM R active_key b s) = cnt R s" "actv R (SREM R active_key b s) = actv R s - {b}"
    by (auto simp: rok_def v_tab_def v_cnt_def v_typed_def fun_eq_iff)
qed

lemma counts_reset_effect:
  assumes "rok R s"
  shows "rok R (DEL R counts_key s)" "tab R (DEL R counts_key s) = tab R s" "cnt R (DEL R counts_key s) = (\<lambda>_. 0)"
    "actv R (DEL R counts_key s) = actv R s"
    "rok R (HSET R counts_key b (Number n) s)" "tab R (HSET R counts_key b (Number n) s) = tab R s"
    "cnt R (HSET R counts_key b (Number n) s) = (cnt R s)(b := n)" "actv R (HSET R counts_key b (Number n) s) = actv R s"
proof -
  have "view R (DEL R counts_key s) = (view R s)\<lparr>rv_hash := (rv_hash (view R s))(counts_key := Map.empty),
      rv_set := (rv_set (view R s))(counts_key := {}), rv_str := (rv_str (view R s))(counts_key := None)\<rparr>"
    "view R (HSET R counts_key b (Number n) s) = with_field counts_key b (Some (Number n)) (view R s)"
    using assms by (simp_all add: rok_def redis_documented_def)
  with assms show "rok R (DEL R counts_key s)" "tab R (DEL R counts_key s) = tab R s"
      "cnt R (DEL R counts_key s) = (\<lambda>_. 0)" "actv R (DEL R counts_key s) = actv R s"
      "rok R (HSET R counts_key b (Number n) s)" "tab R (HSET R counts_key b (Number n) s) = tab R s"
      "cnt R (HSET R counts_key b (Number n) s) = (cnt R s)(b := n)" "actv R (HSET R counts_key b (Number n) s) = actv R s"
    by (auto simp: rok_def with_field_def v_tab_def v_cnt_def v_typed_def fun_eq_iff)
qed

lemmas effects = HSET_effect HSETNX_effect HDEL_effect HINCRBY_effect registry_effect counts_reset_effect

section \<open>Decoding, counting and scanning\<close>

lemma decode_entries_mem:
  "(k, a) \<in> set (decode_entries vals) \<longleftrightarrow> (\<exists>t. (k, t) \<in> set vals \<and> unmarshalAssignment t = Some a)"
  by (induction vals rule: decode_entries.induct) (auto split: option.split)

lemma decode_entries_keys: "set (keys (decode_entries vals)) \<subseteq> set (keys vals)"
  by (induction vals rule: decode_entries.induct) (auto split: option.split)

lemma decode_entries_wf: "wf_map vals \<Longrightarrow> wf_map (decode_entries vals)"
proof (induction vals rule: decode_entries.induct)
  case (2 k v vals)
  then show ?case using decode_entries_keys [of vals] by (auto split: option.split)
qed simp

lemma map_of_decode_entries:
  assumes "wf_map vals"
  shows "map_of (decode_entries vals) k = Option.bind (map_of vals k) unmarshalAssignment"
proof -
  have "map_of (decode_entries vals) k = Some a \<longleftrightarrow> Option.bind (map_of vals k) unmarshalAssignment = Some a" for a
    by (simp add: map_of_eq_Some_wf decode_entries_wf assms decode_entries_mem bind_eq_Some_conv)
  then show ?thesis by (metis option.exhaust)
qed

lemma page_users_append: "page_users b (xs @ ys) = page_users b xs @ page_users b ys"
proof -
  have "decode_entries (xs @ ys) = decode_entries xs @ decode_entries ys"
    by (induction xs rule: decode_entries.induct) (auto split: option.split)
  then show ?thesis by (simp add: page_users_def)
qed

definition redis_table :: "'s redis_server \<Rightarrow> 's \<Rightarrow> table" where
  "redis_table R s = decode_entries (HGETALL R assignments_key s)"

lemma redis_table:
  assumes "redis_documented R"
  shows "wf_map (redis_table R s)" and "map_of (redis_table R s) = tab R s"
proof -
  have "wf_map (HGETALL R assignments_key s)" "\<And>k. map_of (HGETALL R assignments_key s) k = HGET R assignments_key k s"
    using assms by (simp_all add: redis_documented_def)
  then show "wf_map (redis_table R s)" "map_of (redis_table R s) = tab R s"
    by (auto simp: redis_table_def decode_entries_wf map_of_decode_entries v_tab_def view_simps fun_eq_iff)
qed

lemma redis_load:
  "redis_documented R \<Longrightarrow> wf_map m \<Longrightarrow> map_of m = tab R s \<Longrightarrow> load (redis_table R s) b = load m b"
  by (rule load_cong) (simp_all add: redis_table)

lemma add_counts_wf [simp]: "wf_map (add_counts xs)"
proof -
  have "wf_map m \<Longrightarrow> wf_map (fold (\<lambda>(b, w) m. put b ((case map_of m b of None \<Rightarrow> 0 | Some n \<Rightarrow> n) + w) m) xs m)" for m :: "(string, int) gomap"
    by (induction xs arbitrary: m) auto
  then show ?thesis by (simp add: add_counts_def)
qed

definition count_in :: "(string, int) gomap \<Rightarrow> string \<Rightarrow> int" where
  "count_in m b = (case map_of m b of None \<Rightarrow> 0 | Some n \<Rightarrow> n)"

lemma count_in_add_counts: "count_in (add_counts xs) b = sum_list (map (\<lambda>(b', w). if b' = b then w else 0) xs)"
proof -
  have "count_in (fold (\<lambda>(b, w) m. put b ((case map_of m b of None \<Rightarrow> 0 | Some n \<Rightarrow> n) + w) m) xs m) b =
      count_in m b + sum_list (map (\<lambda>(b', w). if b' = b then w else 0) xs)" for m
    by (induction xs arbitrary: m) (auto simp: count_in_def gomap_simps)
  then show ?thesis by (simp add: add_counts_def count_in_def)
qed

lemma add_counts_load:
  "count_in (add_counts (map (\<lambda>(k, a). (Backend a, EffectiveWeight a)) asg)) b = load asg b"
  by (simp add: count_in_add_counts load_def comp_def split_def cong: if_cong)

lemma fold_HINCRBY_effect:
  fixes g :: "int \<Rightarrow> int"
  assumes "rok R s" and "wf_map counts"
  defines "s' \<equiv> fold (\<lambda>(b, n). HINCRBY R counts_key b (g n)) counts s"
  shows "rok R s' \<and> tab R s' = tab R s \<and> actv R s' = actv R s \<and>
    (\<forall>b. cnt R s' b = cnt R s b + (case map_of counts b of None \<Rightarrow> 0 | Some n \<Rightarrow> g n))"
  unfolding s'_def using assms(1, 2)
proof (induction counts arbitrary: s)
  case (Cons x counts)
  obtain b n where x: "x = (b, n)" by (cases x)
  from Cons.prems x have "map_of counts b = None" by (simp add: map_of_eq_None_iff)
  with Cons x show ?case by (simp add: HINCRBY_effect)
qed simp

lemma fold_HSET_counts_effect:
  assumes "rok R s" and "wf_map counts"
  defines "s' \<equiv> fold (\<lambda>(b, n). HSET R counts_key b (Number n)) counts s"
  shows "rok R s' \<and> tab R s' = tab R s \<and> actv R s' = actv R s \<and>
    (\<forall>b. cnt R s' b = (case map_of counts b of None \<Rightarrow> cnt R s b | Some n \<Rightarrow> n))"
  unfolding s'_def using assms(1, 2)
proof (induction counts arbitrary: s)
  case (Cons x counts)
  obtain b n where x: "x = (b, n)" by (cases x)
  from Cons.prems x have "map_of counts b = None" by (simp add: map_of_eq_None_iff)
  with Cons x show ?case by (auto simp: counts_reset_effect split: option.split)
qed simp

lemma table_users_loop_scan:
  assumes "reliable net"
  shows "scan_pages (\<lambda>c. HSCAN R assignments_key c s) n c = Some xs \<Longrightarrow>
    table_users_loop R net b us c s = Some (Inr (us @ page_users b xs), s)"
proof (induction n arbitrary: us c xs)
  case (Suc n)
  obtain page c' where p: "HSCAN R assignments_key c s = (page, c')" by (cases "HSCAN R assignments_key c s")
  show ?case
  proof (cases "c' = 0")
    case True
    with Suc.prems p show ?thesis
      by (subst table_users_loop.simps) (simp add: assms)
  next
    case False
    with Suc.prems p obtain ys where ys: "scan_pages (\<lambda>c. HSCAN R assignments_key c s) n c' = Some ys" "xs = page @ ys" by auto
    from Suc.IH [OF ys(1)] False p ys(2) show ?thesis
      by (subst table_users_loop.simps) (simp add: assms page_users_append)
  qed
qed simp

lemma GetBackendUsers_effect:
  assumes "rok R s" and "reliable net"
  shows "\<exists>us. GetBackendUsersFromTable R net b s = Some (Inr us, s) \<and> set us = {k. \<exists>a. tab R s k = Some a \<and> Backend a = b}"
proof -
  have doc: "redis_documented R" using assms(1) by (simp add: rok_def)
  then obtain n xs where n: "scan_pages (\<lambda>c. HSCAN R assignments_key c s) n 0 = Some xs"
    and xs: "set xs = set (HGETALL R assignments_key s)"
    unfolding redis_documented_def by (elim conjE) meson
  have "(k, a) \<in> set (decode_entries xs) \<longleftrightarrow> tab R s k = Some a" for k a
    using redis_table [OF doc, of s] map_of_eq_Some_wf [of "redis_table R s" k a] xs
    by (simp add: redis_table_def decode_entries_mem)
  then have "set (page_users b xs) = {k. \<exists>a. tab R s k = Some a \<and> Backend a = b}"
    by (force simp: page_users_def)
  with table_users_loop_scan [OF assms(2) n, of b "[]"] show ?thesis
    by (simp add: GetBackendUsersFromTable_def)
qed

section \<open>The assign script\<close>

lemma least_loaded_scan_min:
  assumes "backends \<noteq> []"
  shows "snd (least_loaded_scan R backends s) \<in> set backends \<and>
    (\<forall>b \<in> set backends. cnt R s (snd (least_loaded_scan R backends s)) \<le> cnt R s b)"
proof -
  let ?f = "\<lambda>b (minCount, selected). let c = tonumber_or_0 (HGET R counts_key b s)
      in if (case minCount of None \<Rightarrow> True | Some m \<Rightarrow> c < m) then (Some c, b) else (minCount, selected)"
  have step: "?f b (m, x) = (if (case m of None \<Rightarrow> True | Some m \<Rightarrow> cnt R s b < m) then (Some (cnt R s b), b) else (m, x))" for b m x
    by (simp add: v_cnt_def view_simps Let_def cong: option.case_cong)
  have "(m = None \<and> bs \<noteq> []) \<or> m = Some (cnt R s x) \<Longrightarrow>
      (\<exists>y. fold ?f bs (m, x) = (Some (cnt R s y), y) \<and> (y \<in> set bs \<or> y = x \<and> m \<noteq> None) \<and>
        (\<forall>b \<in> set bs. cnt R s y \<le> cnt R s b) \<and> (m \<noteq> None \<longrightarrow> cnt R s y \<le> cnt R s x))" for bs m x
  proof (induction bs arbitrary: m x)
    case (Cons b bs)
    show ?case
    proof (cases "case m of None \<Rightarrow> True | Some m \<Rightarrow> cnt R s b < m")
      case True
      then show ?thesis
        using Cons.IH [of "Some (cnt R s b)" b] Cons.prems step [of b m x] by (fastforce split: option.splits)
    next
      case False
      then show ?thesis
        using Cons.IH [of m x] Cons.prems step [of b m x] by (fastforce split: option.splits)
    qed
  qed auto
  from this [of None backends "hd backends"] assms show ?thesis by (auto simp: least_loaded_scan_def)
qed

lemma assign_new_effect:
  assumes "rok R s" and "actv R s \<noteq> {}"
  obtains b s' where "assign_new R now k s = (LuaText (Encoded (new_assignment now b 1)), s')"
    and "b \<in> actv R s" and "\<forall>b' \<in> actv R s. cnt R s b \<le> cnt R s b'"
    and "rok R s'" and "tab R s' = (tab R s)(k \<mapsto> new_assignment now b 1)"
    and "cnt R s' = (cnt R s)(b := cnt R s b + 1)" and "actv R s' = actv R s"
proof -
  let ?bs = "SMEMBERS R active_key s"
  let ?b = "snd (least_loaded_scan R ?bs s)"
  have bs: "set ?bs = actv R s" by (simp add: view_simps)
  with assms(2) have ne: "?bs \<noteq> []" by auto
  have r: "rok R (HSET R assignments_key k (Encoded (new_assignment now ?b 1)) s)"
    by (rule HSET_effect [OF assms(1)])
  show ?thesis
  proof (rule that [of ?b])
    show "assign_new R now k s = (LuaText (Encoded (new_assignment now ?b 1)),
        HINCRBY R counts_key ?b 1 (HSET R assignments_key k (Encoded (new_assignment now ?b 1)) s))"
      using ne by (simp add: assign_new_def Let_def)
  qed (use least_loaded_scan_min [OF ne, of R s] bs in
      \<open>auto simp: HINCRBY_effect [OF r] HSET_effect [OF assms(1)]\<close>)
qed

lemma assign_new_none:
  assumes "rok R s" and "actv R s = {}"
  shows "assign_new R now k s = (LuaNil, s)"
  using assms(2) by (simp add: assign_new_def view_def)

text \<open>The counts agree with the table.\<close>

definition counts_match :: "'s redis_server \<Rightarrow> 's \<Rightarrow> bool" where
  "counts_match R s \<longleftrightarrow> (\<forall>b. cnt R s b = load (redis_table R s) b)"

lemma counts_matchI:
  assumes "rok R s" and "wf_map m" and "map_of m = tab R s" and "\<And>b. cnt R s b = load m b"
  shows "counts_match R s"
  using assms redis_load [of R m s] by (simp add: counts_match_def rok_def)

lemma counts_match_put:
  assumes "rok R s" and "counts_match R s" and "rok R s'" and "tab R s k = None"
    and "tab R s' = (tab R s)(k \<mapsto> a)" and "cnt R s' = (cnt R s)(Backend a := cnt R s (Backend a) + EffectiveWeight a)"
  shows "counts_match R s'"
proof (rule counts_matchI [OF assms(3)])
  note t = redis_table [of R s]
  show "wf_map (put k a (redis_table R s))" using t assms(1) by (simp add: rok_def)
  show "map_of (put k a (redis_table R s)) = tab R s'" using t assms(1, 5) by (simp add: rok_def gomap_simps)
  show "cnt R s' b = load (put k a (redis_table R s)) b" for b
    using t assms(1, 2, 4, 6) by (auto simp: rok_def load_put counts_match_def)
qed

lemma counts_match_del:
  assumes "rok R s" and "counts_match R s" and "rok R s'" and "tab R s k = Some a"
    and "tab R s' = (tab R s)(k := None)" and "cnt R s' = (cnt R s)(Backend a := cnt R s (Backend a) - EffectiveWeight a)"
  shows "counts_match R s'"
proof (rule counts_matchI [OF assms(3)])
  note t = redis_table [of R s]
  show "wf_map (del k (redis_table R s))" using t assms(1) by (simp add: rok_def)
  show "map_of (del k (redis_table R s)) = tab R s'" using t assms(1, 5) by (simp add: rok_def gomap_simps)
  show "cnt R s' b = load (del k (redis_table R s)) b" for b
    using t assms(1, 2, 4, 6) by (auto simp: rok_def load_del counts_match_def)
qed

text \<open>Removing a stale assignment, as the script does before it assigns anew.\<close>

definition drop_stale :: "'s redis_server \<Rightarrow> string \<Rightarrow> assignment \<Rightarrow> 's \<Rightarrow> 's" where
  "drop_stale R k a s =
     HINCRBY R counts_key (Backend a) (- norm_weight (Weight a)) (HDEL R assignments_key [k] s)"

lemma drop_stale_effect:
  assumes "rok R s"
  shows "rok R (drop_stale R k a s)" "tab R (drop_stale R k a s) = (tab R s)(k := None)"
    "cnt R (drop_stale R k a s) = (cnt R s)(Backend a := cnt R s (Backend a) - EffectiveWeight a)"
    "actv R (drop_stale R k a s) = actv R s"
  using HINCRBY_effect [OF HDEL_effect(1) [OF assms]] HDEL_effect [OF assms]
  by (auto simp: drop_stale_def EffectiveWeight_norm restrict_map_def fun_eq_iff)

lemma assign_lua_cases:
  assumes "rok R s"
  shows "assign_lua R now k s =
    (case tab R s k of
       None \<Rightarrow> assign_new R now k s
     | Some a \<Rightarrow> if Backend a \<in> actv R s then (LuaText (Encoded a), s) else assign_new R now k (drop_stale R k a s))"
proof -
  have "HGET R assignments_key k s = map_option Encoded (tab R s k)"
    using assms by (simp add: view_simps rv_hash_tab rok_def)
  moreover have "SISMEMBER R active_key b s \<longleftrightarrow> b \<in> actv R s" for b
    using assms by (simp add: rok_def redis_documented_def view_simps)
  ultimately show ?thesis
    by (simp add: assign_lua_def drop_stale_def Let_def split: option.split)
qed

text \<open>The state in which the script assigns anew: the key is gone from the table and the counts.\<close>

definition vacated :: "'s redis_server \<Rightarrow> string \<Rightarrow> 's \<Rightarrow> 's" where
  "vacated R k s = (case tab R s k of None \<Rightarrow> s | Some a \<Rightarrow> drop_stale R k a s)"

lemma vacated_effect:
  assumes "rok R s"
  shows "rok R (vacated R k s)" "tab R (vacated R k s) = (tab R s)(k := None)" "actv R (vacated R k s) = actv R s"
    "counts_match R s \<Longrightarrow> counts_match R (vacated R k s)"
  using drop_stale_effect [OF assms] assms counts_match_del [OF assms _ drop_stale_effect(1) [OF assms]]
  by (auto simp: vacated_def split: option.split)

lemma AssignViaTable_effect:
  assumes ok: "rok R s" and net: "reliable net"
  shows "tab R s k = Some a \<Longrightarrow> Backend a \<in> actv R s \<Longrightarrow> AssignViaTable R net now k s = (Inr a, s)"
    and "actv R s = {} \<Longrightarrow> AssignViaTable R net now k s = (Inl ErrNil, vacated R k s)"
    and "actv R s \<noteq> {} \<Longrightarrow> \<not> (\<exists>a. tab R s k = Some a \<and> Backend a \<in> actv R s) \<Longrightarrow>
      \<exists>b s'. AssignViaTable R net now k s = (Inr (new_assignment (rfc3339 now) b 1), s') \<and>
        b \<in> actv R s \<and> (\<forall>b' \<in> actv R s. cnt R (vacated R k s) b \<le> cnt R (vacated R k s) b') \<and>
        rok R s' \<and> actv R s' = actv R s \<and> tab R s' = (tab R s)(k \<mapsto> new_assignment (rfc3339 now) b 1) \<and>
        (counts_match R s \<longrightarrow> counts_match R s')"
proof -
  note v = vacated_effect [OF ok, of k]
  show "tab R s k = Some a \<Longrightarrow> Backend a \<in> actv R s \<Longrightarrow> AssignViaTable R net now k s = (Inr a, s)"
    by (simp add: AssignViaTable_def net assign_lua_cases [OF ok])
  show "actv R s = {} \<Longrightarrow> AssignViaTable R net now k s = (Inl ErrNil, vacated R k s)"
    using assign_new_none [OF v(1)] v(3) ok
    by (auto simp: AssignViaTable_def net assign_lua_cases [OF ok] vacated_def split: option.splits)
  assume ne: "actv R s \<noteq> {}" and stale: "\<not> (\<exists>a. tab R s k = Some a \<and> Backend a \<in> actv R s)"
  have new: "assign_lua R (rfc3339 now) k s = assign_new R (rfc3339 now) k (vacated R k s)"
    using stale by (auto simp: assign_lua_cases [OF ok] vacated_def split: option.split)
  have "actv R (vacated R k s) \<noteq> {}" using ne v(3) by simp
  from assign_new_effect [OF v(1) this, of "rfc3339 now" k] obtain b s' where
    b: "assign_new R (rfc3339 now) k (vacated R k s) = (LuaText (Encoded (new_assignment (rfc3339 now) b 1)), s')"
      "b \<in> actv R (vacated R k s)" "\<forall>b' \<in> actv R (vacated R k s). cnt R (vacated R k s) b \<le> cnt R (vacated R k s) b'"
      "rok R s'" "tab R s' = (tab R (vacated R k s))(k \<mapsto> new_assignment (rfc3339 now) b 1)"
      "cnt R s' = (cnt R (vacated R k s))(b := cnt R (vacated R k s) b + 1)" "actv R s' = actv R (vacated R k s)" .
  have "counts_match R s \<Longrightarrow> counts_match R s'"
    using counts_match_put [OF v(1) v(4) b(4), of k] b(5, 6) v(2) by (simp add: norm_weight_def)
  with b v new show "\<exists>b s'. AssignViaTable R net now k s = (Inr (new_assignment (rfc3339 now) b 1), s') \<and>
        b \<in> actv R s \<and> (\<forall>b' \<in> actv R s. cnt R (vacated R k s) b \<le> cnt R (vacated R k s) b') \<and>
        rok R s' \<and> actv R s' = actv R s \<and> tab R s' = (tab R s)(k \<mapsto> new_assignment (rfc3339 now) b 1) \<and>
        (counts_match R s \<longrightarrow> counts_match R s')"
    by (intro exI [of _ b] exI [of _ s']) (simp add: AssignViaTable_def net)
qed

section \<open>Bulk operations\<close>

definition new_entry :: "instant \<Rightarrow> string \<times> string \<times> int \<Rightarrow> string \<times> assignment" where
  "new_entry now = (\<lambda>(k, b, w). (k, new_assignment now b w))"

lemma pipeline_HSETNX:
  assumes "rok R s" and "distinct (map fst items)"
  shows "case pipeline (map (\<lambda>(k, b, w). HSETNX R assignments_key k (Encoded (new_assignment now b w))) items) s of
    (oks, s') \<Rightarrow> oks = map (\<lambda>i. tab R s (fst i) = None) items \<and> rok R s' \<and> cnt R s' = cnt R s \<and> actv R s' = actv R s \<and>
      tab R s' = tab R s ++ map_of (map (new_entry now) (filter (\<lambda>i. tab R s (fst i) = None) items))"
  using assms
proof (induction items arbitrary: s)
  case (Cons i items)
  obtain k b w where i: "i = (k, b, w)" by (cases i)
  let ?c = "HSETNX R assignments_key k (Encoded (new_assignment now b w)) s"
  note e = HSETNX_effect [OF Cons.prems(1), of k "new_assignment now b w"]
  have d: "k \<notin> fst ` set items" using Cons.prems(2) i by simp
  then have same: "map (\<lambda>i. tab R (snd ?c) (fst i) = None) items = map (\<lambda>i. tab R s (fst i) = None) items"
    "filter (\<lambda>i. tab R (snd ?c) (fst i) = None) items = filter (\<lambda>i. tab R s (fst i) = None) items"
    using e(3) by (auto intro!: filter_cong)
  have ncl: "map_of (map (new_entry now) (filter P items)) k = None" for P
    using d by (force simp: map_of_eq_None_iff new_entry_def)
  let ?rest = "pipeline (map (\<lambda>(k, b, w). HSETNX R assignments_key k (Encoded (new_assignment now b w))) items) (snd ?c)"
  let ?M = "map_of (map (new_entry now) (filter (\<lambda>i. tab R s (fst i) = None) items))"
  have IH: "fst ?rest = map (\<lambda>i. tab R s (fst i) = None) items" "rok R (snd ?rest)" "cnt R (snd ?rest) = cnt R s"
      "actv R (snd ?rest) = actv R s" "tab R (snd ?rest) = tab R (snd ?c) ++ ?M"
    using Cons.IH [OF e(2)] Cons.prems(2) same e(4, 5) by (auto simp: split_def)
  have pipe: "pipeline (map (\<lambda>(k, b, w). HSETNX R assignments_key k (Encoded (new_assignment now b w))) (i # items)) s =
      (fst ?c # fst ?rest, snd ?rest)"
    by (simp add: i split_def Let_def)
  have "tab R (snd ?rest) = tab R s ++ map_of (map (new_entry now) (filter (\<lambda>i. tab R s (fst i) = None) (i # items)))"
  proof (cases "tab R s k = None")
    case True
    have "k \<notin> dom ?M" using ncl by (simp add: domIff)
    with True show ?thesis by (simp add: IH(5) e(3) i new_entry_def map_add_upd_left)
  next
    case False
    then show ?thesis by (auto simp: IH(5) e(3) i)
  qed
  then show ?case unfolding pipe prod.case using IH(1-4) e(1) i by simp
qed simp

lemma won_items: "won_items items (map P items) = filter P items"
  unfolding won_items_def by (induction items) auto

lemma bulk_items_keys: "map fst (bulk_items es) = keys es"
  by (auto simp: bulk_items_def)

lemma bulk_new_entries:
  "map_of (map (new_entry now) (filter (\<lambda>i. P (fst i)) (bulk_items es))) k =
     (if P k then map_option (\<lambda>e. new_assignment now (EntryBackend e) (norm_weight (EntryWeight e))) (map_of es k) else None)"
  by (induction es) (auto simp: bulk_items_def new_entry_def)

lemma bulk_assigned:
  "map_of (map (\<lambda>(k, b, w). (k, b)) (filter (\<lambda>i. P (fst i)) (bulk_items es))) k =
     (if P k then map_option EntryBackend (map_of es k) else None)"
  by (induction es) (auto simp: bulk_items_def)

lemma load_append: "load (xs @ ys) b = load xs b + load ys b"
  by (simp add: load_def)

lemma load_new_entries:
  "load (map (new_entry now) (filter P (bulk_items es))) b = count_in (add_counts (map snd (filter P (bulk_items es)))) b"
  by (induction es) (auto simp: count_in_add_counts bulk_items_def load_def new_entry_def)

lemma BulkAssign_effect:
  assumes ok: "rok R s" and net: "reliable net" and wf: "wf_map es"
  obtains m s' where "Redis_BulkAssign R net now es s = ((m, None), s')" and "rok R s'" and "actv R s' = actv R s"
    and "\<And>k. tab R s' k = (case tab R s k of Some a \<Rightarrow> Some a | None \<Rightarrow>
         map_option (\<lambda>e. new_assignment now (EntryBackend e) (norm_weight (EntryWeight e))) (map_of es k))"
    and "\<And>k. map_of m k = (if tab R s k = None then map_option EntryBackend (map_of es k) else None)"
    and "counts_match R s \<Longrightarrow> counts_match R s'"
proof -
  let ?items = "bulk_items es"
  let ?pipe = "pipeline (map (\<lambda>(k, b, w). HSETNX R assignments_key k (Encoded (new_assignment now b w))) ?items) s"
  let ?won = "filter (\<lambda>i. tab R s (fst i) = None) ?items"
  let ?counts = "add_counts (map snd ?won)"
  let ?s2 = "fold (\<lambda>(b, n). HINCRBY R counts_key b n) ?counts (snd ?pipe)"
  have d: "distinct (map fst ?items)" using wf by (simp add: bulk_items_keys)
  from pipeline_HSETNX [OF ok d, of now] have p: "fst ?pipe = map (\<lambda>i. tab R s (fst i) = None) ?items"
    "rok R (snd ?pipe)" "cnt R (snd ?pipe) = cnt R s" "actv R (snd ?pipe) = actv R s"
    "tab R (snd ?pipe) = tab R s ++ map_of (map (new_entry now) ?won)"
    by (auto simp: split_def)
  note h = fold_HINCRBY_effect [OF p(2) add_counts_wf [of "map snd ?won"], of "\<lambda>n. n"]
  have res: "Redis_BulkAssign R net now es s = ((map (\<lambda>(k, b, w). (k, b)) ?won, None), ?s2)"
  proof (cases "es = []")
    case True
    then show ?thesis by (simp add: Redis_BulkAssign_def bulk_items_def add_counts_def)
  next
    case False
    have "call net (pipeline (map (\<lambda>(k, b, w). HSETNX R assignments_key k (Encoded (new_assignment now b w))) ?items)) s =
        (Some (map (\<lambda>i. tab R s (fst i) = None) ?items), snd ?pipe)"
      using net p(1) by simp
    then show ?thesis
      using False net by (cases "?counts = []") (simp_all add: Redis_BulkAssign_def won_items Let_def)
  qed
  have tab2: "tab R ?s2 k = (case tab R s k of Some a \<Rightarrow> Some a | None \<Rightarrow>
         map_option (\<lambda>e. new_assignment now (EntryBackend e) (norm_weight (EntryWeight e))) (map_of es k))" for k
    using h p(5) bulk_new_entries [of now "\<lambda>k. tab R s k = None" es k] by (simp add: map_add_def split: option.split)
  have cm: "counts_match R ?s2" if "counts_match R s"
  proof (rule counts_matchI)
    let ?m = "map (new_entry now) ?won @ redis_table R s"
    have t: "wf_map (redis_table R s)" "map_of (redis_table R s) = tab R s"
      using redis_table ok by (auto simp: rok_def)
    have k: "map fst (map (new_entry now) ?won) = map fst ?won"
      by (simp add: new_entry_def split_def)
    have "set (map fst ?won) \<inter> set (keys (redis_table R s)) = {}"
      using t(2) by (force simp: map_of_eq_None_iff simp flip: t(2))
    then show "wf_map ?m" using t(1) k distinct_map_filter [OF d] by (simp del: map_map)
    show "map_of ?m = tab R ?s2" using t h p(5) by simp
    show "cnt R ?s2 b = load ?m b" for b
      using h p(3) that by (simp add: load_append load_new_entries counts_match_def count_in_def)
    show "rok R ?s2" using h by simp
  qed
  show ?thesis
    using that [OF res] h p tab2 cm bulk_assigned [of "\<lambda>k. tab R s k = None" es] by simp
qed

definition found_in :: "(string \<rightharpoonup> assignment) \<Rightarrow> string list \<Rightarrow> table" where
  "found_in t ks = concat (map (\<lambda>k. case t k of None \<Rightarrow> [] | Some a \<Rightarrow> [(k, a)]) ks)"

lemma found_in_keys: "set (keys (found_in t ks)) = set ks \<inter> dom t"
  unfolding found_in_def by (induction ks) (auto split: option.splits)

lemma load_fold_del:
  "wf_map m \<Longrightarrow> distinct ks \<Longrightarrow> load (fold del ks m) b = load m b - load (found_in (map_of m) ks) b"
proof (induction ks arbitrary: m)
  case (Cons k ks)
  have "found_in (map_of (del k m)) ks = found_in (map_of m) ks"
    using Cons.prems(2) by (auto simp: found_in_def gomap_simps intro!: arg_cong [where f = concat])
  moreover have "load (found_in (map_of m) (k # ks)) b =
      (case map_of m k of None \<Rightarrow> 0 | Some a \<Rightarrow> if Backend a = b then EffectiveWeight a else 0) +
      load (found_in (map_of m) ks) b"
    by (auto simp: found_in_def load_def split: option.split)
  ultimately show ?case using Cons by (simp add: load_del)
qed (simp add: found_in_def load_def)

lemma pipeline_reads: "pipeline (map (\<lambda>k s. (f k s, s)) ks) s = (map (\<lambda>k. f k s) ks, s)"
  by (induction ks) simp_all

lemma BulkDelete_effect:
  assumes ok: "rok R s" and net: "reliable net"
  obtains s' where "Redis_BulkDeleteAssignments R net ks s = (None, s')" and "rok R s'" and "actv R s' = actv R s"
    and "tab R s' = tab R s |` (- set ks)" and "\<And>b. cnt R s' b = cnt R s b - load (found_in (tab R s) ks) b"
proof -
  let ?found = "found_in (tab R s) ks"
  let ?counts = "add_counts (map (\<lambda>(k, a). (Backend a, EffectiveWeight a)) ?found)"
  let ?s1 = "HDEL R assignments_key (map fst ?found) s"
  let ?s2 = "fold (\<lambda>(b, n). HINCRBY R counts_key b (- n)) ?counts ?s1"
  have get: "HGET R assignments_key k s = map_option Encoded (tab R s k)" for k
    using ok by (simp add: view_simps rv_hash_tab rok_def)
  have found: "collect_found ks (map (\<lambda>k. HGET R assignments_key k s) ks) = ?found"
    unfolding found_in_def by (induction ks) (auto simp: get split: option.split)
  note h = fold_HINCRBY_effect [OF HDEL_effect(1) [OF ok, of "map fst ?found"] add_counts_wf, of uminus]
  have res: "Redis_BulkDeleteAssignments R net ks s = (None, if ?found = [] then s else ?s2)"
  proof (cases "ks = []")
    case False
    then show ?thesis
      using net by (simp add: Redis_BulkDeleteAssignments_def Let_def pipeline_reads found)
  qed (simp add: Redis_BulkDeleteAssignments_def found_in_def)
  have t: "tab R s |` (- set (map fst ?found)) = tab R s |` (- set ks)"
    using found_in_keys [of "tab R s" ks] by (fastforce simp: restrict_map_def fun_eq_iff)
  show ?thesis
  proof (cases "?found = []")
    case True
    have "k \<in> set ks \<Longrightarrow> tab R s k = None" for k using found_in_keys [of "tab R s" ks] True by (auto simp: domIff)
    then have "tab R s |` (- set ks) = tab R s" by (auto simp: restrict_map_def fun_eq_iff)
    then show ?thesis using that [OF res] True ok by (simp add: load_def)
  next
    case False
    have "cnt R ?s2 b = cnt R s b - load ?found b" for b
      using h HDEL_effect(3) [OF ok] add_counts_load [of ?found b]
      by (auto simp: count_in_def split: option.splits)
    then show ?thesis using that [OF res] False h HDEL_effect [OF ok, of "map fst ?found"] t by simp
  qed
qed

lemma BulkDelete_counts_match:
  assumes ok: "rok R s" and net: "reliable net" and "counts_match R s" and "distinct ks"
  shows "counts_match R (snd (Redis_BulkDeleteAssignments R net ks s))"
proof -
  obtain s' where s': "Redis_BulkDeleteAssignments R net ks s = (None, s')" "rok R s'"
    "tab R s' = tab R s |` (- set ks)" "\<And>b. cnt R s' b = cnt R s b - load (found_in (tab R s) ks) b"
    using BulkDelete_effect [OF ok net, of ks] by metis
  have t: "wf_map (redis_table R s)" "map_of (redis_table R s) = tab R s"
    using redis_table ok by (auto simp: rok_def)
  have "counts_match R s'"
  proof (rule counts_matchI [OF s'(2)])
    show "wf_map (fold del ks (redis_table R s))" using t by simp
    show "map_of (fold del ks (redis_table R s)) = tab R s'"
      using t s'(3) by (auto simp: map_of_fold_del restrict_map_def)
    show "cnt R s' b = load (fold del ks (redis_table R s)) b" for b
      using s'(4) t load_fold_del [OF t(1) assms(4)] assms(3) by (simp add: counts_match_def)
  qed
  with s'(1) show ?thesis by simp
qed

section \<open>Reconciliation and single deletion\<close>

lemma GetAll_effect:
  assumes "reliable net"
  shows "Redis_GetAllAssignments R net s = (Inr (redis_table R s), s)"
  by (simp add: Redis_GetAllAssignments_def assms redis_table_def)

lemma Reconcile_effect:
  assumes ok: "rok R s" and net: "reliable net"
  defines "s' \<equiv> snd (ReconcileAssignmentCounts R net s)"
  shows "rok R s' \<and> tab R s' = tab R s \<and> actv R s' = actv R s \<and> counts_match R s'"
proof -
  let ?counts = "add_counts (map (\<lambda>(k, a). (Backend a, EffectiveWeight a)) (redis_table R s))"
  let ?s1 = "DEL R counts_key s"
  note d = counts_reset_effect(1-4) [OF ok]
  have s': "s' = fold (\<lambda>(b, n). HSET R counts_key b (Number n)) ?counts ?s1"
    using net by (simp add: s'_def ReconcileAssignmentCounts_def GetAll_effect Let_def)
  have f: "rok R s' \<and> tab R s' = tab R ?s1 \<and> actv R s' = actv R ?s1 \<and>
      (\<forall>b. cnt R s' b = (case map_of ?counts b of None \<Rightarrow> cnt R ?s1 b | Some n \<Rightarrow> n))"
    unfolding s' by (rule fold_HSET_counts_effect [OF d(1) add_counts_wf])
  have doc: "redis_documented R" using ok by (simp add: rok_def)
  have "counts_match R s'"
  proof (rule counts_matchI)
    show "wf_map (redis_table R s)" "map_of (redis_table R s) = tab R s'"
      using redis_table [OF doc] f d by simp_all
    show "cnt R s' b = load (redis_table R s) b" for b
      using f d add_counts_load [of "redis_table R s" b] by (simp add: count_in_def split: option.splits)
    show "rok R s'" using f by simp
  qed
  then show ?thesis using f d by simp
qed

lemma DeleteAssignment_effect:
  assumes ok: "rok R s" and net: "reliable net"
  shows "case tab R s k of
      None \<Rightarrow> DeleteAssignment R net k s = (Some ErrNil, s)
    | Some a \<Rightarrow> DeleteAssignment R net k s = (None, drop_stale R k a s)"
proof -
  have "HGET R assignments_key k s = map_option Encoded (tab R s k)"
    using ok by (simp add: view_simps rv_hash_tab rok_def)
  then show ?thesis
    using net by (simp add: DeleteAssignment_def Redis_GetAssignment_def drop_stale_def EffectiveWeight_norm split: option.split)
qed

section \<open>Redis honours the store contract\<close>

definition redis_inv :: "'s redis_server \<Rightarrow> 's network \<Rightarrow> 's \<Rightarrow> bool" where
  "redis_inv R net s \<longleftrightarrow> rok R s \<and> reliable net"

lemma redis_registry:
  assumes "redis_inv R net s"
  shows "Redis_ActiveBackends R net s = (Inr (SMEMBERS R active_key s), s)"
    and "Redis_AddBackend R net b s = (None, SADD R active_key b s)"
    and "Redis_RemoveBackend R net b s = (None, SREM R active_key b s)"
  using assms by (simp_all add: redis_inv_def Redis_ActiveBackends_def Redis_AddBackend_def Redis_RemoveBackend_def status_of_def)

lemma AssignViaTable_law:
  assumes inv: "redis_inv R net s" and r: "AssignViaTable R net now k s = (Inr a, s')"
  shows "redis_inv R net s' \<and> actv R s' = actv R s \<and> tab R s' = (tab R s)(k \<mapsto> a) \<and>
    (Backend a \<in> actv R s \<or> tab R s k = Some a)"
proof -
  have ok: "rok R s" "reliable net" using inv by (simp_all add: redis_inv_def)
  note e = AssignViaTable_effect [OF ok, where k = k and now = now]
  consider (empty) "actv R s = {}" | (sticky) a0 where "tab R s k = Some a0" "Backend a0 \<in> actv R s"
    | (fresh) "actv R s \<noteq> {}" "\<not> (\<exists>a. tab R s k = Some a \<and> Backend a \<in> actv R s)"
    by blast
  then show ?thesis
  proof cases
    case empty
    with e(2) r show ?thesis by simp
  next
    case sticky
    with e(1) r inv show ?thesis by (auto simp: fun_eq_iff)
  next
    case fresh
    with e(3) r inv show ?thesis by (auto simp: redis_inv_def)
  qed
qed

interpretation rstore: assignment_store "redis_store R net" "redis_inv R net" "actv R" "tab R" for R :: "'s redis_server" and net
proof unfold_locales
  fix s s' bs b r q now k a a' asg us es m ks
  show "redis_inv R net s \<Longrightarrow> ActiveBackends (redis_store R net) s = (Inr bs, s') \<Longrightarrow>
      set bs = actv R s \<and> distinct bs \<and> redis_inv R net s' \<and> actv R s' = actv R s"
    by (auto simp: redis_store_def redis_registry view_simps redis_inv_def rok_def redis_documented_def)
  show "redis_inv R net s \<Longrightarrow> AddBackend (redis_store R net) b s = (None, s') \<Longrightarrow>
      redis_inv R net s' \<and> actv R s' = insert b (actv R s)"
    by (auto simp: redis_store_def redis_registry) (auto simp: redis_inv_def registry_effect)
  show "redis_inv R net s \<Longrightarrow> RemoveBackend (redis_store R net) b s = (None, s') \<Longrightarrow>
      redis_inv R net s' \<and> actv R s' = actv R s - {b}"
    by (auto simp: redis_store_def redis_registry) (auto simp: redis_inv_def registry_effect)
  show "redis_inv R net s \<Longrightarrow> AddBackend (redis_store R net) b s = (r, s') \<Longrightarrow> tab R s' = tab R s"
    "redis_inv R net s \<Longrightarrow> RemoveBackend (redis_store R net) b s = (r, s') \<Longrightarrow> tab R s' = tab R s"
    "redis_inv R net s \<Longrightarrow> ActiveBackends (redis_store R net) s = (q, s') \<Longrightarrow> tab R s' = tab R s"
    by (auto simp: redis_store_def redis_registry) (auto simp: redis_inv_def registry_effect)
  show "redis_inv R net s \<Longrightarrow> AssignLeastLoaded (redis_store R net) now k s = (Inr a, s') \<Longrightarrow>
      redis_inv R net s' \<and> actv R s' = actv R s \<and> tab R s' = (tab R s)(k \<mapsto> a) \<and> (Backend a \<in> actv R s \<or> tab R s k = Some a)"
    using AssignViaTable_law [of R net s now k a s'] by (simp add: redis_store_def)
  show "redis_inv R net s \<Longrightarrow> tab R s k = Some a \<Longrightarrow> Backend a \<in> actv R s \<Longrightarrow>
      AssignLeastLoaded (redis_store R net) now k s = (Inr a', s') \<Longrightarrow> a' = a"
    using AssignViaTable_effect(1) [where R = R and s = s and net = net and k = k and now = now and a = a] by (simp add: redis_store_def redis_inv_def)
  show "redis_inv R net s \<Longrightarrow> GetAllAssignments (redis_store R net) s = (Inr asg, s') \<Longrightarrow>
      wf_map asg \<and> map_of asg = tab R s \<and> redis_inv R net s' \<and> actv R s' = actv R s \<and> tab R s' = tab R s"
    using redis_table [of R s] by (auto simp: redis_store_def redis_inv_def GetAll_effect rok_def)
  show "redis_inv R net s \<Longrightarrow> GetBackendUsers (redis_store R net) b s = Some (Inr us, s') \<Longrightarrow>
      set us = {k. \<exists>a. tab R s k = Some a \<and> Backend a = b} \<and> redis_inv R net s' \<and> actv R s' = actv R s \<and> tab R s' = tab R s"
    using GetBackendUsers_effect [of R s net b] by (auto simp: redis_store_def redis_inv_def)
  show "redis_inv R net s \<Longrightarrow> wf_map es \<Longrightarrow> BulkAssign (redis_store R net) now es s = ((m, None), s') \<Longrightarrow>
      redis_inv R net s' \<and> actv R s' = actv R s \<and>
      (\<forall>k. tab R s' k = (case tab R s k of Some a \<Rightarrow> Some a | None \<Rightarrow>
         map_option (\<lambda>e. new_assignment now (EntryBackend e) (norm_weight (EntryWeight e))) (map_of es k))) \<and>
      (\<forall>k. map_of m k = (if tab R s k = None then map_option EntryBackend (map_of es k) else None))"
    by (rule BulkAssign_effect [of R s net es now]) (auto simp: redis_store_def redis_inv_def)
  show "redis_inv R net s \<Longrightarrow> BulkDeleteAssignments (redis_store R net) ks s = (None, s') \<Longrightarrow>
      redis_inv R net s' \<and> actv R s' = actv R s \<and> tab R s' = tab R s |` (- set ks)"
    by (rule BulkDelete_effect [of R s net ks]) (auto simp: redis_store_def redis_inv_def)
qed

section \<open>Properties\<close>

text \<open>A state to apply the properties to: two active backends, one assignment of weight 3.\<close>

definition demo_net :: "plain_redis network" where
  "demo_net s = (1, True, s)"

definition demo_assignment :: assignment where
  "demo_assignment = \<lparr>Backend = ''b1'', AssignedAt = 0, Source = ''assignment'', Weight = 3\<rparr>"

definition demo_redis :: plain_redis where
  "demo_redis = \<lparr>pr_hash = (\<lambda>_. [])(''assignments'' := [(''u'', Encoded demo_assignment)], ''assignment:counts'' := [(''b1'', Number 3)]),
     pr_set = (\<lambda>_. [])(''backends:active'' := [''b1'', ''b2'']), pr_str = []\<rparr>"

lemma demo_ok: "reliable demo_net" "rok plain_server demo_redis" "counts_match plain_server demo_redis"
  "tab plain_server demo_redis = [''u'' \<mapsto> demo_assignment]" "actv plain_server demo_redis = {''b1'', ''b2''}"
proof -
  have view: "view plain_server s = \<lparr>rv_hash = (\<lambda>k. map_of (pr_hash s k)), rv_set = (\<lambda>k. set (pr_set s k)), rv_str = map_of (pr_str s)\<rparr>" for s
    by (simp add: view_def plain_server_def)
  have all: "HGETALL plain_server k s = AList.clearjunk (pr_hash s k)" for k s
    by (simp add: plain_server_def)
  show "reliable demo_net" by (simp add: reliable_def demo_net_def)
  show "tab plain_server demo_redis = [''u'' \<mapsto> demo_assignment]"
    by (auto simp: v_tab_def view demo_redis_def fun_eq_iff)
  show "rok plain_server demo_redis"
    by (auto simp: rok_def plain_server_documented v_typed_def view demo_redis_def split: if_splits)
  show "counts_match plain_server demo_redis"
    by (auto simp: counts_match_def redis_table_def v_cnt_def view all demo_redis_def load_def
        EffectiveWeight_def demo_assignment_def)
  show "actv plain_server demo_redis = {''b1'', ''b2''}"
    by (auto simp: view demo_redis_def)
qed

text \<open>
  C5: Assignment through Redis is sticky and least-loaded. With the counts in step with the
  table, a routing key whose backend is active keeps its assignment and nothing is written;
  any other key (new, or bound to a backend that is gone) is bound to an active backend
  whose total weight, not counting the key itself, is minimal, the rest of the table is
  untouched and the counts stay in step; without active backends the call fails.
\<close>

theorem redis_assign_least_loaded:
  assumes "rok R s" and "reliable net" and "counts_match R s"
  shows "(\<forall>a. tab R s k = Some a \<longrightarrow> Backend a \<in> actv R s \<longrightarrow> AssignViaTable R net now k s = (Inr a, s)) \<and>
    (actv R s = {} \<longrightarrow> fst (AssignViaTable R net now k s) = Inl ErrNil) \<and>
    (actv R s \<noteq> {} \<longrightarrow> \<not> (\<exists>a. tab R s k = Some a \<and> Backend a \<in> actv R s) \<longrightarrow>
      (\<exists>b s'. AssignViaTable R net now k s = (Inr (new_assignment (rfc3339 now) b 1), s') \<and> b \<in> actv R s \<and>
        (\<forall>b' \<in> actv R s. load (del k (redis_table R s)) b \<le> load (del k (redis_table R s)) b') \<and>
        tab R s' = (tab R s)(k \<mapsto> new_assignment (rfc3339 now) b 1) \<and> actv R s' = actv R s \<and> counts_match R s'))"
proof -
  note e = AssignViaTable_effect [OF assms(1, 2), where k = k and now = now]
  note v = vacated_effect [OF assms(1), of k]
  have t: "wf_map (redis_table R s)" "map_of (redis_table R s) = tab R s" "redis_documented R"
    using redis_table assms(1) by (auto simp: rok_def)
  have "cnt R (vacated R k s) b = load (del k (redis_table R s)) b" for b
    using v(4) [OF assms(3)] redis_load [OF t(3), of "del k (redis_table R s)" "vacated R k s" b] t v(2)
    by (simp add: counts_match_def gomap_simps)
  with e assms(3) show ?thesis by (intro conjI allI impI) auto
qed

theorem redis_assign_least_loaded_witness:
  "AssignViaTable plain_server demo_net 7 ''u'' demo_redis = (Inr demo_assignment, demo_redis) \<and>
   (\<exists>b s'. AssignViaTable plain_server demo_net 7 ''v'' demo_redis = (Inr (new_assignment (rfc3339 7) b 1), s') \<and>
      b \<in> {''b1'', ''b2''})"
  using redis_assign_least_loaded [OF demo_ok(2, 1, 3), of "''u''" 7]
    redis_assign_least_loaded [OF demo_ok(2, 1, 3), of "''v''" 7] demo_ok(4, 5)
  by (auto simp: demo_assignment_def)

text \<open>Everything the proxy does to the table, as a history.\<close>

datatype redis_event =
    AssignEv instant string
  | BulkAssignEv instant bulk_entries
  | BulkDeleteEv "string list"
  | DeleteEv string
  | AddEv string
  | RemoveEv string
  | ReconcileEv

fun redis_step :: "'s redis_server \<Rightarrow> 's network \<Rightarrow> redis_event \<Rightarrow> 's \<Rightarrow> 's" where
  "redis_step R net (AssignEv now k) s = snd (AssignViaTable R net now k s)"
| "redis_step R net (BulkAssignEv now es) s = snd (Redis_BulkAssign R net now es s)"
| "redis_step R net (BulkDeleteEv ks) s = snd (Redis_BulkDeleteAssignments R net ks s)"
| "redis_step R net (DeleteEv k) s = snd (DeleteAssignment R net k s)"
| "redis_step R net (AddEv b) s = snd (Redis_AddBackend R net b s)"
| "redis_step R net (RemoveEv b) s = snd (Redis_RemoveBackend R net b s)"
| "redis_step R net ReconcileEv s = snd (ReconcileAssignmentCounts R net s)"

fun event_ok :: "redis_event \<Rightarrow> bool" where
  "event_ok (BulkAssignEv now es) = wf_map es"
| "event_ok (BulkDeleteEv ks) = distinct ks"
| "event_ok _ = True"

lemma counts_match_registry:
  assumes "rok R s" and "counts_match R s"
  shows "counts_match R (SADD R active_key b s)" and "counts_match R (SREM R active_key b s)"
proof -
  have t: "wf_map (redis_table R s)" "map_of (redis_table R s) = tab R s"
    using redis_table assms(1) by (auto simp: rok_def)
  show "counts_match R (SADD R active_key b s)"
    by (rule counts_matchI [OF _ t(1)]) (use assms t registry_effect [OF assms(1)] in \<open>auto simp: counts_match_def\<close>)
  show "counts_match R (SREM R active_key b s)"
    by (rule counts_matchI [OF _ t(1)]) (use assms t registry_effect [OF assms(1)] in \<open>auto simp: counts_match_def\<close>)
qed

lemma redis_step_counts:
  assumes ok: "rok R s" and net: "reliable net" and cm: "counts_match R s" and ev: "event_ok ev"
  shows "rok R (redis_step R net ev s) \<and> counts_match R (redis_step R net ev s)"
proof (cases ev)
  case (AssignEv now k)
  note e = AssignViaTable_effect [OF ok net, where k = k and now = now] and v = vacated_effect [OF ok, of k]
  then show ?thesis
    using ok cm AssignEv
    by (cases "actv R s = {}"; cases "\<exists>a. tab R s k = Some a \<and> Backend a \<in> actv R s") auto
next
  case (BulkAssignEv now es)
  with BulkAssign_effect [OF ok net, of es now] cm ev show ?thesis by (metis event_ok.simps(1) redis_step.simps(2) snd_conv)
next
  case (BulkDeleteEv ks)
  with BulkDelete_effect [OF ok net, of ks] BulkDelete_counts_match [OF ok net cm, of ks] ev show ?thesis
    by (metis event_ok.simps(2) redis_step.simps(3) snd_conv)
next
  case (DeleteEv k)
  then show ?thesis
    using DeleteAssignment_effect [OF ok net, of k] ok cm drop_stale_effect [OF ok, of k]
      counts_match_del [OF ok cm drop_stale_effect(1) [OF ok], of k]
    by (auto split: option.splits)
qed (use ok net cm registry_effect [OF ok] counts_match_registry [OF ok cm] Reconcile_effect [OF ok net]
     in \<open>simp_all add: redis_registry redis_inv_def\<close>)

text \<open>
  C6: The weight counters do not drift by themselves. On a connection that loses no command, from a
  state in which they agree with the table, after any sequence of assignments, bulk
  assignments, bulk deletions of distinct keys, single deletions, registrations, removals
  and reconciliations, the counter of every backend is the total effective weight of the
  assignments that name it. A key repeated in a bulk deletion makes them drift, and a pipeline of which a command is lost can.
\<close>

theorem redis_counts_never_drift:
  assumes "rok R s" and "reliable net" and "counts_match R s" and "list_all event_ok evs"
  shows "cnt R (fold (redis_step R net) evs s) b = load (redis_table R (fold (redis_step R net) evs s)) b"
proof -
  have "rok R s \<Longrightarrow> counts_match R s \<Longrightarrow> counts_match R (fold (redis_step R net) evs s)" for s
    using assms(4)
  proof (induction evs arbitrary: s)
    case (Cons ev evs)
    then show ?case using redis_step_counts [OF Cons.prems(1) assms(2) Cons.prems(2), of ev] by simp
  qed simp
  then show ?thesis using assms by (simp add: counts_match_def)
qed

theorem redis_counts_never_drift_witness:
  "cnt plain_server (fold (redis_step plain_server demo_net) [AssignEv 5 ''v'', BulkDeleteEv [''u'']] demo_redis) ''b1'' =
   load (redis_table plain_server (fold (redis_step plain_server demo_net) [AssignEv 5 ''v'', BulkDeleteEv [''u'']] demo_redis)) ''b1''"
  using redis_counts_never_drift [OF demo_ok(2, 1, 3), of "[AssignEv 5 ''v'', BulkDeleteEv [''u'']]" "''b1''"] by simp

text \<open>
  C16: Listing the users of a backend ends and is complete. On an undisturbed server the
  HSCAN loop returns, and it returns exactly the routing keys whose assignment names the
  backend (some of them possibly more than once).
\<close>

theorem redis_users_listed:
  assumes "rok R s" and "reliable net"
  shows "\<exists>us. GetBackendUsersFromTable R net b s = Some (Inr us, s) \<and>
    set us = {k. \<exists>a. tab R s k = Some a \<and> Backend a = b}"
  by (rule GetBackendUsers_effect [OF assms])

theorem redis_users_listed_witness:
  "\<exists>us. GetBackendUsersFromTable plain_server demo_net ''b1'' demo_redis = Some (Inr us, demo_redis) \<and> set us = {''u''}"
  using redis_users_listed [OF demo_ok(2, 1), of "''b1''"] demo_ok(4) by (auto simp: demo_assignment_def)

text \<open>
  C17: A key that is listed twice is subtracted twice. \<^verbatim>\<open>HSCAN\<close> may return a key more than
  once, and the users found by a scan go to \<^verbatim>\<open>BulkDeleteAssignments\<close> as they are: the
  assignment is deleted once, and the counter of its backend ends below the true total by
  the weight of the key for every repetition.
\<close>

theorem duplicate_delete_drifts:
  assumes "rok R s" and "reliable net" and "counts_match R s" and "tab R s k = Some a"
  shows "cnt R (snd (Redis_BulkDeleteAssignments R net (replicate (Suc n) k) s)) (Backend a) =
    load (redis_table R (snd (Redis_BulkDeleteAssignments R net (replicate (Suc n) k) s))) (Backend a)
      - int n * EffectiveWeight a"
proof -
  let ?ks = "replicate (Suc n) k"
  obtain s' where s': "Redis_BulkDeleteAssignments R net ?ks s = (None, s')" "rok R s'"
    "tab R s' = tab R s |` (- set ?ks)" "\<And>b. cnt R s' b = cnt R s b - load (found_in (tab R s) ?ks) b"
    using BulkDelete_effect [OF assms(1, 2), of ?ks] by metis
  have t: "wf_map (redis_table R s)" "map_of (redis_table R s) = tab R s"
    using redis_table assms(1) by (auto simp: rok_def)
  have "load (found_in (tab R s) (replicate m k)) (Backend a) = int m * EffectiveWeight a" for m
    using assms(4) by (induction m) (simp_all add: found_in_def load_def algebra_simps)
  from this [of "Suc n"] have "cnt R s' (Backend a) = cnt R s (Backend a) - int (Suc n) * EffectiveWeight a"
    using s'(4) by simp
  moreover have "load (redis_table R s') (Backend a) = load (del k (redis_table R s)) (Backend a)"
    using s'(2, 3) t by (intro redis_load) (auto simp: rok_def gomap_simps restrict_map_def)
  ultimately show ?thesis
    using s'(1) assms(3, 4) t load_del [OF t(1), of k "Backend a"]
    by (simp add: counts_match_def algebra_simps)
qed

theorem duplicate_delete_drifts_witness:
  "cnt plain_server (snd (Redis_BulkDeleteAssignments plain_server demo_net [''u'', ''u''] demo_redis)) ''b1'' =
   load (redis_table plain_server (snd (Redis_BulkDeleteAssignments plain_server demo_net [''u'', ''u''] demo_redis))) ''b1'' - 3"
  using duplicate_delete_drifts [OF demo_ok(2, 1, 3), of "''u''" demo_assignment 1] demo_ok(4)
  by (simp add: demo_assignment_def EffectiveWeight_def)

text \<open>
  A bulk deletion whose read phase fails reports success. If the pipeline that reads the
  assignments gets no reply, nothing is deleted and the result is still no error, so a
  drain or a rebalance goes on as if the assignments were gone.
\<close>

theorem unread_bulk_delete_reports_success:
  assumes "net s = (n, False, s)"
  shows "Redis_BulkDeleteAssignments R net ks s = (None, s)"
proof -
  have run: "((\<lambda>s. s) ^^ m) s = s" for m
    by (induction m) simp_all
  have "collect_found ks (map (\<lambda>_. None) ks) = []" for ks
    by (induction ks) simp_all
  then show ?thesis
    using assms run by (cases "n = 0") (simp_all add: Redis_BulkDeleteAssignments_def call_def pipeline_reads)
qed

theorem unread_bulk_delete_reports_success_witness:
  "Redis_BulkDeleteAssignments plain_server (\<lambda>s. (1, False, s)) [''u''] demo_redis = (None, demo_redis) \<and>
   tab plain_server demo_redis ''u'' = Some demo_assignment"
  using unread_bulk_delete_reports_success [of "\<lambda>s. (1, False, s)" demo_redis 1 plain_server "[''u'']"] demo_ok(4) by simp

end
