(* ===== verification/Transition_Lock.thy ===== *)
theory Transition_Lock
  imports Redis_Store
begin

text \<open>
  The lock that keeps drains and rebalances apart (transition.go) and its Redis
  implementation (redis.go, \<^verbatim>\<open>RedisDistributedLocker\<close>). A \<^verbatim>\<open>DistributedLocker\<close> is a record of
  its two methods over a shared state. \<^verbatim>\<open>Lock\<close> is two steps, the attempt on the distributed
  lock and the local mutex, and so is \<^verbatim>\<open>Unlock\<close>: the goroutines of all replicas are the
  processes of a transition system whose steps they are.
\<close>

record 'd locker_ops =
  TryLock :: "'d \<Rightarrow> (store_error + bool) \<times> 'd"
  DistUnlock :: "'d \<Rightarrow> store_error option \<times> 'd"

definition Lock_dist :: "'d locker_ops option \<Rightarrow> 'd \<Rightarrow> bool \<times> 'd" where
  "Lock_dist locker d =
     (case locker of
        None \<Rightarrow> (True, d)
      | Some lk \<Rightarrow>
          (case TryLock lk d of
             (Inl err, d) \<Rightarrow> (False, d)
           | (Inr acquired, d) \<Rightarrow> (acquired, d)))"

definition Unlock_dist :: "'d locker_ops option \<Rightarrow> 'd \<Rightarrow> 'd" where
  "Unlock_dist locker d = (case locker of None \<Rightarrow> d | Some lk \<Rightarrow> snd (DistUnlock lk d))"

text \<open>
  A process outside \<^verbatim>\<open>Lock\<close>, one that waits for the local mutex, one that runs its drain or
  rebalance, and one that has given the mutex back but not yet the distributed lock.
\<close>

datatype phase = Outside | Waiting | Critical | Leaving

record 'd lock_system =
  ls_dist :: 'd
  ls_phase :: "nat \<Rightarrow> phase"

text \<open>
  \<open>replica\<close> maps a process to the proxy replica it runs in; \<open>env\<close> is what else can happen
  to the shared state, such as the expiry of a key.
\<close>

definition mutex_free :: "(nat \<Rightarrow> nat) \<Rightarrow> nat \<Rightarrow> 'd lock_system \<Rightarrow> bool" where
  "mutex_free replica p s \<longleftrightarrow> (\<forall>q. replica q = replica p \<longrightarrow> ls_phase s q \<noteq> Critical)"

inductive lock_step ::
  "'d locker_ops option \<Rightarrow> (nat \<Rightarrow> nat) \<Rightarrow> ('d \<Rightarrow> 'd \<Rightarrow> bool) \<Rightarrow> 'd lock_system \<Rightarrow> 'd lock_system \<Rightarrow> bool"
  for locker replica env where
  try_lock: "ls_phase s p = Outside \<Longrightarrow> Lock_dist locker (ls_dist s) = (ok, d) \<Longrightarrow>
    lock_step locker replica env s
      (s\<lparr>ls_dist := d, ls_phase := (ls_phase s)(p := if ok then Waiting else Outside)\<rparr>)"
| take_mutex: "ls_phase s p = Waiting \<Longrightarrow> mutex_free replica p s \<Longrightarrow>
    lock_step locker replica env s (s\<lparr>ls_phase := (ls_phase s)(p := Critical)\<rparr>)"
| leave_mutex: "ls_phase s p = Critical \<Longrightarrow>
    lock_step locker replica env s (s\<lparr>ls_phase := (ls_phase s)(p := Leaving)\<rparr>)"
| unlock_dist: "ls_phase s p = Leaving \<Longrightarrow>
    lock_step locker replica env s
      (s\<lparr>ls_dist := Unlock_dist locker (ls_dist s), ls_phase := (ls_phase s)(p := Outside)\<rparr>)"
| environment: "env (ls_dist s) d \<Longrightarrow> lock_step locker replica env s (s\<lparr>ls_dist := d\<rparr>)"

definition lock_init :: "'d \<Rightarrow> 'd lock_system" where
  "lock_init d = \<lparr>ls_dist = d, ls_phase = (\<lambda>_. Outside)\<rparr>"

abbreviation lock_reach ::
  "'d locker_ops option \<Rightarrow> (nat \<Rightarrow> nat) \<Rightarrow> ('d \<Rightarrow> 'd \<Rightarrow> bool) \<Rightarrow> 'd \<Rightarrow> 'd lock_system \<Rightarrow> bool" where
  "lock_reach locker replica env d \<equiv> (lock_step locker replica env)\<^sup>*\<^sup>* (lock_init d)"

section \<open>What a distributed locker promises\<close>

locale distributed_locker =
  fixes lk :: "'d locker_ops" and inv :: "'d \<Rightarrow> bool" and held :: "'d \<Rightarrow> bool"
  assumes try_inv: "inv d \<Longrightarrow> TryLock lk d = (r, d') \<Longrightarrow> inv d'"
    and try_acquires: "inv d \<Longrightarrow> TryLock lk d = (Inr True, d') \<Longrightarrow> \<not> held d \<and> held d'"
    and try_keeps: "inv d \<Longrightarrow> held d \<Longrightarrow> TryLock lk d = (r, d') \<Longrightarrow> held d'"
    and unlock_inv: "inv d \<Longrightarrow> DistUnlock lk d = (e, d') \<Longrightarrow> inv d'"
begin

text \<open>At most one process is past the distributed lock, and then the lock is held.\<close>

definition exclusive :: "'d lock_system \<Rightarrow> bool" where
  "exclusive s \<longleftrightarrow> inv (ls_dist s) \<and>
     (\<forall>p. ls_phase s p \<noteq> Outside \<longrightarrow> held (ls_dist s)) \<and>
     (\<forall>p q. ls_phase s p \<noteq> Outside \<longrightarrow> ls_phase s q \<noteq> Outside \<longrightarrow> p = q)"

lemma exclusive_step:
  assumes env: "\<And>d d'. env d d' \<Longrightarrow> inv d \<Longrightarrow> inv d' \<and> (held d \<longrightarrow> held d')"
    and "lock_step (Some lk) replica env s s'" and ex: "exclusive s"
  shows "exclusive s'"
  using assms(2)
proof (cases rule: lock_step.cases)
  case (try_lock p ok d)
  obtain r d1 where t: "TryLock lk (ls_dist s) = (r, d1)" by (cases "TryLock lk (ls_dist s)")
  have inv: "inv (ls_dist s)" using ex by (simp add: exclusive_def)
  have d: "d = d1" and ok: "ok \<longrightarrow> r = Inr True"
    using try_lock(3) t by (auto simp: Lock_dist_def split: sum.splits)
  have "held (ls_dist s) \<Longrightarrow> held d" "inv d" "ok \<Longrightarrow> \<not> held (ls_dist s) \<and> held d"
    using try_keeps [OF inv _ t] try_inv [OF inv t] try_acquires [OF inv] t ok d by auto
  with ex try_lock(1, 2) show ?thesis by (auto simp: exclusive_def)
next
  case (unlock_dist p)
  then have "ls_phase s q = Outside" if "q \<noteq> p" for q
    using ex that by (auto simp: exclusive_def)
  moreover have "inv (Unlock_dist (Some lk) (ls_dist s))"
    using ex unlock_inv [of "ls_dist s" "fst (DistUnlock lk (ls_dist s))" "snd (DistUnlock lk (ls_dist s))"]
    by (simp add: exclusive_def Unlock_dist_def)
  ultimately show ?thesis using unlock_dist by (auto simp: exclusive_def)
next
  case (environment d)
  with env ex show ?thesis by (auto simp: exclusive_def)
qed (use ex in \<open>auto simp: exclusive_def split: if_splits\<close>)

lemma exclusive_reach:
  assumes "\<And>d d'. env d d' \<Longrightarrow> inv d \<Longrightarrow> inv d' \<and> (held d \<longrightarrow> held d')"
    and "inv d" and "lock_reach (Some lk) replica env d s"
  shows "exclusive s"
  using assms(3)
proof (induction rule: rtranclp_induct)
  case base
  show ?case using assms(2) by (simp add: exclusive_def lock_init_def)
next
  case (step s s')
  then show ?case using exclusive_step [OF assms(1)] by blast
qed

end

section \<open>The Redis locker\<close>

definition redisTransitionLockKey :: string where
  "redisTransitionLockKey = ''sticky-proxy:transition-lock''"

definition Redis_TryLock :: "'s redis_server \<Rightarrow> 's network \<Rightarrow> int \<Rightarrow> 's \<Rightarrow> (store_error + bool) \<times> 's" where
  "Redis_TryLock R net ttl s =
     (case call net (SETNX_EX R redisTransitionLockKey ''1'' ttl) s of
        (None, s) \<Rightarrow> (Inl ErrUnavailable, s)
      | (Some ok, s) \<Rightarrow> (Inr ok, s))"

definition Redis_Unlock :: "'s redis_server \<Rightarrow> 's network \<Rightarrow> 's \<Rightarrow> store_error option \<times> 's" where
  "Redis_Unlock R net s = status_of (call net (\<lambda>s. ((), DEL R redisTransitionLockKey s)) s)"

definition redis_locker :: "'s redis_server \<Rightarrow> 's network \<Rightarrow> int \<Rightarrow> 's locker_ops" where
  "redis_locker R net ttl = \<lparr>TryLock = Redis_TryLock R net ttl, DistUnlock = Redis_Unlock R net\<rparr>"

text \<open>
  The connection may lose requests and replies and repeat commands; it only must not
  change the server itself, which is what the other processes and the environment do.
\<close>

definition no_interference :: "'s network \<Rightarrow> bool" where
  "no_interference net \<longleftrightarrow> (\<forall>s. snd (snd (net s)) = s)"

definition lock_held :: "'s redis_server \<Rightarrow> 's \<Rightarrow> bool" where
  "lock_held R s \<longleftrightarrow> GET R redisTransitionLockKey s \<noteq> None"

definition locker_inv :: "'s redis_server \<Rightarrow> 's network \<Rightarrow> 's \<Rightarrow> bool" where
  "locker_inv R net s \<longleftrightarrow> redis_documented R \<and> no_interference net"

lemma setnx_held:
  assumes "redis_documented R"
  shows "fst (SETNX_EX R redisTransitionLockKey x ttl s) \<longleftrightarrow> \<not> lock_held R s"
    and "lock_held R (snd (SETNX_EX R redisTransitionLockKey x ttl s))"
proof -
  have v: "view R (snd (SETNX_EX R redisTransitionLockKey x ttl s)) =
      (if GET R redisTransitionLockKey s = None
       then (view R s)\<lparr>rv_str := (rv_str (view R s))(redisTransitionLockKey \<mapsto> x)\<rparr> else view R s)"
    and "fst (SETNX_EX R redisTransitionLockKey x ttl s) \<longleftrightarrow> GET R redisTransitionLockKey s = None"
    using assms by (simp_all add: redis_documented_def)
  then show "fst (SETNX_EX R redisTransitionLockKey x ttl s) \<longleftrightarrow> \<not> lock_held R s"
    by (simp add: lock_held_def)
  show "lock_held R (snd (SETNX_EX R redisTransitionLockKey x ttl s))"
    using v by (auto simp: lock_held_def view_simps)
qed

lemma setnx_repeat:
  assumes "redis_documented R"
  shows "lock_held R (((\<lambda>s. snd (SETNX_EX R redisTransitionLockKey x ttl s)) ^^ n) s) \<longleftrightarrow> lock_held R s \<or> 0 < n"
  by (induction n) (simp_all add: setnx_held [OF assms])

interpretation rlock: distributed_locker "redis_locker R net ttl" "locker_inv R net" "lock_held R"
  for R :: "'s redis_server" and net ttl
proof unfold_locales
  fix d d' r e
  let ?f = "SETNX_EX R redisTransitionLockKey ''1'' ttl"
  assume inv: "locker_inv R net d"
  then have doc: "redis_documented R" by (simp add: locker_inv_def)
  obtain n reply where net: "net d = (n, reply, d)"
    using inv by (cases "net d") (auto simp: locker_inv_def no_interference_def, metis snd_conv)
  show "TryLock (redis_locker R net ttl) d = (r, d') \<Longrightarrow> locker_inv R net d'"
    using inv by (simp add: locker_inv_def)
  show "DistUnlock (redis_locker R net ttl) d = (e, d') \<Longrightarrow> locker_inv R net d'"
    using inv by (simp add: locker_inv_def)
  show "TryLock (redis_locker R net ttl) d = (Inr True, d') \<Longrightarrow> \<not> lock_held R d \<and> lock_held R d'"
    using setnx_held [OF doc, of "''1''" ttl] setnx_repeat [OF doc, where x = "''1''" and ttl = ttl and n = "n - 1" and s = d] net
    by (auto simp: redis_locker_def Redis_TryLock_def call_def Let_def split: prod.splits if_splits) (metis fst_conv snd_conv)+
  show "lock_held R d \<Longrightarrow> TryLock (redis_locker R net ttl) d = (r, d') \<Longrightarrow> lock_held R d'"
    using setnx_held [OF doc, of "''1''" ttl] setnx_repeat [OF doc, where x = "''1''" and ttl = ttl and n = "n - 1" and s = d] net
    by (auto simp: redis_locker_def Redis_TryLock_def call_def Let_def split: prod.splits if_splits) (metis snd_conv)+
qed

text \<open>
  C22: Drains and rebalances never overlap while no lock expires. Over any number of replicas
  and goroutines, with requests and replies to Redis lost or repeated at will, at most one
  process is between a successful attempt on the distributed lock and its release, as long
  as nothing but the processes themselves removes the lock key.
\<close>

theorem transitions_exclusive:
  assumes "redis_documented R" and "no_interference net"
    and "\<And>d d'. env d d' \<Longrightarrow> lock_held R d \<Longrightarrow> lock_held R d'"
    and "lock_reach (Some (redis_locker R net ttl)) replica env d s"
  shows "\<forall>p q. ls_phase s p \<noteq> Outside \<longrightarrow> ls_phase s q \<noteq> Outside \<longrightarrow> p = q"
proof -
  have "rlock.exclusive R net s"
    by (rule rlock.exclusive_reach [OF _ _ assms(4)]) (use assms(1-3) in \<open>auto simp: locker_inv_def\<close>)
  then show ?thesis by (auto simp: rlock.exclusive_def)
qed

text \<open>One process on its way into the critical section, on a free lock.\<close>

lemma enter_critical:
  assumes doc: "redis_documented R" and net: "reliable net"
    and "\<not> lock_held R (ls_dist s)" and "ls_phase s p = Outside" and "\<forall>q. replica q = replica p \<longrightarrow> ls_phase s q = Outside"
  obtains s' where "(lock_step (Some (redis_locker R net ttl)) replica env)\<^sup>*\<^sup>* s s'"
    and "ls_phase s' = (ls_phase s)(p := Critical)" and "lock_held R (ls_dist s')"
proof -
  let ?L = "Some (redis_locker R net ttl)" and ?f = "SETNX_EX R redisTransitionLockKey ''1'' ttl"
  let ?s1 = "s\<lparr>ls_dist := snd (?f (ls_dist s)), ls_phase := (ls_phase s)(p := Waiting)\<rparr>"
  let ?s2 = "?s1\<lparr>ls_phase := (ls_phase ?s1)(p := Critical)\<rparr>"
  have "Lock_dist ?L (ls_dist s) = (True, snd (?f (ls_dist s)))"
    using net assms(3) setnx_held(1) [OF doc]
    by (simp add: Lock_dist_def redis_locker_def Redis_TryLock_def)
  from try_lock [OF assms(4) this] have 1: "lock_step ?L replica env s ?s1" by simp
  have "mutex_free replica p ?s1" using assms(5) by (auto simp: mutex_free_def)
  then have 2: "lock_step ?L replica env ?s1 ?s2" by (intro take_mutex) simp_all
  show ?thesis
    by (rule that [of ?s2])
       (use 1 2 setnx_held(2) [OF doc] in \<open>auto intro: rtranclp.rtrancl_into_rtrancl\<close>)
qed

theorem transitions_exclusive_witness:
  "\<exists>s. lock_reach (Some (redis_locker plain_server demo_net 30)) (\<lambda>p. p) (\<lambda>_ _. False) plain_empty s \<and>
     ls_phase s 0 = Critical \<and> (\<forall>p q. ls_phase s p \<noteq> Outside \<longrightarrow> ls_phase s q \<noteq> Outside \<longrightarrow> p = q)"
proof -
  have free: "\<not> lock_held plain_server (ls_dist (lock_init plain_empty))"
    by (simp add: lock_held_def plain_server_def plain_empty_def lock_init_def)
  have outside: "ls_phase (lock_init plain_empty) 0 = Outside"
    and outside': "\<forall>q :: nat. q = 0 \<longrightarrow> ls_phase (lock_init plain_empty) q = Outside"
    by (simp_all add: lock_init_def)
  obtain s where s: "lock_reach (Some (redis_locker plain_server demo_net 30)) (\<lambda>p. p) (\<lambda>_ _. False) plain_empty s"
    "ls_phase s = (ls_phase (lock_init plain_empty))(0 := Critical)"
    by (rule enter_critical [where s = "lock_init plain_empty" and p = 0 and replica = "\<lambda>p. p" and ttl = 30
          and env = "\<lambda>_ _. False", OF plain_server_documented demo_ok(1) free outside outside']) (rule that)
  have "no_interference demo_net" by (simp add: no_interference_def demo_net_def)
  then have "\<forall>p q. ls_phase s p \<noteq> Outside \<longrightarrow> ls_phase s q \<noteq> Outside \<longrightarrow> p = q"
    by (rule transitions_exclusive [OF plain_server_documented _ _ s(1)]) simp
  moreover have "ls_phase s 0 = Critical" using s(2) by simp
  ultimately show ?thesis using s(1) by blast
qed

text \<open>
  The lease does not protect a transition that outlives it. If the lock key can expire,
  two replicas can be in their critical sections at the same time: nothing renews the key,
  and the holder does not notice that it is gone.
\<close>

theorem expired_lease_breaks_exclusion:
  assumes "redis_documented R" and "reliable net" and "\<not> lock_held R d" and "replica p \<noteq> replica q"
    and "\<And>d. \<exists>d'. env d d' \<and> \<not> lock_held R d'"
  shows "\<exists>s. lock_reach (Some (redis_locker R net ttl)) replica env d s \<and>
    ls_phase s p = Critical \<and> ls_phase s q = Critical"
proof -
  let ?step = "lock_step (Some (redis_locker R net ttl)) replica env"
  obtain s1 where s1: "lock_reach (Some (redis_locker R net ttl)) replica env d s1"
    "ls_phase s1 = (ls_phase (lock_init d))(p := Critical)"
  proof (rule enter_critical [OF assms(1, 2)])
    show "\<not> lock_held R (ls_dist (lock_init d))" "ls_phase (lock_init d) p = Outside"
      "\<forall>q. replica q = replica p \<longrightarrow> ls_phase (lock_init d) q = Outside"
      using assms(3) by (simp_all add: lock_init_def)
  qed (rule that)
  obtain d' where d': "env (ls_dist s1) d'" "\<not> lock_held R d'" using assms(5) by blast
  let ?s2 = "s1\<lparr>ls_dist := d'\<rparr>"
  have 2: "?step s1 ?s2" using d' by (intro environment)
  obtain s3 where s3: "?step\<^sup>*\<^sup>* ?s2 s3" "ls_phase s3 = (ls_phase ?s2)(q := Critical)"
  proof (rule enter_critical [OF assms(1, 2)])
    show "\<not> lock_held R (ls_dist ?s2)" using d' by simp
    show "ls_phase ?s2 q = Outside" "\<forall>r. replica r = replica q \<longrightarrow> ls_phase ?s2 r = Outside"
      using s1(2) assms(4) by (auto simp: lock_init_def)
  qed (rule that)
  have "lock_reach (Some (redis_locker R net ttl)) replica env d s3"
    using s1(1) 2 s3(1) by (meson rtranclp.rtrancl_into_rtrancl rtranclp_trans)
  moreover have "p \<noteq> q" using assms(4) by auto
  ultimately show ?thesis using s1(2) s3(2) by auto
qed

theorem expired_lease_breaks_exclusion_witness:
  "\<exists>s. lock_reach (Some (redis_locker plain_server demo_net 30)) (\<lambda>p. p)
       (\<lambda>d d'. d' = DEL plain_server redisTransitionLockKey d) plain_empty s \<and>
     ls_phase s 0 = Critical \<and> ls_phase s 1 = Critical"
  by (rule expired_lease_breaks_exclusion [OF plain_server_documented demo_ok(1)])
     (auto simp: lock_held_def plain_server_def plain_empty_def gomap_simps)

end
