(* ===== verification/Redis_Sticky.thy ===== *)
theory Redis_Sticky
  imports Redis_Store Redis_Breaker
begin

text \<open>
  The sticky keys of hash mode (redis.go and sticky.lua): one string key "sticky:<user>" per
  user holds the backend. \<^verbatim>\<open>AssignBackend\<close> combines the script with the circuit breaker and
  the CRC-32 fallback over the cached backend list.
\<close>

definition sticky_key :: "string \<Rightarrow> string" where
  "sticky_key userID = ''sticky:'' @ userID"

definition sticky_lua :: "'s redis_server \<Rightarrow> string \<Rightarrow> int \<Rightarrow> u32 \<Rightarrow> 's \<Rightarrow> string option \<times> 's" where
  "sticky_lua R key ttl hash s =
     (case GET R key s of
        Some existing \<Rightarrow> (Some existing, s)
      | None \<Rightarrow>
          let backends = SMEMBERS R active_key s
          in if backends = [] then (None, s)
             else
               let backend = backends ! (unat hash mod length backends)
               in (Some backend, snd (SETNX_EX R key backend ttl s)))"

text \<open>
  The result is \<^const>\<open>None\<close> for the panic of an index out of range, otherwise the backend or the
  error. A script that answers nil is reported by the client library as an error.
\<close>

definition AssignBackend ::
  "'s redis_server \<Rightarrow> 's network \<Rightarrow> instant \<Rightarrow> instant \<Rightarrow> string \<Rightarrow> u32 \<Rightarrow> redis_cb \<times> 's \<Rightarrow>
   (store_error + string) option \<times> redis_cb \<times> 's" where
  "AssignBackend R net now now' userID hash = (\<lambda>(r, s).
     case isCBOpen now r of
       (cb_open, r) \<Rightarrow>
         if cb_open \<and> hashFallback hash r \<noteq> Some [] then (map_option Inr (hashFallback hash r), r, s)
         else
           (case call net (sticky_lua R (sticky_key userID) 86400 hash) s of
              (Some (Some backend), s) \<Rightarrow> (Some (Inr backend), recordCBSuccess r, s)
            | (res, s) \<Rightarrow>
                let r = recordCBFailure now' r
                in if hashFallback hash r \<noteq> Some [] then (map_option Inr (hashFallback hash r), r, s)
                   else (Some (Inl (if res = None then ErrUnavailable else ErrNil)), r, s)))"

definition sticky_match :: "'s redis_server \<Rightarrow> 's network \<Rightarrow> string \<Rightarrow> string \<Rightarrow> 's \<Rightarrow> bool \<times> 's" where
  "sticky_match R net backend key s =
     (case call net (\<lambda>s. (GET R key s, s)) s of
        (Some (Some val), s) \<Rightarrow> (val = backend, s)
      | (_, s) \<Rightarrow> (False, s))"

fun sticky_page_users ::
  "'s redis_server \<Rightarrow> 's network \<Rightarrow> string \<Rightarrow> string list \<Rightarrow> 's \<Rightarrow> string list \<times> 's" where
  "sticky_page_users R net backend [] s = ([], s)"
| "sticky_page_users R net backend (key # ks) s =
     (let (hit, s) = sticky_match R net backend key s;
          (users, s) = sticky_page_users R net backend ks s
      in (if hit then drop (length ''sticky:'') key # users else users, s))"

partial_function (option) sticky_users_loop ::
  "'s redis_server \<Rightarrow> 's network \<Rightarrow> string \<Rightarrow> string list \<Rightarrow> nat \<Rightarrow> 's \<Rightarrow> ((store_error + string list) \<times> 's) option" where
  "sticky_users_loop R net backend users cursor s =
     (case call net (\<lambda>s. (SCAN_keys R ''sticky:'' cursor s, s)) s of
        (None, s) \<Rightarrow> Some (Inl ErrUnavailable, s)
      | (Some (ks, next), s) \<Rightarrow>
          (case sticky_page_users R net backend ks s of
             (us, s) \<Rightarrow>
               if next = 0 then Some (Inr (users @ us), s)
               else sticky_users_loop R net backend (users @ us) next s))"

definition GetUsersForBackend ::
  "'s redis_server \<Rightarrow> 's network \<Rightarrow> string \<Rightarrow> 's \<Rightarrow> ((store_error + string list) \<times> 's) option" where
  "GetUsersForBackend R net backend s = sticky_users_loop R net backend [] 0 s"

fun sticky_page_delete :: "'s redis_server \<Rightarrow> 's network \<Rightarrow> string \<Rightarrow> string list \<Rightarrow> 's \<Rightarrow> 's" where
  "sticky_page_delete R net backend [] s = s"
| "sticky_page_delete R net backend (key # ks) s =
     (let (hit, s) = sticky_match R net backend key s;
          s = (if hit then snd (call net (\<lambda>s. ((), DEL R key s)) s) else s)
      in sticky_page_delete R net backend ks s)"

partial_function (option) sticky_delete_loop ::
  "'s redis_server \<Rightarrow> 's network \<Rightarrow> string \<Rightarrow> nat \<Rightarrow> 's \<Rightarrow> (store_error option \<times> 's) option" where
  "sticky_delete_loop R net backend cursor s =
     (case call net (\<lambda>s. (SCAN_keys R ''sticky:'' cursor s, s)) s of
        (None, s) \<Rightarrow> Some (Some ErrUnavailable, s)
      | (Some (ks, next), s) \<Rightarrow>
          let s = sticky_page_delete R net backend ks s
          in if next = 0 then Some (None, s) else sticky_delete_loop R net backend next s)"

definition Redis_InvalidateBackend ::
  "'s redis_server \<Rightarrow> 's network \<Rightarrow> string \<Rightarrow> 's \<Rightarrow> (store_error option \<times> 's) option" where
  "Redis_InvalidateBackend R net backend s = sticky_delete_loop R net backend 0 s"

definition BulkDeleteSticky ::
  "'s redis_server \<Rightarrow> 's network \<Rightarrow> string list \<Rightarrow> 's \<Rightarrow> store_error option \<times> 's" where
  "BulkDeleteSticky R net userIDs s =
     (if userIDs = [] then (None, s)
      else status_of (call net (\<lambda>s. ((), fold (\<lambda>u. DEL R (sticky_key u)) userIDs s)) s))"

section \<open>Assignment with fallback\<close>

lemma sticky_lua_member:
  assumes "GET R key s = None" and "SMEMBERS R active_key s \<noteq> []"
  shows "\<exists>b \<in> set (SMEMBERS R active_key s). fst (sticky_lua R key ttl hash s) = Some b"
  using assms by (simp add: sticky_lua_def Let_def)

lemma sticky_lua_sticks:
  assumes "redis_documented R" and "sticky_lua R key ttl hash s = (Some b, s')"
  shows "sticky_lua R key ttl' hash' s' = (Some b, s')"
proof (cases "GET R key s")
  case None
  have "view R (snd (SETNX_EX R key x ttl s)) = (view R s)\<lparr>rv_str := (rv_str (view R s))(key \<mapsto> x)\<rparr>" for x
    using assms(1) None by (simp add: redis_documented_def)
  with assms(2) None have "GET R key s' = Some b"
    by (auto simp: sticky_lua_def Let_def view_simps split: if_splits)
  then show ?thesis by (simp add: sticky_lua_def)
next
  case (Some x)
  with assms(2) show ?thesis by (auto simp: sticky_lua_def)
qed

text \<open>
  A failing Redis does not stop routing once the proxy has seen a backend list. Whatever
  the connection does and whatever state the breaker is in, \<^verbatim>\<open>AssignBackend\<close> answers a backend:
  the one in Redis, or the fallback slot of the cached list, a member of that list that
  depends on the user's hash and the list alone.
\<close>

theorem assign_backend_total:
  assumes "cachedBackends r \<noteq> []" and "length (cachedBackends r) < 2 ^ 32" and "[] \<notin> set (cachedBackends r)"
  shows "\<exists>b r' s'. AssignBackend R net now now' user hash (r, s) = (Some (Inr b), r', s') \<and>
    (b \<in> set (cachedBackends r) \<and> hashFallback hash r = Some b \<or>
     (\<exists>s0. sticky_lua R (sticky_key user) 86400 hash s0 = (Some b, s')))"
proof -
  obtain b where b: "b \<in> set (cachedBackends r)" "hashFallback hash r = Some b"
    using hashFallback_member [OF assms(1, 2)] by blast
  have ne: "b \<noteq> []" using b(1) assms(3) by auto
  obtain o1 r1 where o: "isCBOpen now r = (o1, r1)" by (cases "isCBOpen now r")
  have c1: "cachedBackends r1 = cachedBackends r" using o by (auto simp: isCBOpen_def split: cb_state.splits if_splits)
  have fb: "cachedBackends q = cachedBackends r \<Longrightarrow> hashFallback hash q = Some b" for q
    using b(2) by (auto simp: hashFallback_def split: if_splits)
  have c2: "cachedBackends (recordCBFailure now' r1) = cachedBackends r"
    using c1 by (simp add: recordCBFailure_def Let_def)
  obtain res s1 where c: "call net (sticky_lua R (sticky_key user) 86400 hash) s = (res, s1)"
    by (cases "call net (sticky_lua R (sticky_key user) 86400 hash) s")
  have src: "\<exists>s0. sticky_lua R (sticky_key user) 86400 hash s0 = (Some x, s1)" if "res = Some (Some x)" for x
    using c that by (auto simp: call_def Let_def split: prod.splits if_splits)
  show ?thesis
  proof (cases "o1 \<or> (\<nexists>x. res = Some (Some x))")
    case True
    then show ?thesis
      using o c fb [OF c1] fb [OF c2] ne b by (auto simp: AssignBackend_def Let_def split: option.splits)
  next
    case False
    with o c src show ?thesis by (auto simp: AssignBackend_def)
  qed
qed

theorem assign_backend_total_witness:
  "\<exists>b r' s'. AssignBackend plain_server (\<lambda>s. (0, False, s)) 5 5 ''u'' 7
     ((NewRedis 3 30)\<lparr>cachedBackends := [''b1'', ''b2'']\<rparr>, plain_empty) = (Some (Inr b), r', s') \<and>
   (b \<in> {''b1'', ''b2''} \<or> (\<exists>s0. sticky_lua plain_server (sticky_key ''u'') 86400 7 s0 = (Some b, s')))"
  using assign_backend_total [of "(NewRedis 3 30)\<lparr>cachedBackends := [''b1'', ''b2'']\<rparr>" plain_server
      "\<lambda>s. (0, False, s)" 5 5 "''u''" 7 plain_empty] by auto

section \<open>Listing\<close>

lemma sticky_page_users_reliable:
  "reliable net \<Longrightarrow> sticky_page_users R net b ks s =
     (map (drop (length ''sticky:'')) (filter (\<lambda>k. GET R k s = Some b) ks), s)"
  by (induction ks) (auto simp: sticky_match_def split: option.splits)

lemma sticky_users_loop_scan:
  assumes "reliable net"
  shows "scan_pages (\<lambda>c. SCAN_keys R ''sticky:'' c s) n c = Some xs \<Longrightarrow>
    sticky_users_loop R net b us c s =
      Some (Inr (us @ map (drop (length ''sticky:'')) (filter (\<lambda>k. GET R k s = Some b) xs)), s)"
proof (induction n arbitrary: us c xs)
  case (Suc n)
  obtain page c' where p: "SCAN_keys R ''sticky:'' c s = (page, c')" by (cases "SCAN_keys R ''sticky:'' c s")
  show ?case
  proof (cases "c' = 0")
    case True
    with Suc.prems p show ?thesis
      by (subst sticky_users_loop.simps) (simp add: assms sticky_page_users_reliable)
  next
    case False
    with Suc.prems p obtain ys where ys: "scan_pages (\<lambda>c. SCAN_keys R ''sticky:'' c s) n c' = Some ys" "xs = page @ ys" by auto
    from Suc.IH [OF ys(1)] False p ys(2) show ?thesis
      by (subst sticky_users_loop.simps) (simp add: assms sticky_page_users_reliable)
  qed
qed simp

lemma GetUsersForBackend_exact:
  assumes "redis_documented R" and "reliable net"
  shows "\<exists>us. GetUsersForBackend R net b s = Some (Inr us, s) \<and> set us = {u. GET R (sticky_key u) s = Some b}"
proof -
  obtain n xs where n: "scan_pages (\<lambda>c. SCAN_keys R ''sticky:'' c s) n 0 = Some xs"
    and xs: "set xs = {k. GET R k s \<noteq> None \<and> (\<exists>u. k = ''sticky:'' @ u)}"
    using assms(1) unfolding redis_documented_def by (elim conjE) meson
  have "set (map (drop (length ''sticky:'')) (filter (\<lambda>k. GET R k s = Some b) xs)) = {u. GET R (sticky_key u) s = Some b}"
    by (force simp: xs sticky_key_def)
  with sticky_users_loop_scan [OF assms(2) n, of b "[]"] show ?thesis
    by (simp add: GetUsersForBackend_def del: set_map)
qed

end
