(* ===== verification/Proxy_World.thy ===== *)
theory Proxy_World
  imports Redis_Sticky User_Cache Hold_Manager Conn_Tracker Rebalance_Strategy
begin

text \<open>
  What a drain, a rebalance and an eviction act on: the store, the local cache, the holds,
  the connection tracker, and what they send out (hooks, cache invalidations, closed and
  swapped WebSocket bridges). The collaborators that the constructors take as pointers are
  the fields of \<open>deps\<close>; a collaborator that may be nil is an option or a flag.
\<close>

record 's sticky_ops =
  StickyUsers :: "string \<Rightarrow> 's \<Rightarrow> ((store_error + string list) \<times> 's) option"
  StickyDelete :: "string list \<Rightarrow> 's \<Rightarrow> store_error option \<times> 's"
  StickyInvalidate :: "string \<Rightarrow> 's \<Rightarrow> (store_error option \<times> 's) option"

definition redis_sticky :: "'s redis_server \<Rightarrow> 's network \<Rightarrow> 's sticky_ops" where
  "redis_sticky R net = \<lparr>StickyUsers = GetUsersForBackend R net, StickyDelete = BulkDeleteSticky R net,
     StickyInvalidate = Redis_InvalidateBackend R net\<rparr>"

record 's deps =
  d_store :: "'s store_ops"
  d_redis :: "'s sticky_ops option"
  d_routingMode :: string
  d_hooks :: bool
  d_connTracker :: bool
  d_holdMgr :: bool
  d_notifier :: bool
  d_wsSwap :: bool

datatype hook_call = UnassignHook string "string list" | AssignHook string "string list"

record 's world =
  w_store :: 's
  w_cache :: user_cache
  w_holds :: hold_manager
  w_conns :: conn_tracker
  w_hooks :: "hook_call list"
  w_published :: "string list"
  w_closed :: "bridge_id list"
  w_swapped :: "(bridge_id \<times> string) list"

definition send_hook :: "'s deps \<Rightarrow> hook_call \<Rightarrow> 's world \<Rightarrow> 's world" where
  "send_hook dp h w = (if d_hooks dp then w\<lparr>w_hooks := w_hooks w @ [h]\<rparr> else w)"

definition publishNotification :: "'s deps \<Rightarrow> string \<Rightarrow> 's world \<Rightarrow> 's world" where
  "publishNotification dp backend w =
     (if \<not> d_notifier dp then w else w\<lparr>w_published := w_published w @ [backend]\<rparr>)"

definition close_conns :: "'s deps \<Rightarrow> string \<Rightarrow> 's world \<Rightarrow> 's world" where
  "close_conns dp key w =
     (if d_connTracker dp
      then w\<lparr>w_conns := snd (CloseConns key (w_conns w)), w_closed := w_closed w @ fst (CloseConns key (w_conns w))\<rparr>
      else w)"

definition swap_conns :: "'s deps \<Rightarrow> string \<Rightarrow> string \<Rightarrow> 's world \<Rightarrow> 's world" where
  "swap_conns dp key backend w =
     (if d_connTracker dp then w\<lparr>w_swapped := w_swapped w @ SwapConns key backend (w_conns w)\<rparr> else w)"

definition invalidate_key :: "string \<Rightarrow> 's world \<Rightarrow> 's world" where
  "invalidate_key key w = w\<lparr>w_cache := UserCache_Invalidate key (w_cache w)\<rparr>"

definition mark_holds :: "'s deps \<Rightarrow> string list \<Rightarrow> 's world \<Rightarrow> 's world" where
  "mark_holds dp ks w = (if d_holdMgr dp then w\<lparr>w_holds := MarkTransition ks (w_holds w)\<rparr> else w)"

definition clear_holds :: "'s deps \<Rightarrow> string list \<Rightarrow> 's world \<Rightarrow> 's world" where
  "clear_holds dp ks w = (if d_holdMgr dp then w\<lparr>w_holds := ClearTransition ks (w_holds w)\<rparr> else w)"

section \<open>Frame lemmas\<close>

text \<open>Each effect touches its own part of the world only.\<close>

lemma send_hook_frame [simp]:
  "w_store (send_hook dp h w) = w_store w" "w_cache (send_hook dp h w) = w_cache w"
  "w_holds (send_hook dp h w) = w_holds w" "w_conns (send_hook dp h w) = w_conns w"
  "w_published (send_hook dp h w) = w_published w" "w_closed (send_hook dp h w) = w_closed w"
  "w_swapped (send_hook dp h w) = w_swapped w"
  by (simp_all add: send_hook_def)

lemma publish_frame [simp]:
  "w_store (publishNotification dp b w) = w_store w" "w_cache (publishNotification dp b w) = w_cache w"
  "w_holds (publishNotification dp b w) = w_holds w" "w_conns (publishNotification dp b w) = w_conns w"
  "w_hooks (publishNotification dp b w) = w_hooks w" "w_closed (publishNotification dp b w) = w_closed w"
  "w_swapped (publishNotification dp b w) = w_swapped w"
  by (simp_all add: publishNotification_def)

lemma close_conns_frame [simp]:
  "w_store (close_conns dp k w) = w_store w" "w_cache (close_conns dp k w) = w_cache w"
  "w_holds (close_conns dp k w) = w_holds w" "w_hooks (close_conns dp k w) = w_hooks w"
  "w_published (close_conns dp k w) = w_published w" "w_swapped (close_conns dp k w) = w_swapped w"
  by (simp_all add: close_conns_def)

lemma swap_conns_frame [simp]:
  "w_store (swap_conns dp k b w) = w_store w" "w_cache (swap_conns dp k b w) = w_cache w"
  "w_holds (swap_conns dp k b w) = w_holds w" "w_hooks (swap_conns dp k b w) = w_hooks w"
  "w_published (swap_conns dp k b w) = w_published w" "w_closed (swap_conns dp k b w) = w_closed w"
  "w_conns (swap_conns dp k b w) = w_conns w"
  by (simp_all add: swap_conns_def)

lemma invalidate_key_frame [simp]:
  "w_store (invalidate_key k w) = w_store w" "w_holds (invalidate_key k w) = w_holds w"
  "w_conns (invalidate_key k w) = w_conns w" "w_hooks (invalidate_key k w) = w_hooks w"
  "w_published (invalidate_key k w) = w_published w" "w_closed (invalidate_key k w) = w_closed w"
  "w_swapped (invalidate_key k w) = w_swapped w"
  by (simp_all add: invalidate_key_def)

lemma holds_frame [simp]:
  "w_store (mark_holds dp ks w) = w_store w" "w_cache (mark_holds dp ks w) = w_cache w"
  "w_conns (mark_holds dp ks w) = w_conns w" "w_hooks (mark_holds dp ks w) = w_hooks w"
  "w_published (mark_holds dp ks w) = w_published w" "w_closed (mark_holds dp ks w) = w_closed w"
  "w_swapped (mark_holds dp ks w) = w_swapped w"
  "w_store (clear_holds dp ks w) = w_store w" "w_cache (clear_holds dp ks w) = w_cache w"
  "w_conns (clear_holds dp ks w) = w_conns w" "w_hooks (clear_holds dp ks w) = w_hooks w"
  "w_published (clear_holds dp ks w) = w_published w" "w_closed (clear_holds dp ks w) = w_closed w"
  "w_swapped (clear_holds dp ks w) = w_swapped w"
  by (simp_all add: mark_holds_def clear_holds_def)

section \<open>Effects over lists of keys\<close>

lemma cached_invalidate_key [simp]: "cached (w_cache (invalidate_key k w)) t = (cached (w_cache w) t)(k := None)"
  by (simp add: invalidate_key_def)

text \<open>What invalidating and closing the keys of a list leaves behind.\<close>

definition release_keys :: "'s deps \<Rightarrow> string list \<Rightarrow> 's world \<Rightarrow> 's world" where
  "release_keys dp ks w = fold (\<lambda>k w. close_conns dp k (invalidate_key k w)) ks w"

lemma release_keys_frame [simp]:
  "w_store (release_keys dp ks w) = w_store w" "w_holds (release_keys dp ks w) = w_holds w"
  "w_hooks (release_keys dp ks w) = w_hooks w" "w_published (release_keys dp ks w) = w_published w"
  "w_swapped (release_keys dp ks w) = w_swapped w"
  unfolding release_keys_def by (induction ks arbitrary: w) simp_all

lemma cached_release_keys:
  "cached (w_cache (release_keys dp ks w)) t k = (if k \<in> set ks then None else cached (w_cache w) t k)"
proof -
  have "cached (w_cache (release_keys dp ks w)) t k = None"
    if "k \<in> set ks \<or> cached (w_cache w) t k = None" using that
    unfolding release_keys_def by (induction ks arbitrary: w) auto
  moreover have "cached (w_cache (release_keys dp ks w)) t k = cached (w_cache w) t k" if "k \<notin> set ks"
    using that unfolding release_keys_def by (induction ks arbitrary: w) auto
  ultimately show ?thesis by auto
qed

lemma registered_release_keys:
  assumes "d_connTracker dp"
  shows "registered (w_conns (release_keys dp ks w)) = {p \<in> registered (w_conns w). fst p \<notin> set ks}"
  unfolding release_keys_def
  by (induction ks arbitrary: w) (auto simp: close_conns_def assms)

lemma closed_release_keys:
  assumes "d_connTracker dp"
  shows "set (w_closed (release_keys dp ks w)) =
    set (w_closed w) \<union> {b. \<exists>k \<in> set ks. (k, b) \<in> registered (w_conns w)}"
  unfolding release_keys_def
proof (induction ks arbitrary: w)
  case (Cons k ks)
  have "set (fst (CloseConns k c)) = {b. (k, b) \<in> registered c}" for c
    by (simp add: CloseConns_def registered_def)
  with Cons.IH [of "close_conns dp k (invalidate_key k w)"] assms show ?case
    by (auto simp: close_conns_def)
qed simp

lemma clear_not_held: "k \<in> set ks \<Longrightarrow> \<not> held (ClearTransition ks h) k"
  unfolding ClearTransition_def
proof (induction ks arbitrary: h)
  case (Cons k' ks)
  have "\<not> held (fold clear_key ks (clear_key k' h)) k" if "\<not> held (clear_key k' h) k"
    using that
  proof (induction ks arbitrary: h k')
    case (Cons k'' ks)
    have "\<not> held (clear_key k'' (clear_key k' h)) k"
      using Cons.prems by (cases "k'' = k") (auto simp: clear_key_def gomap_simps split: option.splits)
    from Cons.IH [OF this] show ?case by simp
  qed simp
  moreover have "\<not> held (clear_key k h) k"
    by (auto simp: clear_key_def gomap_simps split: option.split)
  ultimately show ?case using Cons by (cases "k' = k") auto
qed simp

end
