(* ===== verification/Drain_Manager.thy ===== *)
theory Drain_Manager
  imports Proxy_World Transition_Lock
begin

text \<open>
  Draining a backend (drain.go). The manager's map of running drains is \<open>drain_manager\<close>;
  \<^verbatim>\<open>drain\<close> itself is split where it waits for the transition lock: \<open>acquire_loop\<close> is the
  retry loop, \<open>drain_body\<close> what runs under the lock. The body is again two parts, because
  other requests run between them: \<open>drain_users\<close> empties the backend, \<open>drain_remove\<close> takes it
  out of the registry.
\<close>

record drain_manager =
  dm_draining :: "(string, bool) gomap"
  dm_drains :: nat

definition NewDrainManager :: drain_manager where
  "NewDrainManager = \<lparr>dm_draining = [], dm_drains = 0\<rparr>"

definition IsDraining :: "string \<Rightarrow> drain_manager \<Rightarrow> bool" where
  "IsDraining backend d \<longleftrightarrow> map_of (dm_draining d) backend \<noteq> None"

definition DrainingBackends :: "drain_manager \<Rightarrow> string list" where
  "DrainingBackends d = keys (dm_draining d)"

text \<open>
  The value of an entry is whether its context was cancelled. \<^verbatim>\<open>StartDrain\<close> answers whether it
  started the goroutine; the goroutine's last act is \<open>drain_done\<close>.
\<close>

definition StartDrain :: "string \<Rightarrow> drain_manager \<Rightarrow> bool \<times> drain_manager" where
  "StartDrain backend d =
     (case map_of (dm_draining d) backend of
        Some _ \<Rightarrow> (False, d)
      | None \<Rightarrow> (True, d\<lparr>dm_draining := put backend False (dm_draining d), dm_drains := dm_drains d + 1\<rparr>))"

definition CancelDrain :: "string \<Rightarrow> drain_manager \<Rightarrow> drain_manager" where
  "CancelDrain backend d =
     (case map_of (dm_draining d) backend of
        None \<Rightarrow> d
      | Some _ \<Rightarrow> d\<lparr>dm_draining := put backend True (dm_draining d)\<rparr>)"

definition drain_done :: "string \<Rightarrow> drain_manager \<Rightarrow> drain_manager" where
  "drain_done backend d = d\<lparr>dm_draining := del backend (dm_draining d)\<rparr>"

text \<open>
  \<open>lock i\<close> is the result of the \<open>i\<close>-th attempt on the transition lock and \<open>ended i\<close> whether the
  context has ended when that attempt has failed. The first attempt is made before the loop,
  without a look at the context.
\<close>

partial_function (option) acquire_loop :: "(nat \<Rightarrow> bool) \<Rightarrow> (nat \<Rightarrow> bool) \<Rightarrow> nat \<Rightarrow> bool option" where
  "acquire_loop lock ended i =
     (if lock i then Some True else if ended i then Some False else acquire_loop lock ended (Suc i))"

definition acquire :: "(nat \<Rightarrow> bool) \<Rightarrow> (nat \<Rightarrow> bool) \<Rightarrow> bool option" where
  "acquire lock ended = (if lock 0 then Some True else acquire_loop lock ended 1)"

definition affected_users ::
  "'s deps \<Rightarrow> instant \<Rightarrow> string \<Rightarrow> 's world \<Rightarrow> ((store_error + string list) \<times> 's world) option" where
  "affected_users dp now backend w =
     (if d_routingMode dp = ''assignment''
      then map_option (\<lambda>(r, s). (r, w\<lparr>w_store := s\<rparr>)) (GetBackendUsers (d_store dp) backend (w_store w))
      else case d_redis dp of
             Some r \<Rightarrow> map_option (\<lambda>(r, s). (r, w\<lparr>w_store := s\<rparr>)) (StickyUsers r backend (w_store w))
           | None \<Rightarrow> Some (Inr (UsersForBackend now backend (w_cache w)), w))"

definition delete_users :: "'s deps \<Rightarrow> string list \<Rightarrow> 's world \<Rightarrow> 's world" where
  "delete_users dp users w =
     (if d_routingMode dp = ''assignment''
      then w\<lparr>w_store := snd (BulkDeleteAssignments (d_store dp) users (w_store w))\<rparr>
      else case d_redis dp of
             Some r \<Rightarrow> w\<lparr>w_store := snd (StickyDelete r users (w_store w))\<rparr>
           | None \<Rightarrow> w)"

definition drain_users :: "'s deps \<Rightarrow> string \<Rightarrow> string list \<Rightarrow> 's world \<Rightarrow> 's world" where
  "drain_users dp backend users w =
     (let w = (if users = [] then w
               else
                 let w = mark_holds dp users w;
                     w = send_hook dp (UnassignHook backend users) w;
                     w = delete_users dp users w
                 in release_keys dp users w)
      in publishNotification dp backend w)"

definition drain_remove :: "'s deps \<Rightarrow> string \<Rightarrow> string list \<Rightarrow> 's world \<Rightarrow> 's world" where
  "drain_remove dp backend users w =
     (let w = w\<lparr>w_store := snd (RemoveBackend (d_store dp) backend (w_store w))\<rparr>
      in if users = [] then w else clear_holds dp users w)"

definition drain_body :: "'s deps \<Rightarrow> instant \<Rightarrow> string \<Rightarrow> 's world \<Rightarrow> 's world option" where
  "drain_body dp now backend w =
     (case affected_users dp now backend w of
        None \<Rightarrow> None
      | Some (Inl err, w) \<Rightarrow> Some w
      | Some (Inr users, w) \<Rightarrow> Some (drain_remove dp backend users (drain_users dp backend users w)))"

definition drain :: "'s deps \<Rightarrow> (nat \<Rightarrow> bool) \<Rightarrow> (nat \<Rightarrow> bool) \<Rightarrow> instant \<Rightarrow> string \<Rightarrow> 's world \<Rightarrow> 's world option" where
  "drain dp lock ended now backend w =
     (case acquire lock ended of
        None \<Rightarrow> None
      | Some False \<Rightarrow> Some w
      | Some True \<Rightarrow> drain_body dp now backend w)"

section \<open>The lock loop ends\<close>

lemma acquire_loop_ends:
  assumes "lock (i + k) \<or> ended (i + k)"
  shows "\<exists>r. acquire_loop lock ended i = Some r \<and> (r \<longrightarrow> (\<exists>j \<ge> i. lock j))"
  using assms
proof (induction k arbitrary: i)
  case 0
  then show ?case by (subst acquire_loop.simps) auto
next
  case (Suc k)
  then have "\<exists>r. acquire_loop lock ended (Suc i) = Some r \<and> (r \<longrightarrow> (\<exists>j \<ge> Suc i. lock j))" by simp
  then show ?case by (subst acquire_loop.simps) (auto dest: Suc_leD)
qed

lemma acquire_ends:
  assumes "ended (Suc k)"
  shows "\<exists>r. acquire lock ended = Some r \<and> (r \<longrightarrow> (\<exists>j. lock j))"
  using acquire_loop_ends [of lock 1 k ended] assms by (auto simp: acquire_def)

section \<open>Running drains\<close>

lemma StartDrain_once:
  "fst (StartDrain b d) \<longleftrightarrow> \<not> IsDraining b d" "IsDraining b (snd (StartDrain b d))"
  "IsDraining b' (snd (StartDrain b d)) \<longleftrightarrow> IsDraining b' d \<or> b' = b"
  "\<not> IsDraining b (drain_done b d)" "IsDraining b' (CancelDrain b d) = IsDraining b' d"
  by (auto simp: StartDrain_def IsDraining_def drain_done_def CancelDrain_def gomap_simps split: option.splits)

section \<open>A drain in assignment mode\<close>

lemma drain_store:
  assumes "d_routingMode dp = ''assignment''"
  shows "w_store (drain_users dp b users w) =
    (if users = [] then w_store w else snd (BulkDeleteAssignments (d_store dp) users (w_store w)))"
  using assms by (simp add: drain_users_def delete_users_def Let_def)

lemma delete_users_frame [simp]:
  "w_cache (delete_users dp us w) = w_cache w" "w_holds (delete_users dp us w) = w_holds w"
  "w_conns (delete_users dp us w) = w_conns w" "w_hooks (delete_users dp us w) = w_hooks w"
  "w_published (delete_users dp us w) = w_published w" "w_closed (delete_users dp us w) = w_closed w"
  "w_swapped (delete_users dp us w) = w_swapped w"
  by (simp_all add: delete_users_def split: option.split)

lemma drain_remove_frame [simp]:
  "w_cache (drain_remove dp b us w) = w_cache w" "w_conns (drain_remove dp b us w) = w_conns w"
  "w_hooks (drain_remove dp b us w) = w_hooks w" "w_published (drain_remove dp b us w) = w_published w"
  "w_closed (drain_remove dp b us w) = w_closed w"
  "w_store (drain_remove dp b us w) = snd (RemoveBackend (d_store dp) b (w_store w))"
  by (simp_all add: drain_remove_def Let_def)

text \<open>What a drain sends out and forgets locally, whatever the store answers.\<close>

lemma drain_local:
  fixes users :: "string list" and w :: "'s world" and b :: string
  defines "w' dp \<equiv> drain_remove dp b users (drain_users dp b users w)"
  shows "cached (w_cache (w' dp)) t k = (if k \<in> set users then None else cached (w_cache w) t k)"
    and "d_hooks dp \<Longrightarrow> users \<noteq> [] \<Longrightarrow> w_hooks (w' dp) = w_hooks w @ [UnassignHook b users]"
    and "d_notifier dp \<Longrightarrow> b \<in> set (w_published (w' dp))"
    and "d_connTracker dp \<Longrightarrow> registered (w_conns (w' dp)) = {p \<in> registered (w_conns w). fst p \<notin> set users}"
    and "d_holdMgr dp \<Longrightarrow> k \<in> set users \<Longrightarrow> \<not> held (w_holds (w' dp)) k"
proof -
  show "cached (w_cache (w' dp)) t k = (if k \<in> set users then None else cached (w_cache w) t k)"
    by (simp add: w'_def drain_users_def Let_def cached_release_keys)
  show "d_hooks dp \<Longrightarrow> users \<noteq> [] \<Longrightarrow> w_hooks (w' dp) = w_hooks w @ [UnassignHook b users]"
    by (simp add: w'_def drain_users_def Let_def send_hook_def)
  show "d_notifier dp \<Longrightarrow> b \<in> set (w_published (w' dp))"
    by (simp add: w'_def drain_users_def Let_def publishNotification_def)
  show "d_connTracker dp \<Longrightarrow> registered (w_conns (w' dp)) = {p \<in> registered (w_conns w). fst p \<notin> set users}"
    by (simp add: w'_def drain_users_def Let_def registered_release_keys)
  show "d_holdMgr dp \<Longrightarrow> k \<in> set users \<Longrightarrow> \<not> held (w_holds (w' dp)) k"
    using clear_not_held [of k users] by (auto simp: w'_def drain_remove_def clear_holds_def Let_def)
qed

context assignment_store
begin

text \<open>Undisturbed and with a store that succeeds, a drain empties the backend and removes it.\<close>

lemma drain_body_result:
  assumes dp: "d_store dp = st" "d_routingMode dp = ''assignment''"
    and inv: "inv (w_store w)"
    and users: "GetBackendUsers st b (w_store w) = Some (Inr us, s1)"
    and del: "us \<noteq> [] \<Longrightarrow> BulkDeleteAssignments st us s1 = (None, s2)" and nodel: "us = [] \<Longrightarrow> s2 = s1"
    and rem: "RemoveBackend st b s2 = (None, s3)"
  shows "drain_body dp now b w = Some (drain_remove dp b us (drain_users dp b us (w\<lparr>w_store := s1\<rparr>)))"
    and "w_store (drain_remove dp b us (drain_users dp b us (w\<lparr>w_store := s1\<rparr>))) = s3"
    and "inv s3" and "act s3 = act (w_store w) - {b}"
    and "tab s3 k = (case tab (w_store w) k of None \<Rightarrow> None | Some a \<Rightarrow> if Backend a = b then None else Some a)"
    and "set us = {k. \<exists>a. tab (w_store w) k = Some a \<and> Backend a = b}"
proof -
  note u = users_law [OF inv users]
  show "drain_body dp now b w = Some (drain_remove dp b us (drain_users dp b us (w\<lparr>w_store := s1\<rparr>)))"
    using dp users by (simp add: drain_body_def affected_users_def)
  show "w_store (drain_remove dp b us (drain_users dp b us (w\<lparr>w_store := s1\<rparr>))) = s3"
    using dp del nodel rem by (cases "us = []") (simp_all add: drain_store)
  have s2: "inv s2 \<and> act s2 = act (w_store w) \<and>
      (\<forall>k. tab s2 k = (case tab (w_store w) k of None \<Rightarrow> None | Some a \<Rightarrow> if Backend a = b then None else Some a))"
  proof (cases "us = []")
    case True
    with u nodel show ?thesis by (auto split: option.split)
  next
    case False
    from users_then_delete [OF inv users del [OF False]] show ?thesis .
  qed
  from remove_law [OF _ rem] s2 registry_frame(2) [OF _ rem]
  show "inv s3" "act s3 = act (w_store w) - {b}"
    "tab s3 k = (case tab (w_store w) k of None \<Rightarrow> None | Some a \<Rightarrow> if Backend a = b then None else Some a)"
    by auto
  show "set us = {k. \<exists>a. tab (w_store w) k = Some a \<and> Backend a = b}" using u by simp
qed

end

section \<open>Properties\<close>

text \<open>The drain once it has the lock.\<close>

lemma drain_body_empties:
  fixes b :: string
  assumes "redis_inv R net (w_store w)"
    and "d_store dp = redis_store R net" and "d_routingMode dp = ''assignment''"
  defines "users \<equiv> {k. \<exists>a. tab R (w_store w) k = Some a \<and> Backend a = b}"
  shows "\<exists>w' us. drain_body dp now b w = Some w' \<and> set us = users \<and>
    actv R (w_store w') = actv R (w_store w) - {b} \<and>
    (\<forall>k. tab R (w_store w') k = (if k \<in> users then None else tab R (w_store w) k)) \<and>
    (\<forall>k t. cached (w_cache w') t k = (if k \<in> users then None else cached (w_cache w) t k)) \<and>
    (d_connTracker dp \<longrightarrow> registered (w_conns w') = {p \<in> registered (w_conns w). fst p \<notin> users}) \<and>
    (d_holdMgr dp \<longrightarrow> (\<forall>k \<in> users. \<not> held (w_holds w') k)) \<and>
    (d_hooks dp \<longrightarrow> users \<noteq> {} \<longrightarrow> w_hooks w' = w_hooks w @ [UnassignHook b us])"
proof -
  let ?s = "w_store w"
  have ok: "rok R ?s" "reliable net" using assms(1) by (simp_all add: redis_inv_def)
  obtain us where us: "GetBackendUsersFromTable R net b ?s = Some (Inr us, ?s)"
    using GetBackendUsers_effect [OF ok] by blast
  obtain s2 where s2: "Redis_BulkDeleteAssignments R net us ?s = (None, s2)" "rok R s2"
    by (rule BulkDelete_effect [OF ok]) (rule that)
  have "us = [] \<Longrightarrow> s2 = ?s" using s2(1) by (simp add: Redis_BulkDeleteAssignments_def)
  moreover have "redis_inv R net s2" using s2(2) ok by (simp add: redis_inv_def)
  ultimately have r: "GetBackendUsers (redis_store R net) b ?s = Some (Inr us, ?s)"
    "us \<noteq> [] \<Longrightarrow> BulkDeleteAssignments (redis_store R net) us ?s = (None, s2)" "us = [] \<Longrightarrow> s2 = ?s"
    "RemoveBackend (redis_store R net) b s2 = (None, SREM R active_key b s2)"
    using us s2(1) by (simp_all add: redis_store_def redis_registry)
  note d = rstore.drain_body_result [OF assms(2, 3, 1) r]
  note l = drain_local [where dp = dp and b = b and users = us and w = "w\<lparr>w_store := ?s\<rparr>"]
  have set_us: "set us = users" using d(6) by (simp add: users_def)
  have ne: "us = [] \<longleftrightarrow> users = {}" using set_us by auto
  have tab: "tab R (SREM R active_key b s2) k = (if k \<in> users then None else tab R ?s k)" for k
    using d(5) [of k] by (auto simp: users_def split: option.split)
  show ?thesis
    by (rule exI [of _ "drain_remove dp b us (drain_users dp b us (w\<lparr>w_store := ?s\<rparr>))"], rule exI [of _ us])
       (use d(1, 2, 4) l tab set_us ne in \<open>auto\<close>)
qed

text \<open>
  C18: A drain in assignment mode on Redis ends, and what it did depends on the transition lock.
  The context of a drain ends at some time, so the wait for the lock does. If the lock was not
  taken, nothing has changed. If it was taken (at once, if it was free), and as long as
  nothing else changes the table or the registry while the drain runs, then
  afterwards the backend is out of the registry, no routing key is bound to it, every other
  binding and every other backend is as before, and for each of the drained users the local
  cache has no entry, no WebSocket bridge is registered, no request is held any more, and the
  backend has been told, in one unassign hook that names exactly these users.
\<close>

theorem drain_empties_backend:
  fixes b :: string
  assumes "redis_inv R net (w_store w)"
    and "d_store dp = redis_store R net" and "d_routingMode dp = ''assignment''" and "ended (Suc n)"
  defines "users \<equiv> {k. \<exists>a. tab R (w_store w) k = Some a \<and> Backend a = b}"
  shows "\<exists>locked. acquire lock ended = Some locked \<and> (lock 0 \<longrightarrow> locked) \<and>
    (\<not> locked \<longrightarrow> drain dp lock ended now b w = Some w) \<and>
    (locked \<longrightarrow> (\<exists>w' us. drain dp lock ended now b w = Some w' \<and> set us = users \<and>
      actv R (w_store w') = actv R (w_store w) - {b} \<and>
      (\<forall>k. tab R (w_store w') k = (if k \<in> users then None else tab R (w_store w) k)) \<and>
      (\<forall>k t. cached (w_cache w') t k = (if k \<in> users then None else cached (w_cache w) t k)) \<and>
      (d_connTracker dp \<longrightarrow> registered (w_conns w') = {p \<in> registered (w_conns w). fst p \<notin> users}) \<and>
      (d_holdMgr dp \<longrightarrow> (\<forall>k \<in> users. \<not> held (w_holds w') k)) \<and>
      (d_hooks dp \<longrightarrow> users \<noteq> {} \<longrightarrow> w_hooks w' = w_hooks w @ [UnassignHook b us])))"
proof -
  obtain locked where l: "acquire lock ended = Some locked" using acquire_ends [of ended n lock] assms(4) by blast
  have first: "lock 0 \<longrightarrow> locked" using l by (auto simp: acquire_def)
  show ?thesis
  proof (cases locked)
    case False
    with l first show ?thesis by (intro exI [of _ False]) (simp add: drain_def)
  next
    case True
    with l have d: "drain dp lock ended now b w = drain_body dp now b w" by (simp add: drain_def)
    show ?thesis using drain_body_empties [OF assms(1-3), of now b] l True unfolding d users_def by (intro exI [of _ True]) simp
  qed
qed

text \<open>A proxy with every collaborator, on the server of the Redis properties.\<close>

definition demo_deps :: "plain_redis deps" where
  "demo_deps = \<lparr>d_store = redis_store plain_server demo_net, d_redis = None, d_routingMode = ''assignment'',
     d_hooks = True, d_connTracker = True, d_holdMgr = True, d_notifier = True, d_wsSwap = True\<rparr>"

definition demo_world :: "plain_redis world" where
  "demo_world = \<lparr>w_store = demo_redis, w_cache = UserCache_Set 0 ''u'' ''b1'' (NewUserCache 60),
     w_holds = NewHoldManager 5, w_conns = ConnTracker_Add ''u'' 7 NewConnTracker,
     w_hooks = [], w_published = [], w_closed = [], w_swapped = []\<rparr>"

lemma demo_world_ok: "redis_inv plain_server demo_net (w_store demo_world)"
  using demo_ok by (simp add: redis_inv_def demo_world_def)

theorem drain_empties_backend_witness:
  "\<exists>w'. drain demo_deps (\<lambda>i. i = 0) (\<lambda>_. True) 3 ''b1'' demo_world = Some w' \<and> actv plain_server (w_store w') = {''b2''} \<and>
     tab plain_server (w_store w') ''u'' = None \<and> registered (w_conns w') = {}"
proof -
  have tab: "tab plain_server (w_store demo_world) = [''u'' \<mapsto> demo_assignment]"
    and act: "actv plain_server (w_store demo_world) = {''b1'', ''b2''}"
    using demo_ok by (simp_all add: demo_world_def)
  have conns: "registered (w_conns demo_world) = {(''u'', 7)}" by (simp add: demo_world_def)
  have dp: "d_store demo_deps = redis_store plain_server demo_net" "d_routingMode demo_deps = ''assignment''" "d_connTracker demo_deps"
    by (simp_all add: demo_deps_def)
  have users: "{k. \<exists>a. tab plain_server (w_store demo_world) k = Some a \<and> Backend a = ''b1''} = {''u''}"
    by (auto simp: tab demo_assignment_def split: if_splits)
  from drain_empties_backend [OF demo_world_ok dp(1,2), where ended = "\<lambda>_. True" and lock = "\<lambda>i. i = 0" and b = "''b1''" and now = 3]
  obtain w' where "drain demo_deps (\<lambda>i. i = 0) (\<lambda>_. True) 3 ''b1'' demo_world = Some w'"
    and "actv plain_server (w_store w') = actv plain_server (w_store demo_world) - {''b1''}"
    and "\<forall>k. tab plain_server (w_store w') k = (if k \<in> {''u''} then None else tab plain_server (w_store demo_world) k)"
    and "d_connTracker demo_deps \<longrightarrow> registered (w_conns w') = {p \<in> registered (w_conns demo_world). fst p \<notin> {''u''}}"
    unfolding users by blast
  then show ?thesis using act conns dp(3) by (intro exI [of _ w']) auto
qed

lemma load_nonneg: "0 \<le> load asg b"
  unfolding load_def by (rule sum_list_nonneg) (auto simp: less_imp_le)

lemma load_found_remdups: "load (found_in t (remdups ks)) b \<le> load (found_in t ks) b"
proof (induction ks)
  case (Cons k ks)
  have "load (found_in t (k # xs)) b = load (found_in t [k]) b + load (found_in t xs) b" for xs
    by (simp add: found_in_def load_append)
  note split = this
  show ?case
    using Cons.IH split [of "remdups ks"] split [of ks] load_nonneg [of "found_in t [k]" b]
    by (cases "k \<in> set ks") auto
qed simp

lemma load_zero: "(\<And>k a. (k, a) \<in> set asg \<Longrightarrow> Backend a \<noteq> b) \<Longrightarrow> load asg b = 0"
  by (induction asg) (fastforce simp: load_def)+

text \<open>
  A backend whose users have just been deleted is the least loaded one, so that it attracts
  the next user that is assigned while it is still active.
\<close>

lemma emptied_count:
  assumes "rok R s" "reliable net" and "counts_match R s"
    and us: "set us = {k. \<exists>a. tab R s k = Some a \<and> Backend a = b}"
    and del: "Redis_BulkDeleteAssignments R net us s = (None, s1)"
  shows "cnt R s1 b \<le> 0" and "b' \<noteq> b \<Longrightarrow> cnt R s1 b' = load (redis_table R s) b'"
proof -
  have "redis_documented R" using assms(1) by (simp add: rok_def)
  note t = redis_table [OF this, of s]
  have c: "cnt R s1 b = cnt R s b - load (found_in (tab R s) us) b" for b
    by (rule BulkDelete_effect [OF assms(1, 2), of us]) (simp add: del)
  have "load (found_in (tab R s) (remdups us)) b = load (redis_table R s) b - load (fold del (remdups us) (redis_table R s)) b"
    using load_fold_del [OF t(1), of "remdups us" b] t(2) by simp
  moreover have "load (fold del (remdups us) (redis_table R s)) b = 0"
  proof (rule load_zero)
    fix k a assume "(k, a) \<in> set (fold del (remdups us) (redis_table R s))"
    then have "map_of (fold del (remdups us) (redis_table R s)) k = Some a" using t(1) by (simp add: map_of_eq_Some_wf)
    then show "Backend a \<noteq> b" using t(2) us by (auto simp: map_of_fold_del split: if_splits)
  qed
  ultimately show "cnt R s1 b \<le> 0"
    using c [of b] load_found_remdups [of "tab R s" us b] assms(3) by (simp add: counts_match_def)
  show "cnt R s1 b' = load (redis_table R s) b'" if "b' \<noteq> b"
  proof -
    have "load (found_in (tab R s) us) b' = 0"
      by (rule load_zero) (use us that in \<open>auto simp: found_in_def split: option.splits\<close>)
    then show ?thesis using c [of b'] assms(3) by (simp add: counts_match_def)
  qed
qed

lemma emptied_backend_attracts:
  assumes ok: "rok R s" "reliable net" and counts: "counts_match R s"
    and us: "set us = {k. \<exists>a. tab R s k = Some a \<and> Backend a = b}"
    and del: "Redis_BulkDeleteAssignments R net us s = (None, s1)"
    and b: "b \<in> actv R s" "tab R s k = None \<or> k \<in> set us"
    and others: "\<forall>b' \<in> actv R s. b' \<noteq> b \<longrightarrow> 0 < load (redis_table R s) b'"
  obtains a s2 where "AssignViaTable R net now k s1 = (Inr a, s2)" "Backend a = b" "rok R s2"
    "tab R s2 = (tab R s1)(k \<mapsto> a)" "actv R s2 = actv R s"
proof -
  have s1: "rok R s1" "actv R s1 = actv R s" "tab R s1 = tab R s |` (- set us)"
    by (rule BulkDelete_effect [OF ok, of us]; simp add: del)+
  have k1: "tab R s1 k = None" using s1(3) b(2) by (auto simp: restrict_map_def)
  have vac: "vacated R k s1 = s1" using k1 by (simp add: vacated_def)
  have "actv R s1 \<noteq> {}" "\<not> (\<exists>a. tab R s1 k = Some a \<and> Backend a \<in> actv R s1)"
    using s1(2) b(1) k1 by auto
  from AssignViaTable_effect(3) [OF s1(1) ok(2) this, of now] obtain b0 s2 where b0:
    "AssignViaTable R net now k s1 = (Inr (new_assignment (rfc3339 now) b0 1), s2)" "b0 \<in> actv R s1"
    "\<forall>b' \<in> actv R s1. cnt R s1 b0 \<le> cnt R s1 b'" "rok R s2" "actv R s2 = actv R s1"
    "tab R s2 = (tab R s1)(k \<mapsto> new_assignment (rfc3339 now) b0 1)"
    unfolding vac by blast
  note c = emptied_count [OF ok counts us del]
  have "b0 = b"
  proof (rule ccontr)
    assume "b0 \<noteq> b"
    then have "0 < cnt R s1 b0" using c(2) others b0(2) s1(2) by simp
    moreover have "cnt R s1 b0 \<le> cnt R s1 b" using b0(3) b(1) s1(2) by simp
    ultimately show False using c(1) by simp
  qed
  with b0 s1(2) show thesis by (intro that [of "new_assignment (rfc3339 now) b0 1" s2]) simp_all
qed

text \<open>
  C35: Until the registry is updated a drain can be undone by a request. On Redis in assignment
  mode the backend stays active while its users are being moved away, and once their
  assignments are deleted its counter is the lowest. If the counters agree with the table
  and every other active backend carries some load, a user without assignment that is
  assigned between the two halves of the drain is bound to the very backend that is drained,
  and the table still names that backend when the drain has removed it from the registry.
\<close>

theorem drain_race_binds_to_drained:
  fixes b :: string
  assumes "redis_inv R net (w_store w)" and "counts_match R (w_store w)"
    and "d_store dp = redis_store R net" and "d_routingMode dp = ''assignment''"
    and "b \<in> actv R (w_store w)" and "tab R (w_store w) k = None"
    and "\<forall>b' \<in> actv R (w_store w). b' \<noteq> b \<longrightarrow> 0 < load (redis_table R (w_store w)) b'"
  shows "\<exists>us w1 a s2 w2. affected_users dp now b w = Some (Inr us, w) \<and> w1 = drain_users dp b us w \<and>
    AssignLeastLoaded (d_store dp) now k (w_store w1) = (Inr a, s2) \<and>
    w2 = drain_remove dp b us (w1\<lparr>w_store := s2\<rparr>) \<and>
    tab R (w_store w2) k = Some a \<and> Backend a = b \<and> b \<notin> actv R (w_store w2)"
proof -
  let ?s = "w_store w"
  have ok: "rok R ?s" "reliable net" using assms(1) by (simp_all add: redis_inv_def)
  obtain us where us: "GetBackendUsersFromTable R net b ?s = Some (Inr us, ?s)"
    and set_us: "set us = {k. \<exists>a. tab R ?s k = Some a \<and> Backend a = b}"
    using GetBackendUsers_effect [OF ok] by blast
  obtain s1 where s1: "Redis_BulkDeleteAssignments R net us ?s = (None, s1)"
    by (rule BulkDelete_effect [OF ok, of us]) (rule that)
  obtain a s2 where as: "AssignViaTable R net now k s1 = (Inr a, s2)" "Backend a = b" "rok R s2"
    "tab R s2 = (tab R s1)(k \<mapsto> a)"
    using emptied_backend_attracts [OF ok assms(2) set_us s1 assms(5) disjI1 [OF assms(6)] assms(7)] by metis
  have store: "w_store (drain_users dp b us w) = s1"
    using s1 assms(3, 4) by (cases "us = []") (auto simp: drain_store redis_store_def Redis_BulkDeleteAssignments_def)
  have inv2: "redis_inv R net s2" using as(3) ok by (simp add: redis_inv_def)
  have rem: "RemoveBackend (d_store dp) b s2 = (None, SREM R active_key b s2)"
    using redis_registry(3) [OF inv2] assms(3) by (simp add: redis_store_def)
  show ?thesis
  proof (intro exI conjI)
    show "affected_users dp now b w = Some (Inr us, w)"
      using us assms(3, 4) by (simp add: affected_users_def redis_store_def)
    show "AssignLeastLoaded (d_store dp) now k (w_store (drain_users dp b us w)) = (Inr a, s2)"
      using as(1) store assms(3) by (simp add: redis_store_def)
    show "tab R (w_store (drain_remove dp b us ((drain_users dp b us w)\<lparr>w_store := s2\<rparr>))) k = Some a"
      using rem as(4) registry_effect(6) [OF as(3), of b] by simp
    show "b \<notin> actv R (w_store (drain_remove dp b us ((drain_users dp b us w)\<lparr>w_store := s2\<rparr>)))"
      using rem registry_effect(8) [OF as(3), of b] by simp
  qed (use as(2) in simp_all)
qed

definition busy_redis :: plain_redis where
  "busy_redis = \<lparr>pr_hash = (\<lambda>_. [])(''assignments'' := [(''u'', Encoded demo_assignment), (''v'', Encoded (demo_assignment\<lparr>Backend := ''b2''\<rparr>))],
       ''assignment:counts'' := [(''b1'', Number 3), (''b2'', Number 3)]),
     pr_set = (\<lambda>_. [])(''backends:active'' := [''b1'', ''b2'']), pr_str = []\<rparr>"

lemma busy_ok:
  "redis_inv plain_server demo_net busy_redis" "counts_match plain_server busy_redis"
  "actv plain_server busy_redis = {''b1'', ''b2''}" "tab plain_server busy_redis ''new'' = None"
  "load (redis_table plain_server busy_redis) ''b2'' = 3"
proof -
  have view: "view plain_server s = \<lparr>rv_hash = (\<lambda>k. map_of (pr_hash s k)), rv_set = (\<lambda>k. set (pr_set s k)), rv_str = map_of (pr_str s)\<rparr>" for s
    by (simp add: view_def plain_server_def)
  have all: "HGETALL plain_server k s = AList.clearjunk (pr_hash s k)" for k s
    by (simp add: plain_server_def)
  show "redis_inv plain_server demo_net busy_redis"
    by (auto simp: redis_inv_def demo_ok(1) rok_def plain_server_documented v_typed_def view busy_redis_def split: if_splits)
  show "counts_match plain_server busy_redis"
    by (auto simp: counts_match_def redis_table_def v_cnt_def view all busy_redis_def load_def EffectiveWeight_def demo_assignment_def)
  show "actv plain_server busy_redis = {''b1'', ''b2''}" "tab plain_server busy_redis ''new'' = None"
    by (auto simp: view busy_redis_def v_tab_def)
  show "load (redis_table plain_server busy_redis) ''b2'' = 3"
    by (simp add: redis_table_def all busy_redis_def load_def EffectiveWeight_def demo_assignment_def)
qed

theorem drain_race_binds_to_drained_witness:
  "\<exists>us w1 a s2 w2. affected_users demo_deps 3 ''b1'' (demo_world\<lparr>w_store := busy_redis\<rparr>) = Some (Inr us, demo_world\<lparr>w_store := busy_redis\<rparr>) \<and>
    w1 = drain_users demo_deps ''b1'' us (demo_world\<lparr>w_store := busy_redis\<rparr>) \<and>
    AssignLeastLoaded (d_store demo_deps) 3 ''new'' (w_store w1) = (Inr a, s2) \<and>
    w2 = drain_remove demo_deps ''b1'' us (w1\<lparr>w_store := s2\<rparr>) \<and>
    tab plain_server (w_store w2) ''new'' = Some a \<and> Backend a = ''b1'' \<and> ''b1'' \<notin> actv plain_server (w_store w2)"
  by (rule drain_race_binds_to_drained) (use busy_ok in \<open>auto simp: demo_deps_def\<close>)

end
