(* ===== verification/Rebalancer.thy ===== *)
theory Rebalancer
  imports Drain_Manager
begin

text \<open>
  Carrying out a rebalance plan (rebalancer.go). \<open>rebalance_body\<close> is what runs under the
  transition lock; the strategy is an argument, as it is in the code. \<^verbatim>\<open>Trigger\<close> starts the
  goroutine unless one is running.
\<close>

record rebalancer =
  rb_rebalancing :: bool

definition NewRebalancer :: rebalancer where
  "NewRebalancer = \<lparr>rb_rebalancing = False\<rparr>"

definition Trigger :: "rebalancer \<Rightarrow> bool \<times> rebalancer" where
  "Trigger rb = (if rb_rebalancing rb then (False, rb) else (True, rb\<lparr>rb_rebalancing := True\<rparr>))"

definition rebalance_done :: "rebalancer \<Rightarrow> rebalancer" where
  "rebalance_done rb = rb\<lparr>rb_rebalancing := False\<rparr>"

text \<open>The maps from backends to lists of routing keys that the hooks are batched by.\<close>

definition group_by :: "('a \<Rightarrow> string) \<Rightarrow> ('a \<Rightarrow> string) \<Rightarrow> 'a list \<Rightarrow> (string, string list) gomap" where
  "group_by f g xs = fold (\<lambda>x. append_to (f x) (g x)) xs []"

definition preserved_weight :: "table \<Rightarrow> string \<Rightarrow> int" where
  "preserved_weight asg key = (case map_of asg key of None \<Rightarrow> 0 | Some a \<Rightarrow> Weight a)"

definition new_entries :: "table \<Rightarrow> string list \<Rightarrow> move list \<Rightarrow> bulk_entries" where
  "new_entries asg active moves =
     (let routed = filter (\<lambda>m. ToBackend m \<noteq> []) moves;
          unrouted = map RoutingKey (filter (\<lambda>m. ToBackend m = []) moves);
          entries = fold (\<lambda>m. put (RoutingKey m)
            \<lparr>EntryBackend = ToBackend m, EntryWeight = preserved_weight asg (RoutingKey m)\<rparr>) routed []
      in if unrouted \<noteq> [] \<and> active \<noteq> []
         then fold (\<lambda>(i, key). put key \<lparr>EntryBackend = round_robin active i, EntryWeight = preserved_weight asg key\<rparr>)
                (enumerate 0 unrouted) entries
         else entries)"

definition publish_once :: "'s deps \<Rightarrow> move list \<Rightarrow> 's world \<Rightarrow> 's world" where
  "publish_once dp moves w =
     fst (fold (\<lambda>m (w, notified).
         if FromBackend m \<in> set notified then (w, notified)
         else (publishNotification dp (FromBackend m) w, FromBackend m # notified)) moves (w, []))"

definition redirect_conns :: "'s deps \<Rightarrow> (string, string) gomap \<Rightarrow> move list \<Rightarrow> 's world \<Rightarrow> 's world" where
  "redirect_conns dp assigned moves w =
     fold (\<lambda>m w. case map_of assigned (RoutingKey m) of
         Some newBackend \<Rightarrow> if d_wsSwap dp then swap_conns dp (RoutingKey m) newBackend w else close_conns dp (RoutingKey m) w
       | None \<Rightarrow> close_conns dp (RoutingKey m) w) moves w"

definition move_users :: "'s deps \<Rightarrow> instant \<Rightarrow> table \<Rightarrow> string list \<Rightarrow> move list \<Rightarrow> 's world \<Rightarrow> 's world" where
  "move_users dp now asg active moves w =
     (let ks = map RoutingKey moves;
          w = mark_holds dp ks w;
          w = fold (\<lambda>(b, us). send_hook dp (UnassignHook b us)) (group_by FromBackend RoutingKey moves) w;
          w = w\<lparr>w_store := snd (BulkDeleteAssignments (d_store dp) ks (w_store w))\<rparr>;
          ((assigned, err), s) = BulkAssign (d_store dp) now (new_entries asg active moves) (w_store w);
          w = w\<lparr>w_store := s\<rparr>;
          w = fold invalidate_key ks w;
          w = publish_once dp moves w;
          w = fold (\<lambda>(b, us). send_hook dp (AssignHook b us)) (group_by snd fst assigned) w;
          w = redirect_conns dp assigned moves w
      in clear_holds dp ks w)"

definition rebalance_body ::
  "'s deps \<Rightarrow> (table \<Rightarrow> string list \<Rightarrow> move list) \<Rightarrow> instant \<Rightarrow> string list \<Rightarrow> 's world \<Rightarrow> 's world" where
  "rebalance_body dp strategy now activeBackends w =
     (let active = sort activeBackends
      in case GetAllAssignments (d_store dp) (w_store w) of
           (Inl err, s) \<Rightarrow> w\<lparr>w_store := s\<rparr>
         | (Inr asg, s) \<Rightarrow>
             let moves = strategy asg active
             in if moves = [] then w\<lparr>w_store := s\<rparr> else move_users dp now asg active moves (w\<lparr>w_store := s\<rparr>))"

definition rebalance ::
  "'s deps \<Rightarrow> bool \<Rightarrow> (table \<Rightarrow> string list \<Rightarrow> move list) \<Rightarrow> instant \<Rightarrow> string list \<Rightarrow> 's world \<Rightarrow> 's world" where
  "rebalance dp locked strategy now activeBackends w =
     (if \<not> locked then w else rebalance_body dp strategy now activeBackends w)"

section \<open>Batches and entries\<close>

lemma group_by_mem:
  "(b, us) \<in> set (group_by f g xs) \<longleftrightarrow> us = map g (filter (\<lambda>x. f x = b) xs) \<and> us \<noteq> []"
proof -
  have look: "map_of (fold (\<lambda>x. append_to (f x) (g x)) xs m) b =
      (let us = map g (filter (\<lambda>x. f x = b) xs) in
       case map_of m b of None \<Rightarrow> if us = [] then None else Some us | Some vs \<Rightarrow> Some (vs @ us))" for m b
    by (induction xs arbitrary: m) (auto simp: append_to_def gomap_simps Let_def split: option.split)
  have "wf_map m \<Longrightarrow> wf_map (fold (\<lambda>x. append_to (f x) (g x)) xs m)" for m
    by (induction xs arbitrary: m) (auto simp: append_to_def)
  then have "wf_map (group_by f g xs)" by (simp add: group_by_def)
  from map_of_eq_Some_wf [OF this, of b us, symmetric] look [of "[]" b] show ?thesis
    by (auto simp: group_by_def Let_def)
qed

lemma fold_put_distinct:
  assumes "distinct (map f xs)"
  shows "map_of (fold (\<lambda>x. put (f x) (g x)) xs m) k =
    (case find (\<lambda>x. f x = k) xs of Some x \<Rightarrow> Some (g x) | None \<Rightarrow> map_of m k)"
  using assms
proof (induction xs arbitrary: m)
  case (Cons x xs)
  have "find (\<lambda>y. f y = f x) xs = None" using Cons.prems by (simp add: find_None_iff) (metis image_eqI)
  with Cons show ?case by (auto simp: gomap_simps split: option.split)
qed simp

definition move_of :: "move list \<Rightarrow> string \<Rightarrow> move option" where
  "move_of moves k = find (\<lambda>m. RoutingKey m = k) moves"

lemma move_of_Some: "distinct (map RoutingKey moves) \<Longrightarrow> m \<in> set moves \<Longrightarrow> move_of moves (RoutingKey m) = Some m"
  unfolding move_of_def by (induction moves) (auto simp: image_iff)

lemma move_of_None: "move_of moves k = None \<longleftrightarrow> k \<notin> RoutingKey ` set moves"
  by (auto simp: move_of_def find_None_iff)

lemma move_of_mem: "move_of moves k = Some m \<Longrightarrow> m \<in> set moves \<and> RoutingKey m = k"
  unfolding move_of_def by (induction moves) (auto split: if_splits)

lemma new_entries_routed:
  assumes "distinct (map RoutingKey moves)" and "\<forall>m \<in> set moves. ToBackend m \<noteq> []"
  shows "map_of (new_entries asg active moves) k =
    map_option (\<lambda>m. \<lparr>EntryBackend = ToBackend m, EntryWeight = preserved_weight asg (RoutingKey m)\<rparr>) (move_of moves k)"
    and "wf_map (new_entries asg active moves)"
proof -
  have all: "filter (\<lambda>m. ToBackend m \<noteq> []) moves = moves" "filter (\<lambda>m. ToBackend m = []) moves = []"
    using assms(2) by (simp_all add: filter_empty_conv)
  show "map_of (new_entries asg active moves) k =
      map_option (\<lambda>m. \<lparr>EntryBackend = ToBackend m, EntryWeight = preserved_weight asg (RoutingKey m)\<rparr>) (move_of moves k)"
    by (simp add: new_entries_def all fold_put_distinct [OF assms(1)] move_of_def split: option.split)
  have "wf_map es \<Longrightarrow> wf_map (fold (\<lambda>m. put (RoutingKey m) (g m)) ms es)" for es :: bulk_entries and g ms
    by (induction ms arbitrary: es) auto
  from this [of "[]"] show "wf_map (new_entries asg active moves)" by (simp add: new_entries_def all)
qed

lemma map_of_apply_moves_move_of:
  assumes "distinct (map RoutingKey moves)"
  shows "map_of (apply_moves moves asg) k = (case move_of moves k of
     None \<Rightarrow> map_of asg k | Some m \<Rightarrow> map_option (\<lambda>a. a\<lparr>Backend := ToBackend m\<rparr>) (map_of asg k))"
proof (cases "move_of moves k")
  case None
  then have "k \<notin> RoutingKey ` set moves" by (simp add: move_of_None)
  with None show ?thesis using map_of_apply_moves_other [of k moves asg] by simp
next
  case (Some m)
  then show ?thesis using map_of_apply_moves_moved [OF assms, of m asg] move_of_mem [OF Some] by simp
qed

section \<open>What the steps change\<close>

lemma send_hooks:
  "w_hooks (fold (\<lambda>(b, us). send_hook dp (H b us)) g w) = (if d_hooks dp then w_hooks w @ map (\<lambda>(b, us). H b us) g else w_hooks w)"
  "w_store (fold (\<lambda>(b, us). send_hook dp (H b us)) g w) = w_store w"
  "w_cache (fold (\<lambda>(b, us). send_hook dp (H b us)) g w) = w_cache w"
  "w_holds (fold (\<lambda>(b, us). send_hook dp (H b us)) g w) = w_holds w"
  "w_conns (fold (\<lambda>(b, us). send_hook dp (H b us)) g w) = w_conns w"
  "w_swapped (fold (\<lambda>(b, us). send_hook dp (H b us)) g w) = w_swapped w"
  by (induction g arbitrary: w) (auto simp: send_hook_def)

lemma publish_once_frame:
  "w_store (publish_once dp ms w) = w_store w" "w_cache (publish_once dp ms w) = w_cache w"
  "w_holds (publish_once dp ms w) = w_holds w" "w_conns (publish_once dp ms w) = w_conns w"
  "w_hooks (publish_once dp ms w) = w_hooks w" "w_swapped (publish_once dp ms w) = w_swapped w"
proof -
  let ?f = "\<lambda>m (w, notified). if FromBackend m \<in> set notified then (w, notified)
      else (publishNotification dp (FromBackend m) w, FromBackend m # notified)"
  have "w_store (fst (fold ?f ms (w, n))) = w_store w \<and> w_cache (fst (fold ?f ms (w, n))) = w_cache w \<and>
      w_holds (fst (fold ?f ms (w, n))) = w_holds w \<and> w_conns (fst (fold ?f ms (w, n))) = w_conns w \<and>
      w_hooks (fst (fold ?f ms (w, n))) = w_hooks w \<and> w_swapped (fst (fold ?f ms (w, n))) = w_swapped w" for n
    by (induction ms arbitrary: w n) simp_all
  then show "w_store (publish_once dp ms w) = w_store w" "w_cache (publish_once dp ms w) = w_cache w"
    "w_holds (publish_once dp ms w) = w_holds w" "w_conns (publish_once dp ms w) = w_conns w"
    "w_hooks (publish_once dp ms w) = w_hooks w" "w_swapped (publish_once dp ms w) = w_swapped w"
    by (simp_all add: publish_once_def)
qed

lemma invalidate_keys:
  "cached (w_cache (fold invalidate_key ks w)) t k = (if k \<in> set ks then None else cached (w_cache w) t k)"
  "w_store (fold invalidate_key ks w) = w_store w" "w_holds (fold invalidate_key ks w) = w_holds w"
  "w_conns (fold invalidate_key ks w) = w_conns w" "w_hooks (fold invalidate_key ks w) = w_hooks w"
  "w_swapped (fold invalidate_key ks w) = w_swapped w"
  by (induction ks arbitrary: w) auto

lemma redirect_conns_frame:
  "w_store (redirect_conns dp asg ms w) = w_store w" "w_cache (redirect_conns dp asg ms w) = w_cache w"
  "w_holds (redirect_conns dp asg ms w) = w_holds w" "w_hooks (redirect_conns dp asg ms w) = w_hooks w"
  unfolding redirect_conns_def by (induction ms arbitrary: w) (simp_all split: option.split)

lemma redirect_conns_swap:
  assumes "d_wsSwap dp" and "d_connTracker dp" and "\<forall>m \<in> set ms. map_of asg (RoutingKey m) = Some (ToBackend m)"
  shows "w_swapped (redirect_conns dp asg ms w) =
      w_swapped w @ concat (map (\<lambda>m. SwapConns (RoutingKey m) (ToBackend m) (w_conns w)) ms)"
    and "w_conns (redirect_conns dp asg ms w) = w_conns w"
  using assms unfolding redirect_conns_def
  by (induction ms arbitrary: w) (simp_all add: swap_conns_def)

section \<open>A rebalance on a store that succeeds\<close>

context assignment_store
begin

lemma rebalance_result:
  assumes dp: "d_store dp = st" and inv: "inv (w_store w)"
    and all: "GetAllAssignments st (w_store w) = (Inr asg, s1)"
    and moves: "moves = strategy asg (sort active)" "moves \<noteq> []"
    and plan: "valid_plan asg (sort active) moves" "\<forall>m \<in> set moves. ToBackend m \<noteq> []"
    and del: "BulkDeleteAssignments st (map RoutingKey moves) s1 = (None, s2)"
    and asn: "BulkAssign st now (new_entries asg (sort active) moves) s2 = ((assigned, None), s3)"
  defines "w' \<equiv> rebalance_body dp strategy now active w"
  shows "w_store w' = s3" and "inv s3" and "act s3 = act (w_store w)"
    and "tab s3 k = (case move_of moves k of None \<Rightarrow> tab (w_store w) k
        | Some m \<Rightarrow> Some (new_assignment now (ToBackend m) (norm_weight (preserved_weight asg k))))"
    and "cached (w_cache w') t k = (if k \<in> RoutingKey ` set moves then None else cached (w_cache w) t k)"
    and "d_holdMgr dp \<Longrightarrow> k \<in> RoutingKey ` set moves \<Longrightarrow> \<not> held (w_holds w') k"
    and "d_hooks dp \<Longrightarrow> w_hooks w' = w_hooks w @
        map (\<lambda>(b, us). UnassignHook b us) (group_by FromBackend RoutingKey moves) @
        map (\<lambda>(b, us). AssignHook b us) (group_by snd fst assigned)"
    and "map_of assigned k = map_option ToBackend (move_of moves k)"
    and "d_wsSwap dp \<Longrightarrow> d_connTracker dp \<Longrightarrow> w_swapped w' =
        w_swapped w @ concat (map (\<lambda>m. SwapConns (RoutingKey m) (ToBackend m) (w_conns w)) moves)"
    and "d_wsSwap dp \<Longrightarrow> d_connTracker dp \<Longrightarrow> w_conns w' = w_conns w"
proof -
  have d: "distinct (map RoutingKey moves)" using plan(1) by (simp add: valid_plan_def)
  note a = all_law [OF inv all]
  note e = new_entries_routed [OF d plan(2), of asg "sort active"]
  have sub: "set (keys (new_entries asg (sort active) moves)) \<subseteq> set (map RoutingKey moves)"
  proof
    fix k assume "k \<in> set (keys (new_entries asg (sort active) moves))"
    then have "map_of (new_entries asg (sort active) moves) k \<noteq> None" by (simp add: map_of_eq_None_iff)
    then show "k \<in> set (map RoutingKey moves)" using e(1) [of k] move_of_None [of moves k] by auto
  qed
  note r = delete_then_assign [OF _ del e(2) sub asn]
  have w': "w' = move_users dp now asg (sort active) moves (w\<lparr>w_store := s1\<rparr>)"
    using dp all moves by (simp add: w'_def rebalance_body_def Let_def)
  have bind: "map_of assigned k = map_option ToBackend (move_of moves k)" for k
    using r a e(1) [of k] by (simp add: option.map_comp comp_def)
  then have routed: "\<forall>m \<in> set moves. map_of assigned (RoutingKey m) = Some (ToBackend m)"
    using move_of_Some [OF d] by simp
  note frames = move_users_def Let_def send_hooks publish_once_frame invalidate_keys redirect_conns_frame
  show "w_store w' = s3" "inv s3" "act s3 = act (w_store w)"
    using w' dp del asn r a by (simp_all add: frames)
  show "tab s3 k = (case move_of moves k of None \<Rightarrow> tab (w_store w) k
        | Some m \<Rightarrow> Some (new_assignment now (ToBackend m) (norm_weight (preserved_weight asg k))))"
    using r a e(1) [of k] move_of_None [of moves k] move_of_mem [of moves k] by (auto split: option.split)
  show "cached (w_cache w') t k = (if k \<in> RoutingKey ` set moves then None else cached (w_cache w) t k)"
    using w' dp del asn by (simp add: frames)
  show "d_holdMgr dp \<Longrightarrow> k \<in> RoutingKey ` set moves \<Longrightarrow> \<not> held (w_holds w') k"
    using w' dp del asn clear_not_held [of k "map RoutingKey moves"] by (simp add: move_users_def Let_def clear_holds_def send_hooks(2))
  show "d_hooks dp \<Longrightarrow> w_hooks w' = w_hooks w @
        map (\<lambda>(b, us). UnassignHook b us) (group_by FromBackend RoutingKey moves) @
        map (\<lambda>(b, us). AssignHook b us) (group_by snd fst assigned)"
    using w' dp del asn by (simp add: frames)
  show "map_of assigned k = map_option ToBackend (move_of moves k)" by (rule bind)
  show "d_wsSwap dp \<Longrightarrow> d_connTracker dp \<Longrightarrow> w_swapped w' =
        w_swapped w @ concat (map (\<lambda>m. SwapConns (RoutingKey m) (ToBackend m) (w_conns w)) moves)"
    "d_wsSwap dp \<Longrightarrow> d_connTracker dp \<Longrightarrow> w_conns w' = w_conns w"
    using w' dp del asn by (simp_all add: frames redirect_conns_swap [OF _ _ routed])
qed

end

section \<open>Properties\<close>

text \<open>The load depends on backends and effective weights only.\<close>

lemma load_cong_weights:
  assumes "wf_map m" and "wf_map m'"
    and "\<And>k. map_option (\<lambda>a. (Backend a, EffectiveWeight a)) (map_of m k) =
          map_option (\<lambda>a. (Backend a, EffectiveWeight a)) (map_of m' k)"
  shows "load m b = load m' b"
proof -
  let ?strip = "\<lambda>k a. \<lparr>Backend = Backend a, AssignedAt = 0, Source = [], Weight = EffectiveWeight a\<rparr>"
  let ?f = "map (\<lambda>(k, a). (k, ?strip k a))"
  have "EffectiveWeight (?strip k a) = EffectiveWeight a" for k a
    by (simp add: EffectiveWeight_def)
  then have l: "load (?f m) b = load m b" for m
    by (induction m) (auto simp: load_def)
  have "map_option (?strip k) (map_of m k) = map_option (?strip k) (map_of m' k)" for k
    using assms(3) [of k] by (cases "map_of m k"; cases "map_of m' k") simp_all
  then have "map_of (?f m) = map_of (?f m')" by (auto simp: map_of_map_snd fun_eq_iff)
  moreover have "wf_map (?f m)" "wf_map (?f m')"
    using wf_map_map_snd [OF assms(1), of ?strip] wf_map_map_snd [OF assms(2), of ?strip] by simp_all
  ultimately have "load (?f m) b = load (?f m') b" by (intro load_cong)
  then show ?thesis by (simp only: l)
qed

lemma rebalance_redis:
  fixes now :: instant
  assumes inv: "redis_inv R net (w_store w)" and dp: "d_store dp = redis_store R net"
    and ne: "[] \<notin> set active" and moves: "moves = strategy (redis_table R (w_store w)) (sort active)"
    and plan: "valid_plan (redis_table R (w_store w)) (sort active) moves"
  defines "w' \<equiv> rebalance_body dp strategy now active w"
  shows "redis_inv R net (w_store w')" and "actv R (w_store w') = actv R (w_store w)"
    and "tab R (w_store w') k = (case move_of moves k of None \<Rightarrow> tab R (w_store w) k
      | Some m \<Rightarrow> Some (new_assignment now (ToBackend m) (norm_weight (preserved_weight (redis_table R (w_store w)) k))))"
    and "cached (w_cache w') t k = (if k \<in> RoutingKey ` set moves then None else cached (w_cache w) t k)"
    and "moves \<noteq> [] \<Longrightarrow> d_holdMgr dp \<Longrightarrow> k \<in> RoutingKey ` set moves \<Longrightarrow> \<not> held (w_holds w') k"
    and "d_wsSwap dp \<Longrightarrow> d_connTracker dp \<Longrightarrow> w_conns w' = w_conns w \<and> w_swapped w' =
        w_swapped w @ concat (map (\<lambda>m. SwapConns (RoutingKey m) (ToBackend m) (w_conns w)) moves)"
proof -
  let ?s = "w_store w" and ?asg = "redis_table R (w_store w)"
  have ok: "rok R ?s" "reliable net" using inv by (simp_all add: redis_inv_def)
  have all: "GetAllAssignments (redis_store R net) ?s = (Inr ?asg, ?s)"
    by (simp add: redis_store_def GetAll_effect ok)
  have to: "\<forall>m \<in> set moves. ToBackend m \<noteq> []" using plan ne by (auto simp: valid_plan_def)
  have d: "distinct (map RoutingKey moves)" using plan by (simp add: valid_plan_def)
  obtain s2 where s2: "Redis_BulkDeleteAssignments R net (map RoutingKey moves) ?s = (None, s2)" "rok R s2"
    by (rule BulkDelete_effect [OF ok]) (rule that)
  obtain asn s3 where s3: "Redis_BulkAssign R net now (new_entries ?asg (sort active) moves) s2 = ((asn, None), s3)"
    by (rule BulkAssign_effect [OF s2(2) ok(2) new_entries_routed(2) [OF d to]]) (rule that)
  have ops: "BulkDeleteAssignments (redis_store R net) (map RoutingKey moves) ?s = (None, s2)"
    "BulkAssign (redis_store R net) now (new_entries ?asg (sort active) moves) s2 = ((asn, None), s3)"
    using s2(1) s3 by (simp_all add: redis_store_def)
  have none: "w' = w" if "moves = []"
    using that moves dp all by (simp add: w'_def rebalance_body_def Let_def)
  note r = rstore.rebalance_result [where strategy = strategy and active = active,
      OF dp inv all moves _ plan to ops, folded w'_def]
  show "redis_inv R net (w_store w')" "actv R (w_store w') = actv R ?s"
    using r(1, 2, 3) none inv by (cases "moves = []"; simp)+
  show "tab R (w_store w') k = (case move_of moves k of None \<Rightarrow> tab R ?s k
      | Some m \<Rightarrow> Some (new_assignment now (ToBackend m) (norm_weight (preserved_weight ?asg k))))"
    using r(1) r(4) [of k] none by (cases "moves = []") (auto simp: move_of_def)
  show "cached (w_cache w') t k = (if k \<in> RoutingKey ` set moves then None else cached (w_cache w) t k)"
    using r(5) [of t k] none by (cases "moves = []") auto
  show "moves \<noteq> [] \<Longrightarrow> d_holdMgr dp \<Longrightarrow> k \<in> RoutingKey ` set moves \<Longrightarrow> \<not> held (w_holds w') k"
    by (rule r(6))
  show "d_wsSwap dp \<Longrightarrow> d_connTracker dp \<Longrightarrow> w_conns w' = w_conns w \<and> w_swapped w' =
        w_swapped w @ concat (map (\<lambda>m. SwapConns (RoutingKey m) (ToBackend m) (w_conns w)) moves)"
    using r(9, 10) none by (cases "moves = []") auto
qed

text \<open>
  C19: A least-loaded rebalance on Redis carries out its plan and leaves the cluster better
  balanced. Every moved user ends on its target with its weight, every other assignment and
  the registry are unchanged; no moved user is left in the local cache or held; WebSocket
  bridges of moved users are all switched to the target; and no active backend ends above the balance threshold unless it was fuller before.
\<close>

theorem rebalance_least_loaded:
  fixes active :: "string list" and now :: instant
  assumes "redis_inv R net (w_store w)" and "d_store dp = redis_store R net" and "[] \<notin> set active"
  defines "asg \<equiv> redis_table R (w_store w)"
  defines "moves \<equiv> LeastLoaded_ComputeMoves asg (sort active)"
  defines "w' \<equiv> rebalance_body dp LeastLoaded_ComputeMoves now active w"
  shows "(\<forall>k. tab R (w_store w') k = (case move_of moves k of None \<Rightarrow> tab R (w_store w) k
      | Some m \<Rightarrow> Some (new_assignment now (ToBackend m) (norm_weight (preserved_weight asg k))))) \<and>
    actv R (w_store w') = actv R (w_store w) \<and>
    (\<forall>k t. cached (w_cache w') t k = (if k \<in> RoutingKey ` set moves then None else cached (w_cache w) t k)) \<and>
    (d_holdMgr dp \<longrightarrow> (\<forall>m \<in> set moves. \<not> held (w_holds w') (RoutingKey m))) \<and>
    (d_wsSwap dp \<longrightarrow> d_connTracker dp \<longrightarrow> w_conns w' = w_conns w \<and>
      w_swapped w' = w_swapped w @ concat (map (\<lambda>m. SwapConns (RoutingKey m) (ToBackend m) (w_conns w)) moves)) \<and>
    (\<forall>b \<in> set active. load (redis_table R (w_store w')) b
       \<le> max (load asg b) (max 1 (total_load asg div int (length active)) + 1))"
proof -
  have doc: "redis_documented R" using assms(1) by (simp add: redis_inv_def rok_def)
  note t = redis_table [OF doc]
  have wf: "wf_map asg" using t by (simp add: asg_def)
  have plan: "valid_plan asg (sort active) moves"
    unfolding moves_def by (rule LeastLoaded_valid [OF wf])
  have d: "distinct (map RoutingKey moves)" using plan by (simp add: valid_plan_def)
  have moves: "moves = LeastLoaded_ComputeMoves (redis_table R (w_store w)) (sort active)"
    by (simp add: moves_def asg_def)
  note r = rebalance_redis [where strategy = LeastLoaded_ComputeMoves and active = active and now = now,
      OF assms(1-3) moves plan [unfolded asg_def], folded w'_def asg_def]
  have "load (redis_table R (w_store w')) b = load (apply_moves moves asg) b" for b
  proof (rule load_cong_weights)
    show "wf_map (redis_table R (w_store w'))" "wf_map (apply_moves moves asg)" using t wf by simp_all
    fix k
    have row: "map_of (redis_table R (w_store w')) k = (case move_of moves k of None \<Rightarrow> map_of asg k
        | Some m \<Rightarrow> Some (new_assignment now (ToBackend m) (norm_weight (preserved_weight asg k))))"
      using r(3) [of k] by (simp add: t asg_def split: option.split)
    show "map_option (\<lambda>a. (Backend a, EffectiveWeight a)) (map_of (redis_table R (w_store w')) k) =
        map_option (\<lambda>a. (Backend a, EffectiveWeight a)) (map_of (apply_moves moves asg) k)"
    proof (cases "move_of moves k")
      case (Some m)
      then obtain a where "map_of asg k = Some a"
        using plan move_of_mem [OF Some] by (auto simp: valid_plan_def)
      with row Some show ?thesis
        by (simp add: map_of_apply_moves_move_of [OF d] preserved_weight_def EffectiveWeight_def norm_weight_def new_assignment_def)
    qed (simp add: row map_of_apply_moves_move_of [OF d])
  qed
  moreover have "load (apply_moves moves asg) b \<le> max (load asg b) (max 1 (total_load asg div int (length active)) + 1)"
    if "b \<in> set active" for b
    using LeastLoaded_bound(2) [OF wf, of b "sort active"] that by (simp add: moves_def)
  ultimately have bound: "\<forall>b \<in> set active. load (redis_table R (w_store w')) b
      \<le> max (load asg b) (max 1 (total_load asg div int (length active)) + 1)" by simp
  have "\<forall>m \<in> set moves. \<not> held (w_holds w') (RoutingKey m)" if "d_holdMgr dp"
    using r(5) [OF _ that] by (cases "moves = []") simp_all
  then show ?thesis using bound by (intro conjI allI impI r(2-4, 6)) simp_all
qed

theorem rebalance_least_loaded_witness:
  "tab plain_server (w_store (rebalance_body demo_deps LeastLoaded_ComputeMoves 3 [''b2''] demo_world)) ''u'' =
     Some (new_assignment 3 ''b2'' 3) \<and>
   cached (w_cache (rebalance_body demo_deps LeastLoaded_ComputeMoves 3 [''b2''] demo_world)) 3 ''u'' = None"
proof -
  have t: "redis_table plain_server (w_store demo_world) = [(''u'', demo_assignment)]"
    by (simp add: demo_world_def redis_table_def demo_redis_def plain_server_def)
  have m: "LeastLoaded_ComputeMoves [(''u'', demo_assignment)] [''b2''] =
      [\<lparr>RoutingKey = ''u'', FromBackend = ''b1'', ToBackend = ''b2''\<rparr>]"
    by code_simp
  have "move_of [\<lparr>RoutingKey = ''u'', FromBackend = ''b1'', ToBackend = ''b2''\<rparr>] ''u'' =
      Some \<lparr>RoutingKey = ''u'', FromBackend = ''b1'', ToBackend = ''b2''\<rparr>"
    and "norm_weight (preserved_weight [(''u'', demo_assignment)] ''u'') = 3"
    by code_simp+
  then show ?thesis
    using rebalance_least_loaded [OF demo_world_ok, of demo_deps "[''b2'']" 3]
    by (simp add: t m demo_deps_def)
qed

end
