(* ===== verification/Eviction.thy ===== *)
theory Eviction
  imports Drain_Manager Backend_Manager
begin

text \<open>
  The goroutine that a tripped backend breaker starts (\<^verbatim>\<open>invalidateStickyMappings\<close> in
  backends.go): it tells the backend, deletes the bindings of its users, forgets them in the
  local cache and tells the other replicas. The cache of the proxy always exists, so the
  nil checks on it are not branches of the model.
\<close>

definition evict_table :: "'s deps \<Rightarrow> string \<Rightarrow> 's world \<Rightarrow> 's world option" where
  "evict_table dp backend w =
     map_option (\<lambda>(users, s).
         let w = w\<lparr>w_store := s\<rparr>
         in case users of
              Inl err \<Rightarrow> w
            | Inr us \<Rightarrow>
                if us = [] then w
                else
                  let w = send_hook dp (UnassignHook backend us) w
                  in w\<lparr>w_store := snd (BulkDeleteAssignments (d_store dp) us (w_store w))\<rparr>)
       (GetBackendUsers (d_store dp) backend (w_store w))"

definition evict_sticky :: "'s deps \<Rightarrow> 's sticky_ops \<Rightarrow> string \<Rightarrow> 's world \<Rightarrow> 's world option" where
  "evict_sticky dp r backend w =
     (case StickyUsers r backend (w_store w) of
        None \<Rightarrow> None
      | Some (users, s) \<Rightarrow>
          let w = w\<lparr>w_store := s\<rparr>;
              w = (case users of
                     Inl err \<Rightarrow> w
                   | Inr us \<Rightarrow> if us = [] then w else send_hook dp (UnassignHook backend us) w)
          in map_option (\<lambda>(err, s). w\<lparr>w_store := s\<rparr>) (StickyInvalidate r backend (w_store w)))"

definition evict_local :: "'s deps \<Rightarrow> instant \<Rightarrow> string \<Rightarrow> 's world \<Rightarrow> 's world" where
  "evict_local dp now backend w =
     (let us = UsersForBackend now backend (w_cache w)
      in if us = [] then w else send_hook dp (UnassignHook backend us) w)"

definition invalidateStickyMappings :: "'s deps \<Rightarrow> instant \<Rightarrow> string \<Rightarrow> 's world \<Rightarrow> 's world option" where
  "invalidateStickyMappings dp now backend w =
     (let w' = (if d_routingMode dp = ''assignment'' then evict_table dp backend w
                else case d_redis dp of
                       Some r \<Rightarrow> evict_sticky dp r backend w
                     | None \<Rightarrow> Some (evict_local dp now backend w))
      in map_option (\<lambda>w. publishNotification dp backend
             (w\<lparr>w_cache := InvalidateBackend backend (w_cache w)\<rparr>)) w')"

section \<open>What an eviction leaves\<close>

text \<open>The local cache forgets the backend on every path that returns.\<close>

lemma evict_paths_cache:
  "evict_table dp b w = Some w' \<Longrightarrow> w_cache w' = w_cache w"
  "evict_sticky dp r b w = Some w' \<Longrightarrow> w_cache w' = w_cache w"
  "w_cache (evict_local dp now b w) = w_cache w"
proof -
  show "evict_table dp b w = Some w' \<Longrightarrow> w_cache w' = w_cache w"
    by (cases "GetBackendUsers (d_store dp) b (w_store w)"; cases "fst (the (GetBackendUsers (d_store dp) b (w_store w)))")
       (auto simp: evict_table_def Let_def split: if_splits)
  show "evict_sticky dp r b w = Some w' \<Longrightarrow> w_cache w' = w_cache w" "w_cache (evict_local dp now b w) = w_cache w"
    by (auto simp: evict_sticky_def evict_local_def Let_def split: option.splits sum.splits if_splits)
qed

lemma eviction_clears_cache:
  assumes "invalidateStickyMappings dp now b w = Some w'" and "uc_wf (w_cache w)"
  shows "cached (w_cache w') t k = (if cached (w_cache w) t k = Some b then None else cached (w_cache w) t k)"
  using assms cached_InvalidateBackend [OF assms(2)]
  by (auto simp: invalidateStickyMappings_def Let_def evict_paths_cache split: if_splits option.splits)

context assignment_store
begin

lemma eviction_result:
  assumes dp: "d_store dp = st" "d_routingMode dp = ''assignment''" and inv: "inv (w_store w)"
    and users: "GetBackendUsers st b (w_store w) = Some (Inr us, s1)"
    and del: "us \<noteq> [] \<Longrightarrow> BulkDeleteAssignments st us s1 = (None, s2)" and nodel: "us = [] \<Longrightarrow> s2 = s1"
  obtains w' where "invalidateStickyMappings dp now b w = Some w'" and "w_store w' = s2" and "inv s2"
    and "act s2 = act (w_store w)"
    and "\<And>k. tab s2 k = (case tab (w_store w) k of None \<Rightarrow> None | Some a \<Rightarrow> if Backend a = b then None else Some a)"
    and "w_cache w' = InvalidateBackend b (w_cache w)"
    and "w_hooks w' = w_hooks w @ (if d_hooks dp \<and> us \<noteq> [] then [UnassignHook b us] else [])"
    and "d_notifier dp \<Longrightarrow> w_published w' = w_published w @ [b]"
proof -
  note u = users_law [OF inv users]
  have s2: "inv s2 \<and> act s2 = act (w_store w) \<and>
      (\<forall>k. tab s2 k = (case tab (w_store w) k of None \<Rightarrow> None | Some a \<Rightarrow> if Backend a = b then None else Some a))"
  proof (cases "us = []")
    case True
    with u nodel show ?thesis by (auto split: option.split)
  next
    case False
    from users_then_delete [OF inv users del [OF False]] show ?thesis .
  qed
  let ?w = "(if us = [] then w else send_hook dp (UnassignHook b us) (w\<lparr>w_store := s1\<rparr>))\<lparr>w_store := s2\<rparr>"
  have "invalidateStickyMappings dp now b w =
      Some (publishNotification dp b (?w\<lparr>w_cache := InvalidateBackend b (w_cache w)\<rparr>))"
    using dp users del nodel by (auto simp: invalidateStickyMappings_def evict_table_def Let_def)
  from that [OF this] s2 show thesis
    by (simp add: send_hook_def publishNotification_def)
qed

end

section \<open>Properties\<close>

text \<open>
  C20: An eviction in assignment mode on Redis returns and clears out the backend's users:
  no assignment and no live cache entry names the backend, every other assignment and every
  other cached user is as before, and the backend is told in one unassign hook. It does
  \<^emph>\<open>not\<close> take the backend out of the registry: the active backends are the same.
\<close>

theorem eviction_clears_backend:
  assumes "redis_inv R net (w_store w)" and "uc_wf (w_cache w)"
    and "d_store dp = redis_store R net" and "d_routingMode dp = ''assignment''"
  shows "\<exists>w' us. invalidateStickyMappings dp now b w = Some w' \<and>
    actv R (w_store w') = actv R (w_store w) \<and>
    (\<forall>k. tab R (w_store w') k = (case tab R (w_store w) k of None \<Rightarrow> None | Some a \<Rightarrow> if Backend a = b then None else Some a)) \<and>
    (\<forall>t k. cached (w_cache w') t k = (if cached (w_cache w) t k = Some b then None else cached (w_cache w) t k)) \<and>
    set us = {k. \<exists>a. tab R (w_store w) k = Some a \<and> Backend a = b} \<and>
    w_hooks w' = w_hooks w @ (if d_hooks dp \<and> us \<noteq> [] then [UnassignHook b us] else [])"
proof -
  have ok: "rok R (w_store w)" "reliable net" using assms(1) by (simp_all add: redis_inv_def)
  obtain us where us: "GetBackendUsersFromTable R net b (w_store w) = Some (Inr us, w_store w)"
    "set us = {k. \<exists>a. tab R (w_store w) k = Some a \<and> Backend a = b}"
    using GetBackendUsers_effect [OF ok] by blast
  obtain s2 where s2: "Redis_BulkDeleteAssignments R net us (w_store w) = (None, s2)"
    by (rule BulkDelete_effect [OF ok]) (rule that)
  have "us = [] \<Longrightarrow> s2 = w_store w" using s2 by (simp add: Redis_BulkDeleteAssignments_def)
  note e = this
  obtain w' where "invalidateStickyMappings dp now b w = Some w'" "w_store w' = s2"
    "actv R s2 = actv R (w_store w)"
    "\<And>k. tab R s2 k = (case tab R (w_store w) k of None \<Rightarrow> None | Some a \<Rightarrow> if Backend a = b then None else Some a)"
    "w_hooks w' = w_hooks w @ (if d_hooks dp \<and> us \<noteq> [] then [UnassignHook b us] else [])"
    by (rule rstore.eviction_result [OF assms(3, 4, 1), where us = us and ?s1.0 = "w_store w" and ?s2.0 = s2 and b = b])
       (use e that in \<open>simp_all add: redis_store_def us(1) s2\<close>)
  with us(2) eviction_clears_cache [OF _ assms(2)] show ?thesis
    by (intro exI [of _ w'] exI [of _ us]) simp
qed

theorem eviction_clears_backend_witness:
  "\<exists>w'. invalidateStickyMappings demo_deps 3 ''b1'' demo_world = Some w' \<and>
     tab plain_server (w_store w') ''u'' = None \<and> ''b1'' \<in> actv plain_server (w_store w') \<and>
     cached (w_cache w') 3 ''u'' = None"
proof -
  have "tab plain_server (w_store demo_world) = [''u'' \<mapsto> demo_assignment]"
    "actv plain_server (w_store demo_world) = {''b1'', ''b2''}"
    using demo_ok by (simp_all add: demo_world_def)
  moreover have "uc_wf (w_cache demo_world)" by (simp add: demo_world_def)
  moreover have "cached (w_cache demo_world) 3 ''u'' = Some ''b1''"
    by (simp add: demo_world_def cached_Set NewUserCache_def)
  ultimately show ?thesis
    using eviction_clears_backend [OF demo_world_ok, of demo_deps 3 "''b1''"]
    by (force simp: demo_deps_def demo_assignment_def)
qed

end
