(* ===== verification/Health_Checker.thy ===== *)
theory Health_Checker
  imports Rebalancer Redis_Breaker
begin

text \<open>
  The active health checker (health_checker.go). A round \<open>checkAll\<close> reads the registry, keeps
  the fallback list of the Redis breaker warm, merges the backends into its state map, probes
  every backend it knows, and may start a rebalance. The probes run concurrently, each
  changing the state of its own backend under the mutex; \<open>sched\<close> is the order in which the
  probes that were started record their results (a cancelled context starts only some).
  \<open>resp\<close> is the status of a backend's \<^verbatim>\<open>/healthz\<close>, or \<open>None\<close> for a request that failed.
\<close>

record backend_health =
  consecutiveFails :: int
  consecutiveSuccesses :: int
  healthy :: bool

definition fresh_health :: backend_health where
  "fresh_health = \<lparr>consecutiveFails = 0, consecutiveSuccesses = 0, healthy = True\<rparr>"

record health_checker =
  hc_unhealthyThreshold :: int
  hc_healthyThreshold :: int
  hc_drainOnUnhealthy :: bool
  hc_rebalanceOnScale :: bool
  hc_states :: "(string, backend_health) gomap"
  hc_previousBackends :: "string list"

text \<open>What a round acts on besides its own state; \<open>hw_triggered\<close> lists the rebalances it started.\<close>

record 's health_world =
  hw_store :: 's
  hw_redis :: "redis_cb option"
  hw_drain :: drain_manager
  hw_rebalancer :: "rebalancer option"
  hw_triggered :: "string list list"

definition NewHealthChecker :: "bool \<Rightarrow> bool \<Rightarrow> health_checker" where
  "NewHealthChecker drainOnUnhealthy rebalanceOnScale =
     \<lparr>hc_unhealthyThreshold = 3, hc_healthyThreshold = 1, hc_drainOnUnhealthy = drainOnUnhealthy,
      hc_rebalanceOnScale = rebalanceOnScale, hc_states = [], hc_previousBackends = []\<rparr>"

definition HealthyCount :: "health_checker \<Rightarrow> nat" where
  "HealthyCount hc = length (filter (\<lambda>(b, s). healthy s) (hc_states hc))"

definition getHealthyBackends :: "health_checker \<Rightarrow> string list" where
  "getHealthyBackends hc = sort (keys (filter (\<lambda>(b, s). healthy s) (hc_states hc)))"

definition stringSliceEqual :: "string list \<Rightarrow> string list \<Rightarrow> bool" where
  "stringSliceEqual a b \<longleftrightarrow> length a = length b \<and> (\<forall>i \<in> {0..<length a}. a ! i = b ! i)"

definition recordResult ::
  "'s store_ops \<Rightarrow> string \<Rightarrow> bool \<Rightarrow> health_checker \<times> 's health_world \<Rightarrow> health_checker \<times> 's health_world" where
  "recordResult st backend success = (\<lambda>(hc, w).
     let state = (case map_of (hc_states hc) backend of None \<Rightarrow> fresh_health | Some s \<Rightarrow> s);
         wasHealthy = healthy state
     in if success then
          let state = state\<lparr>consecutiveFails := 0, consecutiveSuccesses := consecutiveSuccesses state + 1\<rparr>
          in if \<not> wasHealthy \<and> consecutiveSuccesses state \<ge> hc_healthyThreshold hc
             then (hc\<lparr>hc_states := put backend (state\<lparr>healthy := True\<rparr>) (hc_states hc)\<rparr>,
                   w\<lparr>hw_store := snd (AddBackend st backend (hw_store w))\<rparr>)
             else (hc\<lparr>hc_states := put backend state (hc_states hc)\<rparr>, w)
        else
          let state = state\<lparr>consecutiveSuccesses := 0, consecutiveFails := consecutiveFails state + 1\<rparr>
          in if wasHealthy \<and> consecutiveFails state \<ge> hc_unhealthyThreshold hc
             then (hc\<lparr>hc_states := put backend (state\<lparr>healthy := False\<rparr>) (hc_states hc)\<rparr>,
                   if hc_drainOnUnhealthy hc then w\<lparr>hw_drain := snd (StartDrain backend (hw_drain w))\<rparr>
                   else w\<lparr>hw_store := snd (RemoveBackend st backend (hw_store w))\<rparr>)
             else (hc\<lparr>hc_states := put backend state (hc_states hc)\<rparr>, w))"

definition probe ::
  "'s store_ops \<Rightarrow> (string \<Rightarrow> nat option) \<Rightarrow> string \<Rightarrow> health_checker \<times> 's health_world \<Rightarrow>
   health_checker \<times> 's health_world" where
  "probe st resp backend = recordResult st backend (resp backend = Some 200)"

definition merge_states :: "string list \<Rightarrow> (string, backend_health) gomap \<Rightarrow> (string, backend_health) gomap" where
  "merge_states backends states =
     fold (\<lambda>b m. if map_of m b = None then put b fresh_health m else m) backends states"

definition prune_states :: "string list \<Rightarrow> (string, backend_health) gomap \<Rightarrow> (string, backend_health) gomap" where
  "prune_states backends states = filter (\<lambda>(b, s). \<not> (b \<notin> set backends \<and> \<not> healthy s)) states"

definition refresh_fallback :: "'s store_ops \<Rightarrow> 's health_world \<Rightarrow> 's health_world" where
  "refresh_fallback st w =
     (case hw_redis w of
        None \<Rightarrow> w
      | Some r \<Rightarrow>
          let (bs, s) = ActiveBackends st (hw_store w)
          in w\<lparr>hw_store := s, hw_redis := Some (RefreshBackendList (case bs of Inl _ \<Rightarrow> None | Inr bs \<Rightarrow> Some bs) r)\<rparr>)"

definition rebalance_on_change :: "health_checker \<times> 's health_world \<Rightarrow> health_checker \<times> 's health_world" where
  "rebalance_on_change = (\<lambda>(hc, w).
     case (hc_rebalanceOnScale hc, hw_rebalancer w) of
       (True, Some rb) \<Rightarrow>
         let currentHealthy = getHealthyBackends hc;
             w = (if \<not> stringSliceEqual (hc_previousBackends hc) currentHealthy \<and> length currentHealthy > 0
                  then let (started, rb) = Trigger rb
                       in w\<lparr>hw_rebalancer := Some rb,
                            hw_triggered := hw_triggered w @ (if started then [currentHealthy] else [])\<rparr>
                  else w)
         in (hc\<lparr>hc_previousBackends := currentHealthy\<rparr>, w)
     | _ \<Rightarrow> (hc, w))"

definition checkAll ::
  "'s store_ops \<Rightarrow> (string \<Rightarrow> nat option) \<Rightarrow> (string list \<Rightarrow> string list) \<Rightarrow>
   health_checker \<times> 's health_world \<Rightarrow> health_checker \<times> 's health_world" where
  "checkAll st resp sched = (\<lambda>(hc, w).
     case ActiveBackends st (hw_store w) of
       (Inl err, s) \<Rightarrow> (hc, w\<lparr>hw_store := s\<rparr>)
     | (Inr backends, s) \<Rightarrow>
         let w = refresh_fallback st (w\<lparr>hw_store := s\<rparr>);
             states = merge_states backends (hc_states hc);
             allBackends = keys states;
             hc = hc\<lparr>hc_states := prune_states backends states\<rparr>
         in rebalance_on_change (fold (probe st resp) (sched allBackends) (hc, w)))"

section \<open>The state of one backend\<close>

lemma stringSliceEqual_iff: "stringSliceEqual a b \<longleftrightarrow> a = b"
  by (auto simp: stringSliceEqual_def intro: nth_equalityI)

text \<open>What one result does to the state of its backend.\<close>

definition next_health :: "health_checker \<Rightarrow> bool \<Rightarrow> backend_health option \<Rightarrow> backend_health" where
  "next_health hc success old =
     (let s = (case old of None \<Rightarrow> fresh_health | Some s \<Rightarrow> s) in
      if success
      then \<lparr>consecutiveFails = 0, consecutiveSuccesses = consecutiveSuccesses s + 1,
            healthy = healthy s \<or> consecutiveSuccesses s + 1 \<ge> hc_healthyThreshold hc\<rparr>
      else \<lparr>consecutiveFails = consecutiveFails s + 1, consecutiveSuccesses = 0,
            healthy = healthy s \<and> consecutiveFails s + 1 < hc_unhealthyThreshold hc\<rparr>)"

definition active_after :: "health_checker \<Rightarrow> bool \<Rightarrow> backend_health option \<Rightarrow> bool \<Rightarrow> bool" where
  "active_after hc success old active \<longleftrightarrow>
     (let s = (case old of None \<Rightarrow> fresh_health | Some s \<Rightarrow> s) in
      if success then active \<or> \<not> healthy s \<and> consecutiveSuccesses s + 1 \<ge> hc_healthyThreshold hc
      else active \<and> \<not> (healthy s \<and> consecutiveFails s + 1 \<ge> hc_unhealthyThreshold hc \<and> \<not> hc_drainOnUnhealthy hc))"

text \<open>The state of a backend that the probes of a round start from.\<close>

definition known_state :: "string set \<Rightarrow> health_checker \<Rightarrow> string \<Rightarrow> backend_health option" where
  "known_state A hc b = (case map_of (hc_states hc) b of
       None \<Rightarrow> if b \<in> A then Some fresh_health else None
     | Some s \<Rightarrow> if b \<in> A \<or> healthy s then Some s else None)"

definition same_settings :: "health_checker \<Rightarrow> health_checker \<Rightarrow> bool" where
  "same_settings hc hc' \<longleftrightarrow> hc_unhealthyThreshold hc' = hc_unhealthyThreshold hc \<and>
     hc_healthyThreshold hc' = hc_healthyThreshold hc \<and> hc_drainOnUnhealthy hc' = hc_drainOnUnhealthy hc \<and>
     hc_rebalanceOnScale hc' = hc_rebalanceOnScale hc \<and> hc_previousBackends hc' = hc_previousBackends hc"

lemma same_settings_refl [simp]: "same_settings hc hc" by (simp add: same_settings_def)

lemma same_settings_trans: "same_settings a b \<Longrightarrow> same_settings b c \<Longrightarrow> same_settings a c"
  by (simp add: same_settings_def)

lemma next_health_settings: "same_settings hc hc' \<Longrightarrow> next_health hc' = next_health hc"
  "same_settings hc hc' \<Longrightarrow> active_after hc' = active_after hc"
  by (simp_all add: same_settings_def next_health_def active_after_def fun_eq_iff Let_def)

lemma recordResult_checker:
  "same_settings (fst p) (fst (recordResult st b success p))"
  "map_of (hc_states (fst (recordResult st b success p))) k =
     (if k = b then Some (next_health (fst p) success (map_of (hc_states (fst p)) b))
      else map_of (hc_states (fst p)) k)"
  "wf_map (hc_states (fst p)) \<Longrightarrow> wf_map (hc_states (fst (recordResult st b success p)))"
  by (cases p; auto simp: recordResult_def same_settings_def next_health_def Let_def gomap_simps split: option.split)+

lemma probes_checker:
  assumes "distinct xs"
  shows "same_settings (fst p) (fst (fold (probe st resp) xs p))"
    and "map_of (hc_states (fst (fold (probe st resp) xs p))) k =
      (if k \<in> set xs then Some (next_health (fst p) (resp k = Some 200) (map_of (hc_states (fst p)) k))
       else map_of (hc_states (fst p)) k)"
    and "wf_map (hc_states (fst p)) \<Longrightarrow> wf_map (hc_states (fst (fold (probe st resp) xs p)))"
proof -
  have *: "same_settings (fst p) (fst (fold (probe st resp) xs p)) \<and>
    map_of (hc_states (fst (fold (probe st resp) xs p))) k =
      (if k \<in> set xs then Some (next_health (fst p) (resp k = Some 200) (map_of (hc_states (fst p)) k))
       else map_of (hc_states (fst p)) k) \<and>
    (wf_map (hc_states (fst p)) \<longrightarrow> wf_map (hc_states (fst (fold (probe st resp) xs p))))" for k
    using assms
  proof (induction xs arbitrary: p)
    case (Cons x xs)
    note r = recordResult_checker [where p = p and st = st and b = x and success = "resp x = Some 200", folded probe_def]
    from Cons.IH [of "probe st resp x p"] Cons.prems r next_health_settings [OF r(1)] show ?case
      by (auto intro: same_settings_trans)
  qed simp
  show "same_settings (fst p) (fst (fold (probe st resp) xs p))"
    "map_of (hc_states (fst (fold (probe st resp) xs p))) k =
      (if k \<in> set xs then Some (next_health (fst p) (resp k = Some 200) (map_of (hc_states (fst p)) k))
       else map_of (hc_states (fst p)) k)"
    "wf_map (hc_states (fst p)) \<Longrightarrow> wf_map (hc_states (fst (fold (probe st resp) xs p)))"
    using * by blast+
qed

lemma map_of_merge_states:
  "map_of (merge_states bs m) k = (if map_of m k = None \<and> k \<in> set bs then Some fresh_health else map_of m k)"
  unfolding merge_states_def by (induction bs arbitrary: m) (auto simp: gomap_simps)

lemma keys_merge_states: "set (keys (merge_states bs m)) = dom (map_of m) \<union> set bs"
proof -
  have "set (keys (merge_states bs m)) = {k. map_of (merge_states bs m) k \<noteq> None}"
    by (auto simp: map_of_eq_None_iff)
  then show ?thesis by (auto simp: map_of_merge_states split: if_splits)
qed

lemma wf_merge_states: "wf_map m \<Longrightarrow> wf_map (merge_states bs m)"
  unfolding merge_states_def by (induction bs arbitrary: m) auto

lemma map_of_prune_states:
  "wf_map m \<Longrightarrow> map_of (prune_states bs m) k =
     (case map_of m k of None \<Rightarrow> None | Some s \<Rightarrow> if k \<in> set bs \<or> healthy s then Some s else None)"
  unfolding prune_states_def by (simp add: map_of_filter_wf split: option.split)

lemma mem_getHealthyBackends:
  "wf_map (hc_states hc) \<Longrightarrow> b \<in> set (getHealthyBackends hc) \<longleftrightarrow> (\<exists>s. map_of (hc_states hc) b = Some s \<and> healthy s)"
  by (force simp: getHealthyBackends_def map_of_eq_Some_wf)

lemma rebalance_on_change_states:
  "hc_states (fst (rebalance_on_change p)) = hc_states (fst p)" "hw_store (snd (rebalance_on_change p)) = hw_store (snd p)"
  "hw_drain (snd (rebalance_on_change p)) = hw_drain (snd p)"
  by (cases p; simp add: rebalance_on_change_def Let_def split: prod.split option.split bool.split)+

text \<open>Only the end of a round starts a rebalance.\<close>

definition rebalance_view :: "'s health_world \<Rightarrow> rebalancer option \<times> string list list" where
  "rebalance_view w = (hw_rebalancer w, hw_triggered w)"

lemma probes_rebalance_view: "rebalance_view (snd (fold (probe st resp) xs p)) = rebalance_view (snd p)"
proof (induction xs arbitrary: p)
  case (Cons x xs)
  have "rebalance_view (snd (probe st resp x p)) = rebalance_view (snd p)"
    by (cases p) (simp add: probe_def recordResult_def rebalance_view_def Let_def)
  with Cons.IH [of "probe st resp x p"] show ?case by simp
qed simp

lemma refresh_rebalance_view: "rebalance_view (refresh_fallback st w) = rebalance_view w"
  by (simp add: refresh_fallback_def rebalance_view_def split: option.split prod.split)

lemma getHealthyBackends_cong: "hc_states hc = hc_states hc' \<Longrightarrow> getHealthyBackends hc = getHealthyBackends hc'"
  by (simp add: getHealthyBackends_def)

section \<open>Rounds on a registry that answers\<close>

text \<open>The concurrency of the probes: each started probe records once.\<close>

definition schedules :: "(string list \<Rightarrow> string list) \<Rightarrow> bool" where
  "schedules sched \<longleftrightarrow> (\<forall>xs. distinct xs \<longrightarrow> distinct (sched xs) \<and> set (sched xs) \<subseteq> set xs)"

text \<open>A registry that answers every call.\<close>

definition answers :: "'s store_ops \<Rightarrow> ('s \<Rightarrow> bool) \<Rightarrow> bool" where
  "answers st ok \<longleftrightarrow> (\<forall>b s. ok s \<longrightarrow> fst (AddBackend st b s) = None \<and> fst (RemoveBackend st b s) = None \<and>
     (\<exists>bs s'. ActiveBackends st s = (Inr bs, s')))"

lemma answers_active: "answers st ok \<Longrightarrow> ok s \<Longrightarrow> \<exists>bs s'. ActiveBackends st s = (Inr bs, s')"
  by (simp add: answers_def)

lemma checkAll_triggered:
  assumes "ActiveBackends st (hw_store w) = (Inr bs, s1)" and "schedules sched" and "wf_map (hc_states hc)"
    and "checkAll st resp sched (hc, w) = (hc', w')"
  shows "hc_rebalanceOnScale hc \<Longrightarrow> hw_rebalancer w = Some rb \<Longrightarrow> \<not> rb_rebalancing rb \<Longrightarrow> getHealthyBackends hc' \<noteq> hc_previousBackends hc \<Longrightarrow>
    getHealthyBackends hc' \<noteq> [] \<Longrightarrow> hw_triggered w' = hw_triggered w @ [getHealthyBackends hc']"
proof -
  let ?m = "merge_states bs (hc_states hc)"
  define p where "p = fold (probe st resp) (sched (keys ?m))
    (hc\<lparr>hc_states := prune_states bs ?m\<rparr>, refresh_fallback st (w\<lparr>hw_store := s1\<rparr>))"
  have p': "(hc', w') = rebalance_on_change p" using assms(1, 4) by (simp add: checkAll_def Let_def p_def)
  have "wf_map ?m" using assms(3) by (rule wf_merge_states)
  then have d: "distinct (sched (keys ?m))" using assms(2) by (simp add: schedules_def)
  have "same_settings (hc\<lparr>hc_states := prune_states bs ?m\<rparr>) (fst p)"
    using probes_checker(1) [OF d] by (metis p_def fst_conv)
  moreover have "rebalance_view (snd p) = rebalance_view w"
    by (simp add: p_def probes_rebalance_view refresh_rebalance_view) (simp add: rebalance_view_def)
  moreover have "getHealthyBackends hc' = getHealthyBackends (fst p)"
    using p' by (intro getHealthyBackends_cong) (metis fst_conv rebalance_on_change_states(1))
  moreover assume "hc_rebalanceOnScale hc" "hw_rebalancer w = Some rb" "\<not> rb_rebalancing rb"
    "getHealthyBackends hc' \<noteq> hc_previousBackends hc" "getHealthyBackends hc' \<noteq> []"
  ultimately show "hw_triggered w' = hw_triggered w @ [getHealthyBackends hc']"
    using p' by (cases p) (auto simp: rebalance_on_change_def same_settings_def rebalance_view_def stringSliceEqual_iff
        Trigger_def Let_def split: prod.splits)
qed

context backend_registry
begin

lemma recordResult_registry:
  assumes "answers st inv" and "inv (hw_store w)"
  shows "inv (hw_store (snd (recordResult st b success (hc, w))))"
    and "b' \<in> act (hw_store (snd (recordResult st b success (hc, w)))) \<longleftrightarrow>
      (if b' = b then active_after hc success (map_of (hc_states hc) b) (b \<in> act (hw_store w)) else b' \<in> act (hw_store w))"
proof -
  obtain s1 where a: "AddBackend st b (hw_store w) = (None, s1)"
    using assms(1, 2) by (metis answers_def prod.collapse)
  obtain s2 where r: "RemoveBackend st b (hw_store w) = (None, s2)"
    using assms(1, 2) by (metis answers_def prod.collapse)
  show "inv (hw_store (snd (recordResult st b success (hc, w))))"
    using assms(2) add_law [OF assms(2) a] remove_law [OF assms(2) r] by (simp add: recordResult_def Let_def a r)
  show "b' \<in> act (hw_store (snd (recordResult st b success (hc, w)))) \<longleftrightarrow>
      (if b' = b then active_after hc success (map_of (hc_states hc) b) (b \<in> act (hw_store w)) else b' \<in> act (hw_store w))"
    using add_law [OF assms(2) a] remove_law [OF assms(2) r]
    by (auto simp: recordResult_def active_after_def Let_def a r)
qed

text \<open>A pass over distinct backends.\<close>

lemma probes_registry:
  assumes "answers st inv" and "inv (hw_store (snd p))" and "distinct xs"
  shows "inv (hw_store (snd (fold (probe st resp) xs p))) \<and>
    (\<forall>b. b \<in> act (hw_store (snd (fold (probe st resp) xs p))) \<longleftrightarrow>
      (if b \<in> set xs
       then active_after (fst p) (resp b = Some 200) (map_of (hc_states (fst p)) b) (b \<in> act (hw_store (snd p)))
       else b \<in> act (hw_store (snd p))))"
  using assms(2, 3)
proof (induction xs arbitrary: p)
  case (Cons x xs)
  obtain hc w where p: "p = (hc, w)" by (cases p)
  let ?q = "probe st resp x p"
  note c = recordResult_checker [where p = p and st = st and b = x and success = "resp x = Some 200", folded probe_def]
  have w: "inv (hw_store w)" using Cons.prems(1) p by simp
  note r = recordResult_registry [OF assms(1) w, where hc = hc and b = x and success = "resp x = Some 200",
      folded probe_def p]
  have d: "x \<notin> set xs" "distinct xs" using Cons.prems(2) by simp_all
  from Cons.IH [OF r(1) d(2)] r(2) c(2) d(1) next_health_settings(2) [OF c(1)] show ?case
    by (simp add: p)
qed simp

lemma refresh_registry:
  assumes "inv (hw_store w)" and "answers st inv"
  shows "inv (hw_store (refresh_fallback st w)) \<and> act (hw_store (refresh_fallback st w)) = act (hw_store w)"
proof (cases "hw_redis w")
  case (Some r)
  obtain bs s' where "ActiveBackends st (hw_store w) = (Inr bs, s')" using answers_active [OF assms(2, 1)] by blast
  with active_law [OF assms(1) this] Some show ?thesis by (simp add: refresh_fallback_def)
qed (simp add: refresh_fallback_def assms)

lemma checkAll_round:
  fixes resp :: "string \<Rightarrow> nat option"
  assumes ans: "answers st inv" and inv: "inv (hw_store w)" and wf: "wf_map (hc_states hc)" and sched: "schedules sched"
  defines "p' \<equiv> checkAll st resp sched (hc, w)"
  obtains polled where "polled \<subseteq> dom (map_of (hc_states hc)) \<union> act (hw_store w)"
    and "(\<And>xs. set (sched xs) = set xs) \<Longrightarrow> polled = dom (map_of (hc_states hc)) \<union> act (hw_store w)"
    and "inv (hw_store (snd p'))" and "wf_map (hc_states (fst p'))"
    and "\<And>b. map_of (hc_states (fst p')) b = (if b \<in> polled
      then Some (next_health hc (resp b = Some 200) (known_state (act (hw_store w)) hc b)) else known_state (act (hw_store w)) hc b)"
    and "\<And>b. b \<in> act (hw_store (snd p')) \<longleftrightarrow> (if b \<in> polled
      then active_after hc (resp b = Some 200) (known_state (act (hw_store w)) hc b) (b \<in> act (hw_store w)) else b \<in> act (hw_store w))"
proof -
  obtain bs s1 where bs: "ActiveBackends st (hw_store w) = (Inr bs, s1)" using answers_active [OF ans inv] by blast
  note a = active_law [OF inv bs]
  let ?m = "merge_states bs (hc_states hc)"
  let ?xs = "sched (keys ?m)"
  define hc1 w1 where "hc1 = hc\<lparr>hc_states := prune_states bs ?m\<rparr>" and "w1 = refresh_fallback st (w\<lparr>hw_store := s1\<rparr>)"
  have p': "p' = rebalance_on_change (fold (probe st resp) ?xs (hc1, w1))"
    by (simp add: p'_def checkAll_def bs Let_def hc1_def w1_def)
  have m: "wf_map ?m" using wf by (rule wf_merge_states)
  have d: "distinct ?xs" "set ?xs \<subseteq> set (keys ?m)" using sched [unfolded schedules_def, rule_format, OF m] by simp_all
  have w1: "inv (hw_store (snd (hc1, w1)))" "act (hw_store w1) = act (hw_store w)"
    using refresh_registry [of "w\<lparr>hw_store := s1\<rparr>"] a ans by (simp_all add: w1_def)
  have wf1: "wf_map (hc_states (fst (hc1, w1)))" using m by (simp add: hc1_def prune_states_def)
  have ks: "set (keys ?m) = dom (map_of (hc_states hc)) \<union> act (hw_store w)"
    using a keys_merge_states [of bs "hc_states hc"] by simp
  note probes = probes_registry [OF ans w1(1) d(1), of resp] probes_checker [OF d(1), where p = "(hc1, w1)" and st = st and resp = resp]
  have known: "map_of (hc_states hc1) b = known_state (act (hw_store w)) hc b" for b
    using a by (auto simp: hc1_def known_state_def map_of_prune_states [OF m] map_of_merge_states fresh_health_def split: option.split)
  have nh: "next_health hc1 = next_health hc" "active_after hc1 = active_after hc"
    by (rule next_health_settings; simp add: same_settings_def hc1_def)+
  show thesis
  proof (rule that [of "set ?xs"])
    show "set ?xs \<subseteq> dom (map_of (hc_states hc)) \<union> act (hw_store w)" using d ks by simp
    show "(\<And>xs. set (sched xs) = set xs) \<Longrightarrow> set ?xs = dom (map_of (hc_states hc)) \<union> act (hw_store w)" using ks by simp
  qed (use probes(1) probes(3) probes(4) [OF wf1] known nh w1(2) in \<open>simp_all add: p' rebalance_on_change_states\<close>)
qed

end

lemma redis_answers: "answers (redis_store R net) (redis_inv R net)"
  by (simp add: answers_def redis_store_def redis_registry)

section \<open>Properties\<close>

text \<open>
  C29: A round of health checks counts failures per backend. For an active backend that is
  not marked unhealthy, a successful probe resets its count and leaves it active; a failing
  probe adds one, and exactly when the count reaches the threshold the backend is marked
  unhealthy and taken out of the registry (with draining on, the registry is left to the drain).
\<close>

theorem health_round_counts:
  assumes "redis_inv R net (hw_store w)" and "wf_map (hc_states hc)" and "schedules sched" and "\<And>xs. set (sched xs) = set xs"
    and "b \<in> actv R (hw_store w)"
    and "state = (case map_of (hc_states hc) b of None \<Rightarrow> fresh_health | Some s \<Rightarrow> s)" and "healthy state"
    and "checkAll (redis_store R net) resp sched (hc, w) = (hc', w')"
  shows "(resp b = Some 200 \<longrightarrow> b \<in> actv R (hw_store w') \<and> map_of (hc_states hc') b =
      Some \<lparr>consecutiveFails = 0, consecutiveSuccesses = consecutiveSuccesses state + 1, healthy = True\<rparr>) \<and>
    (resp b \<noteq> Some 200 \<longrightarrow>
      (b \<in> actv R (hw_store w') \<longleftrightarrow> consecutiveFails state + 1 < hc_unhealthyThreshold hc \<or> hc_drainOnUnhealthy hc) \<and>
      map_of (hc_states hc') b = Some \<lparr>consecutiveFails = consecutiveFails state + 1, consecutiveSuccesses = 0,
        healthy = (consecutiveFails state + 1 < hc_unhealthyThreshold hc)\<rparr>)"
proof -
  obtain polled where r: "polled = dom (map_of (hc_states hc)) \<union> actv R (hw_store w)"
    "map_of (hc_states hc') b = (if b \<in> polled
      then Some (next_health hc (resp b = Some 200) (known_state (actv R (hw_store w)) hc b)) else known_state (actv R (hw_store w)) hc b)"
    "b \<in> actv R (hw_store w') \<longleftrightarrow> (if b \<in> polled
      then active_after hc (resp b = Some 200) (known_state (actv R (hw_store w)) hc b) (b \<in> actv R (hw_store w)) else b \<in> actv R (hw_store w))"
    by (rule rstore.checkAll_round [OF redis_answers assms(1-3), of resp]) (use assms(4, 8) that in simp)
  have "known_state (actv R (hw_store w)) hc b = Some state" using assms(5, 6) by (simp add: known_state_def split: option.split)
  with assms(5, 7) r show ?thesis by (auto simp: next_health_def active_after_def Let_def)
qed

text \<open>A checker whose first backend has failed twice and whose third was taken out.\<close>

definition demo_checker :: health_checker where
  "demo_checker = (NewHealthChecker False True)\<lparr>hc_states :=
     [(''b1'', \<lparr>consecutiveFails = 2, consecutiveSuccesses = 0, healthy = True\<rparr>),
      (''b3'', \<lparr>consecutiveFails = 3, consecutiveSuccesses = 0, healthy = False\<rparr>)]\<rparr>"

definition demo_health_world :: "plain_redis health_world" where
  "demo_health_world = \<lparr>hw_store = demo_redis, hw_redis = None, hw_drain = NewDrainManager, hw_rebalancer = Some NewRebalancer,
     hw_triggered = []\<rparr>"

lemma demo_health_ok:
  "redis_inv plain_server demo_net (hw_store demo_health_world)" "wf_map (hc_states demo_checker)"
  "schedules (\<lambda>xs. xs)" "actv plain_server (hw_store demo_health_world) = {''b1'', ''b2''}"
  using demo_ok by (simp_all add: redis_inv_def demo_health_world_def demo_checker_def schedules_def)

theorem health_round_counts_witness:
  "''b1'' \<notin> actv plain_server (hw_store (snd (checkAll (redis_store plain_server demo_net) (\<lambda>_. None) (\<lambda>xs. xs)
     (demo_checker, demo_health_world))))"
proof -
  obtain hc' w' where p: "checkAll (redis_store plain_server demo_net) (\<lambda>_. None) (\<lambda>xs. xs) (demo_checker, demo_health_world) = (hc', w')"
    by (cases "checkAll (redis_store plain_server demo_net) (\<lambda>_. None) (\<lambda>xs. xs) (demo_checker, demo_health_world)")
  have "\<not> (''b1'' \<in> actv plain_server (hw_store w'))"
    using health_round_counts [OF demo_health_ok(1-3) refl, where b = "''b1''", OF _ refl _ p] demo_health_ok(4)
    by (simp add: demo_checker_def NewHealthChecker_def)
  then show ?thesis by (simp add: p)
qed

text \<open>
  C39: The health checker never brings a backend back. Over any number of rounds, whatever
  the probes answer and in whatever order they finish, the set of active backends only
  shrinks: the branch that adds a recovered backend is taken only for backends that are in
  the registry already.
\<close>

theorem health_rounds_never_add:
  assumes "redis_inv R net (hw_store w)" and "wf_map (hc_states hc)"
    and "\<forall>(resp, sched) \<in> set rounds. schedules sched"
  shows "actv R (hw_store (snd (fold (\<lambda>(resp, sched). checkAll (redis_store R net) resp sched) rounds (hc, w))))
    \<subseteq> actv R (hw_store w)"
  using assms
proof (induction rounds arbitrary: hc w)
  case (Cons round rounds)
  obtain resp sched where round: "round = (resp, sched)" by (cases round)
  obtain hc' w' where p: "checkAll (redis_store R net) resp sched (hc, w) = (hc', w')"
    by (cases "checkAll (redis_store R net) resp sched (hc, w)")
  have s: "schedules sched" using Cons.prems(3) round by simp
  obtain polled where r: "redis_inv R net (hw_store w')" "wf_map (hc_states hc')"
    "\<And>b. b \<in> actv R (hw_store w') \<longleftrightarrow> (if b \<in> polled
      then active_after hc (resp b = Some 200) (known_state (actv R (hw_store w)) hc b) (b \<in> actv R (hw_store w)) else b \<in> actv R (hw_store w))"
    by (rule rstore.checkAll_round [OF redis_answers Cons.prems(1, 2) s, of resp]) (use p that in simp)
  have "actv R (hw_store w') \<subseteq> actv R (hw_store w)"
  proof
    fix b assume "b \<in> actv R (hw_store w')"
    then show "b \<in> actv R (hw_store w)"
      by (auto simp: r(3) active_after_def known_state_def fresh_health_def Let_def split: if_splits option.splits)
  qed
  with Cons.IH [OF r(1, 2)] Cons.prems(3) show ?case by (auto simp: round p)
qed simp

theorem health_rounds_never_add_witness:
  "actv plain_server (hw_store (snd (fold (\<lambda>(resp, sched). checkAll (redis_store plain_server demo_net) resp sched)
     [(\<lambda>_. Some 200, \<lambda>xs. xs), (\<lambda>_. Some 200, rev)] (demo_checker, demo_health_world)))) \<subseteq> {''b1'', ''b2''}"
  using health_rounds_never_add [OF demo_health_ok(1, 2), where rounds = "[(\<lambda>_. Some 200, \<lambda>xs. xs), (\<lambda>_. Some 200, rev)]"]
    demo_health_ok(4)
  by (simp add: schedules_def)

text \<open>
  A backend that was taken out for being unhealthy is counted as healthy again one
  round later. Its state is pruned before the probe, and the probe starts a new state that
  is healthy, whether or not the backend answers. The backend is not in the registry, but it
  is among the healthy backends, and an idle rebalancer is started with it as a target.
\<close>

theorem removed_backend_counts_as_healthy:
  assumes "redis_inv R net (hw_store w)" and "wf_map (hc_states hc)" and "schedules sched" and "\<And>xs. set (sched xs) = set xs"
    and "1 < hc_unhealthyThreshold hc" and "b \<notin> actv R (hw_store w)"
    and "map_of (hc_states hc) b = Some state" and "\<not> healthy state"
    and "checkAll (redis_store R net) resp sched (hc, w) = (hc', w')"
  shows "b \<in> set (getHealthyBackends hc') \<and> b \<notin> actv R (hw_store w') \<and>
    (hc_rebalanceOnScale hc \<and> hw_rebalancer w = Some rb \<and> \<not> rb_rebalancing rb \<and> b \<notin> set (hc_previousBackends hc) \<longrightarrow>
      (\<exists>targets. hw_triggered w' = hw_triggered w @ [targets] \<and> b \<in> set targets))"
proof -
  obtain polled where r: "polled = dom (map_of (hc_states hc)) \<union> actv R (hw_store w)" "wf_map (hc_states hc')"
    "map_of (hc_states hc') b = (if b \<in> polled
      then Some (next_health hc (resp b = Some 200) (known_state (actv R (hw_store w)) hc b)) else known_state (actv R (hw_store w)) hc b)"
    "b \<in> actv R (hw_store w') \<longleftrightarrow> (if b \<in> polled
      then active_after hc (resp b = Some 200) (known_state (actv R (hw_store w)) hc b) (b \<in> actv R (hw_store w)) else b \<in> actv R (hw_store w))"
    by (rule rstore.checkAll_round [OF redis_answers assms(1-3), of resp]) (use assms(4, 9) that in simp)
  have known: "known_state (actv R (hw_store w)) hc b = None" using assms(6-8) by (simp add: known_state_def)
  have "b \<in> polled" using assms(7) by (auto simp: r(1))
  with r assms(5, 6) known have h: "b \<in> set (getHealthyBackends hc')" "b \<notin> actv R (hw_store w')"
    by (auto simp: mem_getHealthyBackends next_health_def active_after_def fresh_health_def Let_def)
  obtain bs s1 where bs: "ActiveBackends (redis_store R net) (hw_store w) = (Inr bs, s1)"
    using answers_active [OF redis_answers assms(1)] by blast
  have ne: "getHealthyBackends hc' \<noteq> []" "b \<notin> set (hc_previousBackends hc) \<Longrightarrow> getHealthyBackends hc' \<noteq> hc_previousBackends hc"
    using h(1) by auto
  note t = checkAll_triggered [OF bs assms(3, 2, 9) _ _ _ _ ne(1)]
  show ?thesis using h ne(2) t by blast
qed

theorem removed_backend_counts_as_healthy_witness:
  "\<exists>targets. hw_triggered (snd (checkAll (redis_store plain_server demo_net) (\<lambda>_. None) (\<lambda>xs. xs)
     (demo_checker, demo_health_world))) = [targets] \<and> ''b3'' \<in> set targets"
proof -
  obtain hc' w' where p: "checkAll (redis_store plain_server demo_net) (\<lambda>_. None) (\<lambda>xs. xs) (demo_checker, demo_health_world) = (hc', w')"
    by (cases "checkAll (redis_store plain_server demo_net) (\<lambda>_. None) (\<lambda>xs. xs) (demo_checker, demo_health_world)")
  have "\<exists>targets. hw_triggered w' = [targets] \<and> ''b3'' \<in> set targets"
    using removed_backend_counts_as_healthy [OF demo_health_ok(1-3) refl, where b = "''b3''" and rb = NewRebalancer, OF _ _ _ _ p] demo_health_ok(4)
    by (simp add: demo_checker_def NewHealthChecker_def demo_health_world_def NewRebalancer_def)
  then show ?thesis by (simp add: p)
qed

end
