(* ===== verification/Account_Discovery.thy ===== *)
theory Account_Discovery
  imports Rebalancer
begin

text \<open>
  Account discovery (discovery.go) and its sources (discovery_http.go, discovery_postgres.go,
  discovery_redis.go). \<open>reconcile\<close> is one pass of the loop: the accounts that the source
  returned are compared with the table, stale assignments are deleted and what is unassigned
  is spread over the active backends. A source is its answer: the HTTP response with the
  JSON value of its body, the rows of the query, the members of the set.
\<close>

record discovered_account =
  AccountID :: string
  AccountWeight :: int

section \<open>Sources\<close>

text \<open>
  JSON values and what \<^verbatim>\<open>json.Unmarshal\<close> makes of them. An integer literal is \<open>JNum\<close>, any
  other number \<open>JFrac\<close>; field names are compared without case, \<^verbatim>\<open>null\<close> leaves a field alone,
  and unknown fields are skipped.
\<close>

datatype json = JNull | JBool bool | JNum int | JFrac | JStr string | JArr "json list" | JObj "(string \<times> json) list"

definition decode_field :: "string \<times> json \<Rightarrow> discovered_account option \<Rightarrow> discovered_account option" where
  "decode_field = (\<lambda>(name, v) acct. case acct of
       None \<Rightarrow> None
     | Some acct \<Rightarrow>
         if EqualFold name ''id''
         then (case v of JStr s \<Rightarrow> Some (acct\<lparr>AccountID := s\<rparr>) | JNull \<Rightarrow> Some acct | _ \<Rightarrow> None)
         else if EqualFold name ''weight''
         then (case v of
                 JNum n \<Rightarrow> if - (2 ^ 63) \<le> n \<and> n < 2 ^ 63 then Some (acct\<lparr>AccountWeight := n\<rparr>) else None
               | JNull \<Rightarrow> Some acct
               | _ \<Rightarrow> None)
         else Some acct)"

definition decode_account :: "json \<Rightarrow> discovered_account option" where
  "decode_account v =
     (case v of
        JObj fs \<Rightarrow> fold decode_field fs (Some \<lparr>AccountID = [], AccountWeight = 0\<rparr>)
      | JNull \<Rightarrow> Some \<lparr>AccountID = [], AccountWeight = 0\<rparr>
      | _ \<Rightarrow> None)"

definition decode_string :: "json \<Rightarrow> string option" where
  "decode_string v = (case v of JStr s \<Rightarrow> Some s | JNull \<Rightarrow> Some [] | _ \<Rightarrow> None)"

fun those_list :: "'a option list \<Rightarrow> 'a list option" where
  "those_list [] = Some []"
| "those_list (None # _) = None"
| "those_list (Some x # xs) = map_option ((#) x) (those_list xs)"

definition decode_array :: "(json \<Rightarrow> 'a option) \<Rightarrow> json \<Rightarrow> 'a list option" where
  "decode_array f v = (case v of JArr vs \<Rightarrow> those_list (map f vs) | JNull \<Rightarrow> Some [] | _ \<Rightarrow> None)"

datatype source_error = ErrRequest | ErrStatus nat | ErrBody | ErrRows

definition plain_accounts :: "string list \<Rightarrow> discovered_account list" where
  "plain_accounts ids = map (\<lambda>id. \<lparr>AccountID = id, AccountWeight = 0\<rparr>) ids"

text \<open>The response: \<open>None\<close> if the request failed; a body that is not JSON has the value \<open>None\<close>.\<close>

definition HTTP_FetchAccounts :: "(nat \<times> json option) option \<Rightarrow> source_error + discovered_account list" where
  "HTTP_FetchAccounts resp =
     (case resp of
        None \<Rightarrow> Inl ErrRequest
      | Some (status, body) \<Rightarrow>
          if status \<noteq> 200 then Inl (ErrStatus status)
          else case body of
                 None \<Rightarrow> Inl ErrBody
               | Some v \<Rightarrow>
                   (case decode_array decode_account v of
                      Some accounts \<Rightarrow>
                        if accounts = [] \<or> AccountID (hd accounts) \<noteq> [] then Inr accounts
                        else (case decode_array decode_string v of None \<Rightarrow> Inl ErrBody | Some ids \<Rightarrow> Inr (plain_accounts ids))
                    | None \<Rightarrow> (case decode_array decode_string v of None \<Rightarrow> Inl ErrBody | Some ids \<Rightarrow> Inr (plain_accounts ids))))"

text \<open>
  The rows of the query: each the account that \<^verbatim>\<open>Scan\<close> reads, or \<open>None\<close> if it fails; then
  whether the iteration ended with an error, and whether closing did.
\<close>

definition Postgres_FetchAccounts ::
  "(discovered_account option list \<times> bool \<times> bool) option \<Rightarrow> source_error + discovered_account list" where
  "Postgres_FetchAccounts query =
     (case query of
        None \<Rightarrow> Inl ErrRequest
      | Some (rows, rows_err, close_err) \<Rightarrow>
          (case those_list rows of
             None \<Rightarrow> Inl ErrRows
           | Some accounts \<Rightarrow> if rows_err \<or> close_err then Inl ErrRows else Inr accounts))"

definition Redis_FetchAccounts ::
  "'s redis_server \<Rightarrow> 's network \<Rightarrow> string \<Rightarrow> 's \<Rightarrow> (source_error + discovered_account list) \<times> 's" where
  "Redis_FetchAccounts R net key s =
     (case call net (\<lambda>s. (SMEMBERS R key s, s)) s of
        (None, s) \<Rightarrow> (Inl ErrRequest, s)
      | (Some ids, s) \<Rightarrow> (Inr (plain_accounts ids), s))"

section \<open>Reconciliation\<close>

definition unassigned_accounts :: "table \<Rightarrow> string list \<Rightarrow> discovered_account list \<Rightarrow> discovered_account list" where
  "unassigned_accounts current backends accounts =
     filter (\<lambda>acct. case map_of current (AccountID acct) of
         None \<Rightarrow> True | Some a \<Rightarrow> Backend a \<notin> set backends) accounts"

definition stale_keys :: "table \<Rightarrow> string list \<Rightarrow> discovered_account list \<Rightarrow> string list" where
  "stale_keys current backends accounts =
     map AccountID (filter (\<lambda>acct. case map_of current (AccountID acct) of
         None \<Rightarrow> False | Some a \<Rightarrow> Backend a \<notin> set backends) accounts)"

definition spread :: "string list \<Rightarrow> discovered_account list \<Rightarrow> bulk_entries" where
  "spread backends unassigned =
     fold (\<lambda>(i, acct). put (AccountID acct) \<lparr>EntryBackend = round_robin backends i, EntryWeight = AccountWeight acct\<rparr>)
       (enumerate 0 unassigned) []"

definition assign_accounts :: "'s deps \<Rightarrow> instant \<Rightarrow> table \<Rightarrow> string list \<Rightarrow> discovered_account list \<Rightarrow> 's world \<Rightarrow> 's world" where
  "assign_accounts dp now current backends accounts w =
     (let stale = stale_keys current backends accounts;
          unassigned = unassigned_accounts current backends accounts;
          w = (if stale = [] then w else w\<lparr>w_store := snd (BulkDeleteAssignments (d_store dp) stale (w_store w))\<rparr>)
      in if unassigned = [] then w
         else
           let ((assigned, err), s) = BulkAssign (d_store dp) now (spread backends unassigned) (w_store w);
               w = w\<lparr>w_store := s\<rparr>
           in fold (\<lambda>(b, us). send_hook dp (AssignHook b us)) (group_by snd fst assigned) w)"

definition Discovery_reconcile ::
  "'s deps \<Rightarrow> instant \<Rightarrow> source_error + discovered_account list \<Rightarrow> 's world \<Rightarrow> 's world" where
  "Discovery_reconcile dp now fetched w =
     (case fetched of
        Inl err \<Rightarrow> w
      | Inr accounts \<Rightarrow>
          (case GetAllAssignments (d_store dp) (w_store w) of
             (Inl err, s) \<Rightarrow> w\<lparr>w_store := s\<rparr>
           | (Inr current, s) \<Rightarrow>
               (case ActiveBackends (d_store dp) s of
                  (Inl err, s) \<Rightarrow> w\<lparr>w_store := s\<rparr>
                | (Inr backends, s) \<Rightarrow>
                    if backends = [] then w\<lparr>w_store := s\<rparr>
                    else assign_accounts dp now current (sort backends) accounts (w\<lparr>w_store := s\<rparr>))))"

record account_discovery =
  ad_seeded :: bool

definition SeedAccounts ::
  "'s deps \<Rightarrow> instant \<Rightarrow> source_error + discovered_account list \<Rightarrow> account_discovery \<times> 's world \<Rightarrow> account_discovery \<times> 's world" where
  "SeedAccounts dp now fetched = (\<lambda>(d, w). (d\<lparr>ad_seeded := True\<rparr>, Discovery_reconcile dp now fetched w))"

text \<open>The loop, as far as it has come: the ticks with what the source answered at each.\<close>

definition Discovery_Start ::
  "'s deps \<Rightarrow> instant \<times> (source_error + discovered_account list) \<Rightarrow>
   (instant \<times> (source_error + discovered_account list)) list \<Rightarrow> account_discovery \<times> 's world \<Rightarrow> 's world" where
  "Discovery_Start dp first ticks = (\<lambda>(d, w).
     let w = (if ad_seeded d then w else Discovery_reconcile dp (fst first) (snd first) w)
     in fold (\<lambda>(now, fetched). Discovery_reconcile dp now fetched) ticks w)"

section \<open>Reading both body formats\<close>

lemma those_list_map_Some: "those_list (map (\<lambda>x. Some (f x)) xs) = Some (map f xs)"
  by (induction xs) simp_all

definition encode_account :: "discovered_account \<Rightarrow> json" where
  "encode_account a = JObj ((''id'', JStr (AccountID a)) # (if AccountWeight a = 0 then [] else [(''weight'', JNum (AccountWeight a))]))"

lemma decode_encode_account:
  assumes "- (2 ^ 63) \<le> AccountWeight a" "AccountWeight a < 2 ^ 63"
  shows "decode_account (encode_account a) = Some a"
proof -
  have "EqualFold ''id'' ''id''" "\<not> EqualFold ''weight'' ''id''" "EqualFold ''weight'' ''weight''" by code_simp+
  with assms show ?thesis by (cases a) (simp add: encode_account_def decode_account_def decode_field_def)
qed

section \<open>Spreading accounts\<close>

lemma wf_spread [simp]: "wf_map (spread backends xs)"
proof -
  have "wf_map m \<Longrightarrow> wf_map (fold (\<lambda>(i, acct). put (AccountID acct) (f i acct)) ys m)" for ys f and m :: bulk_entries
    by (induction ys arbitrary: m) auto
  from this [of "[]"] show ?thesis by (simp add: spread_def)
qed

lemma fold_put_enum:
  "map_of (fold (\<lambda>(i, x). put (f x) (g i x)) ys m) k = Some v \<longrightarrow>
     map_of m k = Some v \<or> (\<exists>(i, x) \<in> set ys. f x = k \<and> v = g i x)"
  "map_of (fold (\<lambda>(i, x). put (f x) (g i x)) ys m) k = None \<longleftrightarrow> map_of m k = None \<and> (\<forall>(i, x) \<in> set ys. f x \<noteq> k)"
proof -
  show "map_of (fold (\<lambda>(i, x). put (f x) (g i x)) ys m) k = Some v \<longrightarrow>
     map_of m k = Some v \<or> (\<exists>(i, x) \<in> set ys. f x = k \<and> v = g i x)"
  proof (induction ys arbitrary: m)
    case (Cons y ys)
    from Cons.IH [of "put (f (snd y)) (g (fst y) (snd y)) m"] show ?case
      by (cases y) (auto simp: gomap_simps split: if_splits)
  qed simp
  show "map_of (fold (\<lambda>(i, x). put (f x) (g i x)) ys m) k = None \<longleftrightarrow> map_of m k = None \<and> (\<forall>(i, x) \<in> set ys. f x \<noteq> k)"
  proof (induction ys arbitrary: m)
    case (Cons y ys)
    from Cons.IH [of "put (f (snd y)) (g (fst y) (snd y)) m"] show ?case
      by (cases y) (auto simp: gomap_simps)
  qed simp
qed

lemma spread_None: "map_of (spread backends xs) k = None \<longleftrightarrow> k \<notin> AccountID ` set xs"
proof -
  have "map_of (spread backends xs) k = None \<longleftrightarrow> (\<forall>(i, x) \<in> set (enumerate 0 xs). AccountID x \<noteq> k)"
    unfolding spread_def by (simp add: fold_put_enum(2))
  also have "\<dots> \<longleftrightarrow> k \<notin> AccountID ` snd ` set (enumerate 0 xs)" by (auto simp: split_def)
  also have "snd ` set (enumerate 0 xs) = set xs" by (simp flip: set_map)
  finally show ?thesis .
qed

lemma spread_Some:
  assumes "map_of (spread backends xs) k = Some e"
  obtains i where "i < length xs" "AccountID (xs ! i) = k" "e = \<lparr>EntryBackend = round_robin backends i, EntryWeight = AccountWeight (xs ! i)\<rparr>"
proof -
  from assms fold_put_enum(1) [of AccountID _ "enumerate 0 xs" "[]" k e] obtain p where
    "p \<in> set (enumerate 0 xs)" "AccountID (snd p) = k" "e = \<lparr>EntryBackend = round_robin backends (fst p), EntryWeight = AccountWeight (snd p)\<rparr>"
    unfolding spread_def by fastforce
  then show thesis by (intro that [of "fst p"]) (auto simp: in_set_enumerate_eq)
qed

text \<open>Round robin is balanced: each position gets the integer share of \<open>n\<close> or one more.\<close>

lemma round_robin_share:
  fixes k :: nat
  assumes "j < k"
  shows "n div k \<le> card {i. i < n \<and> i mod k = j}" and "card {i. i < n \<and> i mod k = j} \<le> n div k + 1"
proof -
  let ?Q = "{q. q * k + j < n}"
  have "{i. i < n \<and> i mod k = j} = (\<lambda>q. q * k + j) ` ?Q"
  proof (intro set_eqI iffI)
    fix i assume "i \<in> {i. i < n \<and> i mod k = j}"
    then show "i \<in> (\<lambda>q. q * k + j) ` ?Q"
      using div_mult_mod_eq [of i k] by (intro image_eqI [of _ _ "i div k"]) auto
  qed (use assms in auto)
  moreover have "inj_on (\<lambda>q. q * k + j) ?Q" using assms by (auto simp: inj_on_def)
  ultimately have c: "card {i. i < n \<and> i mod k = j} = card ?Q" by (simp add: card_image)
  have up: "?Q \<subseteq> {..n div k}"
  proof
    fix q assume "q \<in> ?Q"
    then have "q * k \<le> n" by simp
    then show "q \<in> {..n div k}" using assms by (simp add: less_eq_div_iff_mult_less_eq)
  qed
  have low: "{..<n div k} \<subseteq> ?Q"
  proof
    fix q assume "q \<in> {..<n div k}"
    then have "Suc q \<le> n div k" by simp
    then have "Suc q * k \<le> n" using assms by (simp add: less_eq_div_iff_mult_less_eq)
    then show "q \<in> ?Q" using assms by simp
  qed
  have "finite ?Q" using up by (rule finite_subset) simp
  then show "n div k \<le> card {i. i < n \<and> i mod k = j}" using card_mono [OF _ low] c by simp
  show "card {i. i < n \<and> i mod k = j} \<le> n div k + 1" using card_mono [OF _ up] c by simp
qed

lemma spread_nth:
  assumes "distinct (map AccountID xs)" and "i < length xs"
  shows "map_of (spread backends xs) (AccountID (xs ! i)) =
    Some \<lparr>EntryBackend = round_robin backends i, EntryWeight = AccountWeight (xs ! i)\<rparr>"
proof -
  have "map_of (spread backends xs) (AccountID (xs ! i)) \<noteq> None" using assms(2) by (simp add: spread_None)
  then obtain e where e: "map_of (spread backends xs) (AccountID (xs ! i)) = Some e" by auto
  then obtain j where j: "j < length xs" "AccountID (xs ! j) = AccountID (xs ! i)"
    "e = \<lparr>EntryBackend = round_robin backends j, EntryWeight = AccountWeight (xs ! j)\<rparr>" by (rule spread_Some)
  have "j = i" using assms j(1, 2) by (metis distinct_conv_nth length_map nth_map)
  with e j(3) show ?thesis by simp
qed

text \<open>The accounts that end on one backend.\<close>

lemma spread_share:
  assumes "distinct (map AccountID xs)" and "distinct backends" and "j < length backends"
  shows "card {k. \<exists>e. map_of (spread backends xs) k = Some e \<and> EntryBackend e = backends ! j} =
    card {i. i < length xs \<and> i mod length backends = j}"
proof -
  let ?I = "{i. i < length xs \<and> i mod length backends = j}"
  have rr: "round_robin backends i = backends ! j \<longleftrightarrow> i mod length backends = j" for i
  proof -
    have "0 < length backends" using assms(3) by linarith
    then have "i mod length backends < length backends" by (rule mod_less_divisor)
    from nth_eq_iff_index_eq [OF assms(2) this assms(3)] show ?thesis by (simp add: round_robin_def)
  qed
  have "{k. \<exists>e. map_of (spread backends xs) k = Some e \<and> EntryBackend e = backends ! j} = (\<lambda>i. AccountID (xs ! i)) ` ?I"
  proof (intro set_eqI iffI)
    fix k assume "k \<in> {k. \<exists>e. map_of (spread backends xs) k = Some e \<and> EntryBackend e = backends ! j}"
    then obtain e where "map_of (spread backends xs) k = Some e" "EntryBackend e = backends ! j" by auto
    then obtain i where "i < length xs" "AccountID (xs ! i) = k" "round_robin backends i = backends ! j"
      by (auto elim: spread_Some)
    then show "k \<in> (\<lambda>i. AccountID (xs ! i)) ` ?I" using rr by auto
  qed (auto simp: spread_nth [OF assms(1)] round_robin_def)
  moreover have "inj_on (\<lambda>i. AccountID (xs ! i)) ?I"
    using assms(1) by (auto simp: inj_on_def distinct_conv_nth)
  ultimately show ?thesis by (simp add: card_image)
qed

lemma spread_even:
  assumes "distinct (map AccountID xs)" and "distinct backends" and "b \<in> set backends" and "b' \<in> set backends"
  shows "card {k. \<exists>e. map_of (spread backends xs) k = Some e \<and> EntryBackend e = b} \<le>
    card {k. \<exists>e. map_of (spread backends xs) k = Some e \<and> EntryBackend e = b'} + 1"
proof -
  let ?q = "length xs div length backends"
  obtain j j' where j: "j < length backends" "backends ! j = b" "j' < length backends" "backends ! j' = b'"
    using assms(3, 4) by (auto simp: in_set_conv_nth)
  then show ?thesis
    using spread_share [OF assms(1, 2) j(1)] spread_share [OF assms(1, 2) j(3)]
      round_robin_share(2) [OF j(1), of "length xs"] round_robin_share(1) [OF j(3), of "length xs"]
    by simp
qed

section \<open>A pass on a store that succeeds\<close>

lemma assign_accounts_store:
  "w_store (assign_accounts dp now current backends accounts w) =
    (let s = (if stale_keys current backends accounts = [] then w_store w
              else snd (BulkDeleteAssignments (d_store dp) (stale_keys current backends accounts) (w_store w)))
     in if unassigned_accounts current backends accounts = [] then s
        else snd (BulkAssign (d_store dp) now (spread backends (unassigned_accounts current backends accounts)) s))"
  by (auto simp: assign_accounts_def Let_def send_hooks split: prod.split)

context assignment_store
begin

lemma reconcile_table:
  fixes accounts :: "discovered_account list"
  assumes dp: "d_store dp = st" and inv: "inv (w_store w)" and wf: "wf_map current" and cur: "map_of current = tab (w_store w)"
    and bs: "set backends = act (w_store w)"
    and del: "\<And>ks s. inv s \<Longrightarrow> \<exists>s'. BulkDeleteAssignments st ks s = (None, s')"
    and bulk: "\<And>es s. inv s \<Longrightarrow> wf_map es \<Longrightarrow> \<exists>m s'. BulkAssign st now es s = ((m, None), s')"
  defines "w' \<equiv> assign_accounts dp now current backends accounts w"
  shows "inv (w_store w') \<and> act (w_store w') = act (w_store w) \<and>
    tab (w_store w') k = (case map_of (spread backends (unassigned_accounts current backends accounts)) k of
      None \<Rightarrow> tab (w_store w) k
    | Some e \<Rightarrow> Some (new_assignment now (EntryBackend e) (norm_weight (EntryWeight e))))"
proof -
  let ?stale = "stale_keys current backends accounts" and ?un = "unassigned_accounts current backends accounts"
  obtain s1 where s1: "BulkDeleteAssignments st ?stale (w_store w) = (None, s1)" using del [OF inv] by blast
  define s where "s = (if ?stale = [] then w_store w else s1)"
  have s: "inv s" "act s = act (w_store w)" "tab s = tab (w_store w) |` (- set ?stale)"
    using bulk_delete_law [OF inv s1] inv by (auto simp: s_def restrict_map_def)
  obtain m s2 where s2: "BulkAssign st now (spread backends ?un) s = ((m, None), s2)" using bulk [OF s(1) wf_spread] by blast
  note a = bulk_assign_law [OF s(1) wf_spread s2]
  have store: "w_store w' = (if ?un = [] then s else s2)"
    using s2 by (auto simp: w'_def assign_accounts_store dp s1 s_def Let_def)
  have sub: "set ?stale \<subseteq> AccountID ` set ?un"
    by (auto simp: stale_keys_def unassigned_accounts_def split: option.splits)
  have fresh: "tab s k = None" if "k \<in> AccountID ` set ?un" for k
  proof -
    from that obtain acct where "acct \<in> set accounts" "AccountID acct = k"
      "case map_of current k of None \<Rightarrow> True | Some a \<Rightarrow> Backend a \<notin> set backends"
      by (auto simp: unassigned_accounts_def)
    then have "k \<in> set ?stale \<or> tab (w_store w) k = None"
      by (cases "map_of current k") (auto simp: stale_keys_def cur [symmetric])
    then show ?thesis by (auto simp: s(3) restrict_map_def)
  qed
  have keep: "tab s k = tab (w_store w) k" if "k \<notin> AccountID ` set ?un" for k
    using that sub by (auto simp: s(3) restrict_map_def)
  have un: "?un = [] \<Longrightarrow> map_of (spread backends ?un) k = None" by (simp add: spread_def)
  show ?thesis
    using a s(1, 2) fresh [of k] keep [of k] spread_None [of backends ?un k] un
    by (auto simp: store split: option.split)
qed

end

lemma redis_bulk_answers:
  assumes "redis_inv R net s"
  shows "\<exists>s'. BulkDeleteAssignments (redis_store R net) ks s = (None, s')"
    and "wf_map es \<Longrightarrow> \<exists>m s'. BulkAssign (redis_store R net) now es s = ((m, None), s')"
proof -
  have ok: "rok R s" "reliable net" using assms by (simp_all add: redis_inv_def)
  show "\<exists>s'. BulkDeleteAssignments (redis_store R net) ks s = (None, s')"
    by (rule BulkDelete_effect [OF ok, of ks]) (simp add: redis_store_def)
  show "\<exists>m s'. BulkAssign (redis_store R net) now es s = ((m, None), s')" if "wf_map es"
    by (rule BulkAssign_effect [OF ok that, of now]) (simp add: redis_store_def)
qed

text \<open>
  A pass on Redis, by the backends it spreads over and the accounts it places; an account is
  settled if it is assigned to an active backend.
\<close>

definition settled_on :: "'s redis_server \<Rightarrow> 's \<Rightarrow> string \<Rightarrow> bool" where
  "settled_on R s k \<longleftrightarrow> (\<exists>a. tab R s k = Some a \<and> Backend a \<in> actv R s)"

definition spread_over :: "'s redis_server \<Rightarrow> 's \<Rightarrow> string list" where
  "spread_over R s = sort (SMEMBERS R active_key s)"

definition to_place :: "'s redis_server \<Rightarrow> 's \<Rightarrow> discovered_account list \<Rightarrow> discovered_account list" where
  "to_place R s accounts = unassigned_accounts (redis_table R s) (spread_over R s) accounts"

lemma spread_over_active:
  assumes "redis_inv R net s"
  shows "set (spread_over R s) = actv R s" "distinct (spread_over R s)"
  using rstore.active_law [OF assms, of "SMEMBERS R active_key s" s] redis_registry(1) [OF assms]
  by (simp_all add: redis_store_def spread_over_def)

lemma to_place_iff:
  assumes "redis_inv R net s"
  shows "acct \<in> set (to_place R s accounts) \<longleftrightarrow> acct \<in> set accounts \<and> \<not> settled_on R s (AccountID acct)"
proof -
  have "redis_documented R" using assms by (simp add: redis_inv_def rok_def)
  note t = redis_table [OF this, of s]
  show ?thesis unfolding to_place_def unassigned_accounts_def settled_on_def t(2) spread_over_active(1) [OF assms]
    by (fastforce split: option.splits)
qed

lemma reconcile_on_redis:
  fixes accounts :: "discovered_account list" and now :: instant
  assumes "redis_inv R net (w_store w)" and "d_store dp = redis_store R net" and "actv R (w_store w) \<noteq> {}"
  defines "w' \<equiv> Discovery_reconcile dp now (Inr accounts) w"
  shows "redis_inv R net (w_store w')" "actv R (w_store w') = actv R (w_store w)"
    "tab R (w_store w') k = (case map_of (spread (spread_over R (w_store w)) (to_place R (w_store w) accounts)) k of
      None \<Rightarrow> tab R (w_store w) k | Some e \<Rightarrow> Some (new_assignment now (EntryBackend e) (norm_weight (EntryWeight e))))"
proof -
  let ?s = "w_store w" and ?cur = "redis_table R (w_store w)"
  have ok: "reliable net" and doc: "redis_documented R" using assms(1) by (simp_all add: redis_inv_def rok_def)
  note t = redis_table [OF doc, of ?s] and bs = spread_over_active [OF assms(1)]
  have "SMEMBERS R active_key ?s \<noteq> []" using assms(3) bs(1) by (metis set_empty set_sort spread_over_def)
  then have w': "w' = assign_accounts dp now ?cur (spread_over R ?s) accounts w"
    by (simp add: w'_def Discovery_reconcile_def assms(2) redis_store_def GetAll_effect [OF ok] redis_registry(1) [OF assms(1)] spread_over_def)
  show "redis_inv R net (w_store w')" "actv R (w_store w') = actv R (w_store w)"
    "tab R (w_store w') k = (case map_of (spread (spread_over R (w_store w)) (to_place R (w_store w) accounts)) k of
      None \<Rightarrow> tab R (w_store w) k | Some e \<Rightarrow> Some (new_assignment now (EntryBackend e) (norm_weight (EntryWeight e))))"
    using rstore.reconcile_table [OF assms(2, 1) t(1, 2) bs(1) redis_bulk_answers, where accounts = accounts and now = now and k = k]
    by (simp_all add: w' to_place_def)
qed

lemma spread_placed:
  assumes "redis_inv R net s" and "actv R s \<noteq> {}" and "acct \<in> set accounts" and "\<not> settled_on R s (AccountID acct)"
  shows "\<exists>e. map_of (spread (spread_over R s) (to_place R s accounts)) (AccountID acct) = Some e \<and> EntryBackend e \<in> actv R s"
proof -
  let ?bs = "spread_over R s" and ?un = "to_place R s accounts"
  have "AccountID acct \<in> AccountID ` set ?un" using to_place_iff [OF assms(1)] assms(3, 4) by simp
  then have "map_of (spread ?bs ?un) (AccountID acct) \<noteq> None" using spread_None [of ?bs ?un "AccountID acct"] by simp
  then obtain e where e: "map_of (spread ?bs ?un) (AccountID acct) = Some e" by auto
  then obtain i where "EntryBackend e = round_robin ?bs i" by (rule spread_Some) simp
  moreover have "?bs \<noteq> []" using assms(2) spread_over_active(1) [OF assms(1)] by auto
  ultimately show ?thesis using e round_robin_in spread_over_active(1) [OF assms(1)] by auto
qed

text \<open>Every account of the source ends up on an active backend; settled ones stay where they are.\<close>

lemma reconcile_assigns:
  fixes accounts :: "discovered_account list" and now :: instant
  assumes "redis_inv R net (w_store w)" and "d_store dp = redis_store R net" and "actv R (w_store w) \<noteq> {}"
  defines "w' \<equiv> Discovery_reconcile dp now (Inr accounts) w"
  shows "acct \<in> set accounts \<Longrightarrow> \<exists>a. tab R (w_store w') (AccountID acct) = Some a \<and> Backend a \<in> actv R (w_store w)"
    "settled_on R (w_store w) k \<or> k \<notin> AccountID ` set accounts \<Longrightarrow> tab R (w_store w') k = tab R (w_store w) k"
proof -
  note r = reconcile_on_redis(3) [OF assms(1-3), of now accounts, folded w'_def]
  show old: "tab R (w_store w') k = tab R (w_store w) k" if "settled_on R (w_store w) k \<or> k \<notin> AccountID ` set accounts" for k
  proof -
    have "k \<notin> AccountID ` set (to_place R (w_store w) accounts)" using that to_place_iff [OF assms(1)] by auto
    then show ?thesis using r [of k] spread_None by (metis option.simps(4))
  qed
  show "\<exists>a. tab R (w_store w') (AccountID acct) = Some a \<and> Backend a \<in> actv R (w_store w)" if "acct \<in> set accounts"
  proof (cases "settled_on R (w_store w) (AccountID acct)")
    case True
    with old [of "AccountID acct"] show ?thesis by (simp add: settled_on_def)
  next
    case False
    from spread_placed [OF assms(1, 3) that False] r [of "AccountID acct"] show ?thesis by auto
  qed
qed

section \<open>Properties\<close>

text \<open>
  C26: A discovery pass on Redis leaves every account it was told about on an active backend.
  Assignments of other keys, and of accounts whose backend is active, are untouched, and the
  registry is unchanged. If the source names no account twice, each account that was placed
  has the weight of its entry, and the placed accounts are spread evenly: no active
  backend receives more than one account more than another.
\<close>

theorem discovery_places_accounts:
  fixes accounts :: "discovered_account list" and now :: instant
  assumes "redis_inv R net (w_store w)" and "d_store dp = redis_store R net" and "actv R (w_store w) \<noteq> {}"
  defines "w' \<equiv> Discovery_reconcile dp now (Inr accounts) w"
  defines "settled k \<equiv> (\<exists>a. tab R (w_store w) k = Some a \<and> Backend a \<in> actv R (w_store w))"
  defines "placed b \<equiv> {k \<in> AccountID ` set accounts. \<not> settled k \<and> (\<exists>a. tab R (w_store w') k = Some a \<and> Backend a = b)}"
  shows "actv R (w_store w') = actv R (w_store w) \<and>
    (\<forall>acct \<in> set accounts. \<exists>a. tab R (w_store w') (AccountID acct) = Some a \<and> Backend a \<in> actv R (w_store w')) \<and>
    (\<forall>k. settled k \<or> k \<notin> AccountID ` set accounts \<longrightarrow> tab R (w_store w') k = tab R (w_store w) k) \<and>
    (distinct (map AccountID accounts) \<longrightarrow>
      (\<forall>acct \<in> set accounts. \<not> settled (AccountID acct) \<longrightarrow>
        (\<exists>b. tab R (w_store w') (AccountID acct) = Some (new_assignment now b (norm_weight (AccountWeight acct))))) \<and>
      (\<forall>b \<in> actv R (w_store w). \<forall>b' \<in> actv R (w_store w). card (placed b) \<le> card (placed b') + 1))"
proof -
  let ?s = "w_store w" and ?bs = "spread_over R (w_store w)" and ?un = "to_place R (w_store w) accounts"
  note r = reconcile_on_redis [OF assms(1-3), of now accounts, folded w'_def] and bs = spread_over_active [OF assms(1)]
  have settled: "settled k = settled_on R ?s k" for k by (simp add: settled_def settled_on_def)
  have placed: "placed b = {k. \<exists>e. map_of (spread ?bs ?un) k = Some e \<and> EntryBackend e = b}" for b
  proof (intro set_eqI)
    fix k
    have "k \<in> AccountID ` set ?un \<longleftrightarrow> k \<in> AccountID ` set accounts \<and> \<not> settled k"
      using to_place_iff [OF assms(1), of _ accounts] unfolding settled by force
    then show "k \<in> placed b \<longleftrightarrow> k \<in> {k. \<exists>e. map_of (spread ?bs ?un) k = Some e \<and> EntryBackend e = b}"
      using spread_None [of ?bs ?un k] r(3) [of k] unfolding placed_def by (cases "map_of (spread ?bs ?un) k") simp_all
  qed
  have d: "distinct (map AccountID ?un)" if "distinct (map AccountID accounts)"
    using that by (simp add: to_place_def unassigned_accounts_def distinct_map_filter)
  have weight: "\<exists>b. tab R (w_store w') (AccountID acct) = Some (new_assignment now b (norm_weight (AccountWeight acct)))"
    if "distinct (map AccountID accounts)" "acct \<in> set accounts" "\<not> settled (AccountID acct)" for acct
  proof -
    have "acct \<in> set ?un" using that(2, 3) to_place_iff [OF assms(1)] by (simp add: settled)
    then obtain i where "i < length ?un" "?un ! i = acct" by (auto simp: in_set_conv_nth)
    with spread_nth [OF d [OF that(1)], of i ?bs] r(3) [of "AccountID acct"] show ?thesis by auto
  qed
  have even: "card (placed b) \<le> card (placed b') + 1"
    if "distinct (map AccountID accounts)" "b \<in> actv R ?s" "b' \<in> actv R ?s" for b b'
    using spread_even [OF d [OF that(1)] bs(2)] that(2, 3) bs(1) by (simp add: placed)
  have on: "\<exists>a. tab R (w_store w') (AccountID acct) = Some a \<and> Backend a \<in> actv R ?s" if "acct \<in> set accounts" for acct
    using reconcile_assigns(1) [OF assms(1-3) that, of now] by (simp add: w'_def)
  have old: "tab R (w_store w') k = tab R ?s k" if "settled k \<or> k \<notin> AccountID ` set accounts" for k
    using reconcile_assigns(2) [OF assms(1-3), of k accounts now] that by (simp add: w'_def settled)
  show ?thesis using r(2) on old weight even by simp
qed

theorem discovery_places_accounts_witness:
  "(\<exists>a. tab plain_server (w_store (Discovery_reconcile demo_deps 3 (Inr [\<lparr>AccountID = ''x'', AccountWeight = 5\<rparr>]) demo_world)) ''x'' = Some a \<and>
     Backend a \<in> {''b1'', ''b2''}) \<and>
   tab plain_server (w_store (Discovery_reconcile demo_deps 3 (Inr [\<lparr>AccountID = ''x'', AccountWeight = 5\<rparr>]) demo_world)) ''u'' =
     Some demo_assignment"
proof -
  have "tab plain_server (w_store demo_world) = [''u'' \<mapsto> demo_assignment]"
    "actv plain_server (w_store demo_world) = {''b1'', ''b2''}"
    using demo_ok by (simp_all add: demo_world_def)
  moreover have "d_store demo_deps = redis_store plain_server demo_net" by (simp add: demo_deps_def)
  note p = discovery_places_accounts [OF demo_world_ok this, of 3 "[\<lparr>AccountID = ''x'', AccountWeight = 5\<rparr>]"]
  ultimately show ?thesis
    using conjunct1 [OF p] conjunct1 [OF conjunct2 [OF p]] conjunct1 [OF conjunct2 [OF conjunct2 [OF p]]] by simp
qed

text \<open>
  The HTTP source reads both body formats back. A list of accounts that was written as
  objects (the weight left out when it is zero) is returned as it is, weights included, and
  a plain list of ids is returned as accounts of default weight.
\<close>

theorem http_source_roundtrip:
  assumes "accounts = [] \<or> AccountID (hd accounts) \<noteq> []"
    and "\<forall>a \<in> set accounts. - (2 ^ 63) \<le> AccountWeight a \<and> AccountWeight a < 2 ^ 63"
  shows "HTTP_FetchAccounts (Some (200, Some (JArr (map encode_account accounts)))) = Inr accounts \<and>
    HTTP_FetchAccounts (Some (200, Some (JArr (map JStr ids)))) = Inr (plain_accounts ids)"
proof -
  have "map decode_account (map encode_account accounts) = map Some accounts"
    using assms(2) by (simp add: decode_encode_account)
  then have "decode_array decode_account (JArr (map encode_account accounts)) = Some accounts"
    using those_list_map_Some [of "\<lambda>x. x" accounts] by (simp only: decode_array_def json.case map_ident)
  moreover have "decode_array decode_string (JArr (map JStr ids)) = Some ids"
    using those_list_map_Some [of "\<lambda>x. x" ids] by (simp add: decode_array_def decode_string_def comp_def)
  moreover have "ids \<noteq> [] \<Longrightarrow> decode_array decode_account (JArr (map JStr ids)) = None"
    by (cases ids) (simp_all add: decode_array_def decode_account_def)
  moreover have "ids = [] \<Longrightarrow> decode_array decode_account (JArr (map JStr ids)) = Some []"
    by (simp add: decode_array_def)
  ultimately show ?thesis
    using assms(1) by (cases "ids = []") (auto simp: HTTP_FetchAccounts_def plain_accounts_def)
qed

theorem http_source_roundtrip_witness:
  "HTTP_FetchAccounts (Some (200, Some (JArr (map encode_account [\<lparr>AccountID = ''a'', AccountWeight = 5\<rparr>])))) =
     Inr [\<lparr>AccountID = ''a'', AccountWeight = 5\<rparr>]"
  using http_source_roundtrip [of "[\<lparr>AccountID = ''a'', AccountWeight = 5\<rparr>]" "[]"] by simp

end
