(* ===== verification/Backend_Discovery.thy ===== *)
theory Backend_Discovery
  imports Health_Checker
begin

text \<open>
  The two ways the registry of backends is filled: DNS lookups (discovery_backends.go) and
  Kubernetes EndpointSlices (discovery_kubernetes.go). A pass of either is a function of what
  the resolver or the informer's store holds. When passes run is the subject of
  the theories \<open>K8s_Informer\<close> and \<open>Startup\<close>.
\<close>

definition JoinHostPort :: "string \<Rightarrow> string \<Rightarrow> string" where
  "JoinHostPort host port =
     (if CHR '':'' \<in> set host then ''['' @ host @ '']:'' @ port else host @ '':'' @ port)"

section \<open>DNS\<close>

definition DNS_url :: "string \<Rightarrow> string \<Rightarrow> string" where
  "DNS_url port ip = ''http://'' @ JoinHostPort ip port"

text \<open>\<open>ips\<close> is what the lookup returned, \<open>None\<close> on an error.\<close>

definition DNS_reconcile :: "'s store_ops \<Rightarrow> string \<Rightarrow> string list option \<Rightarrow> 's \<Rightarrow> 's" where
  "DNS_reconcile st port ips s =
     (case ips of
        None \<Rightarrow> s
      | Some ips \<Rightarrow>
          let discovered = remdups (map (DNS_url port) ips)
          in case ActiveBackends st s of
               (Inl err, s) \<Rightarrow> s
             | (Inr current, s) \<Rightarrow>
                 let s = fold (\<lambda>url s. if url \<in> set current then s else snd (AddBackend st url s)) discovered s
                 in fold (\<lambda>url s. if url \<in> set discovered then s else snd (RemoveBackend st url s)) current s)"

text \<open>Seeding is one pass; the loop starts with a pass and runs one at each tick.\<close>

definition DNS_run :: "'s store_ops \<Rightarrow> string \<Rightarrow> string list option list \<Rightarrow> 's \<Rightarrow> 's" where
  "DNS_run st port lookups = fold (DNS_reconcile st port) lookups"

section \<open>EndpointSlices\<close>

datatype epState = epUnknown | epActive | epTerminating

record endpoint_port =
  PortName :: "string option"
  PortNumber :: "int option"

record endpoint =
  Ready :: "bool option"
  Serving :: "bool option"
  Terminating :: "bool option"
  Addresses :: "string list"

record endpoint_slice =
  Ports :: "endpoint_port list"
  Endpoints :: "endpoint list"

fun resolve_named :: "string \<Rightarrow> endpoint_port list \<Rightarrow> int" where
  "resolve_named portName [] = 0"
| "resolve_named portName (p # ps) =
     (if PortName p = Some portName
      then (case PortNumber p of Some n \<Rightarrow> n | None \<Rightarrow> resolve_named portName ps)
      else resolve_named portName ps)"

definition resolvePort :: "string \<Rightarrow> endpoint_port list \<Rightarrow> int" where
  "resolvePort portName ports =
     (if ports = [] then 0
      else if portName = [] then (case PortNumber (hd ports) of Some n \<Rightarrow> n | None \<Rightarrow> 0)
      else resolve_named portName ports)"

fun decimal :: "nat \<Rightarrow> string" where
  "decimal n = (if n < 10 then [char_of (48 + n)] else decimal (n div 10) @ [char_of (48 + n mod 10)])"

declare decimal.simps [simp del]

definition Itoa :: "int \<Rightarrow> string" where
  "Itoa n = (if n < 0 then ''-'' @ decimal (nat (- n)) else decimal (nat n))"

definition K8s_url :: "int \<Rightarrow> string \<Rightarrow> string" where
  "K8s_url port addr = ''http://'' @ JoinHostPort addr (Itoa port)"

definition endpoint_state :: "endpoint \<Rightarrow> epState option" where
  "endpoint_state ep =
     (let ready = (Ready ep = Some True); serving = (Serving ep = Some True); terminating = (Terminating ep = Some True)
      in if ready \<and> \<not> terminating then Some epActive
         else if terminating \<and> serving then Some epTerminating
         else None)"

definition add_endpoint :: "int \<Rightarrow> endpoint \<Rightarrow> (string, epState) gomap \<Rightarrow> (string, epState) gomap" where
  "add_endpoint port ep desired =
     fold (\<lambda>addr m. case endpoint_state ep of Some st \<Rightarrow> put (K8s_url port addr) st m | None \<Rightarrow> m) (Addresses ep) desired"

definition buildDesiredState :: "string \<Rightarrow> endpoint_slice list \<Rightarrow> (string, epState) gomap" where
  "buildDesiredState portName slices =
     fold (\<lambda>slice desired.
         let port = resolvePort portName (Ports slice)
         in if port = 0 then desired else fold (add_endpoint port) (Endpoints slice) desired) slices []"

record k8s_discovery =
  k_drain :: bool
  k_known :: "(string, epState) gomap"

definition apply_endpoint ::
  "'s store_ops \<Rightarrow> bool \<Rightarrow> (string, epState) gomap \<Rightarrow> string \<times> epState \<Rightarrow> drain_manager \<times> 's \<Rightarrow> drain_manager \<times> 's" where
  "apply_endpoint st has_drain prev = (\<lambda>(url, state) (d, s).
     case state of
       epActive \<Rightarrow>
         let d = (if map_of prev url = Some epTerminating \<and> has_drain then CancelDrain url d else d)
         in if map_of prev url \<noteq> Some epActive then (d, snd (AddBackend st url s)) else (d, s)
     | epTerminating \<Rightarrow>
         if map_of prev url \<noteq> Some epTerminating
         then if has_drain then (snd (StartDrain url d), s) else (d, snd (RemoveBackend st url s))
         else (d, s)
     | epUnknown \<Rightarrow> (d, s))"

definition applyDesiredState ::
  "'s store_ops \<Rightarrow> (string, epState) gomap \<Rightarrow> k8s_discovery \<times> drain_manager \<times> 's \<Rightarrow>
   k8s_discovery \<times> drain_manager \<times> 's" where
  "applyDesiredState st desired = (\<lambda>(k, d, s).
     let prev = k_known k;
         k = k\<lparr>k_known := desired\<rparr>;
         (d, s) = fold (apply_endpoint st (k_drain k) prev) desired (d, s);
         s = fold (\<lambda>url s. if map_of desired url = None then snd (RemoveBackend st url s) else s) (keys prev) s
     in (k, d, s))"

definition K8s_reconcile ::
  "'s store_ops \<Rightarrow> string \<Rightarrow> endpoint_slice list \<Rightarrow> k8s_discovery \<times> drain_manager \<times> 's \<Rightarrow>
   k8s_discovery \<times> drain_manager \<times> 's" where
  "K8s_reconcile st portName slices = applyDesiredState st (buildDesiredState portName slices)"

section \<open>Backend addresses\<close>

text \<open>Different hosts give different backends: the brackets are unambiguous.\<close>

lemma JoinHostPort_inj: "JoinHostPort h port = JoinHostPort h' port \<Longrightarrow> h = h'"
proof (cases "CHR '':'' \<in> set h"; cases "CHR '':'' \<in> set h'")
  assume a: "CHR '':'' \<in> set h" "CHR '':'' \<notin> set h'" and "JoinHostPort h port = JoinHostPort h' port"
  then have "''['' @ h @ '']'' = h'" by (simp add: JoinHostPort_def)
  with a show "h = h'" by auto
next
  assume a: "CHR '':'' \<notin> set h" "CHR '':'' \<in> set h'" and "JoinHostPort h port = JoinHostPort h' port"
  then have "''['' @ h' @ '']'' = h" by (simp add: JoinHostPort_def)
  with a show "h = h'" by auto
qed (simp_all add: JoinHostPort_def)

lemma DNS_url_inj: "inj_on (DNS_url port) A"
  by (auto simp: inj_on_def DNS_url_def dest: JoinHostPort_inj)

text \<open>Whether a backend is active after its endpoint was applied.\<close>

definition endpoint_active :: "(string, epState) gomap \<Rightarrow> bool \<Rightarrow> epState \<Rightarrow> string \<Rightarrow> bool \<Rightarrow> bool" where
  "endpoint_active prev has_drain state b active \<longleftrightarrow>
     (case state of
        epActive \<Rightarrow> active \<or> map_of prev b \<noteq> Some epActive
      | epTerminating \<Rightarrow> active \<and> (has_drain \<or> map_of prev b = Some epTerminating)
      | epUnknown \<Rightarrow> active)"

section \<open>Passes on a registry that answers\<close>

context backend_registry
begin

lemma add_answers:
  assumes "answers st inv" and "inv s"
  shows "inv (snd (AddBackend st b s))" "act (snd (AddBackend st b s)) = insert b (act s)"
proof -
  obtain s' where "AddBackend st b s = (None, s')" using assms by (metis answers_def prod.collapse)
  with add_law [OF assms(2) this] show "inv (snd (AddBackend st b s))" "act (snd (AddBackend st b s)) = insert b (act s)" by simp_all
qed

lemma remove_answers:
  assumes "answers st inv" and "inv s"
  shows "inv (snd (RemoveBackend st b s))" "act (snd (RemoveBackend st b s)) = act s - {b}"
proof -
  obtain s' where "RemoveBackend st b s = (None, s')" using assms by (metis answers_def prod.collapse)
  with remove_law [OF assms(2) this] show "inv (snd (RemoveBackend st b s))" "act (snd (RemoveBackend st b s)) = act s - {b}" by simp_all
qed

lemma fold_add:
  assumes "answers st inv" and "inv s"
  shows "inv (fold (\<lambda>b s. if P b then s else snd (AddBackend st b s)) bs s) \<and>
    act (fold (\<lambda>b s. if P b then s else snd (AddBackend st b s)) bs s) = act s \<union> {b \<in> set bs. \<not> P b}"
  using assms(2) by (induction bs arbitrary: s) (auto simp: add_answers [OF assms(1)])

lemma fold_remove:
  assumes "answers st inv" and "inv s"
  shows "inv (fold (\<lambda>b s. if P b then s else snd (RemoveBackend st b s)) bs s) \<and>
    act (fold (\<lambda>b s. if P b then s else snd (RemoveBackend st b s)) bs s) = act s - {b \<in> set bs. \<not> P b}"
  using assms(2) by (induction bs arbitrary: s) (auto simp: remove_answers [OF assms(1)])

lemma DNS_reconcile_registry:
  assumes "answers st inv" and "inv s"
  shows "inv (DNS_reconcile st port ips s) \<and>
    act (DNS_reconcile st port ips s) = (case ips of None \<Rightarrow> act s | Some ips \<Rightarrow> DNS_url port ` set ips)"
proof (cases ips)
  case (Some xs)
  obtain bs s1 where bs: "ActiveBackends st s = (Inr bs, s1)" using answers_active [OF assms] by blast
  note a = active_law [OF assms(2) bs]
  define s2 where "s2 = fold (\<lambda>url s. if url \<in> set bs then s else snd (AddBackend st url s)) (remdups (map (DNS_url port) xs)) s1"
  have s2: "inv s2" "act s2 = act s1 \<union> {b \<in> DNS_url port ` set xs. b \<notin> set bs}"
    using fold_add [OF assms(1), of s1 "\<lambda>b. b \<in> set bs" "remdups (map (DNS_url port) xs)"] a by (simp_all add: s2_def)
  have "DNS_reconcile st port ips s = fold (\<lambda>url s. if url \<in> DNS_url port ` set xs then s else snd (RemoveBackend st url s)) bs s2"
    by (simp add: Some DNS_reconcile_def bs Let_def s2_def)
  with fold_remove [OF assms(1) s2(1), of "\<lambda>b. b \<in> DNS_url port ` set xs" bs] s2(2) a show ?thesis
    by (auto simp: Some)
qed (simp add: DNS_reconcile_def assms)

lemma apply_endpoint_registry:
  assumes "answers st inv" and "inv (snd p)"
  shows "inv (snd (apply_endpoint st has_drain prev e p)) \<and>
    (b \<in> act (snd (apply_endpoint st has_drain prev e p)) \<longleftrightarrow>
      (if b = fst e then endpoint_active prev has_drain (snd e) b (b \<in> act (snd p)) else b \<in> act (snd p)))"
  using assms(2) add_answers [OF assms] remove_answers [OF assms]
  by (cases p; cases e) (auto simp: apply_endpoint_def endpoint_active_def Let_def split: epState.split)

lemma fold_apply_endpoint_registry:
  assumes "answers st inv" and "inv (snd p)" and "wf_map es"
  shows "inv (snd (fold (apply_endpoint st has_drain prev) es p)) \<and>
    (b \<in> act (snd (fold (apply_endpoint st has_drain prev) es p)) \<longleftrightarrow>
      (case map_of es b of None \<Rightarrow> b \<in> act (snd p)
       | Some state \<Rightarrow> endpoint_active prev has_drain state b (b \<in> act (snd p))))"
  using assms(2, 3)
proof (induction es arbitrary: p)
  case (Cons e es)
  note a = apply_endpoint_registry [OF assms(1) Cons.prems(1), of has_drain prev e]
  have "wf_map es" "fst e \<notin> fst ` set es" using Cons.prems(2) by simp_all
  moreover from this have "b = fst e \<Longrightarrow> map_of es b = None" by (simp add: map_of_eq_None_iff)
  ultimately show ?case using Cons.IH [of "apply_endpoint st has_drain prev e p"] a [of b] a
    by (cases e) (auto split: option.split)
qed simp

lemma applyDesiredState_registry:
  assumes "answers st inv" and "inv s" and "wf_map desired" and "applyDesiredState st desired (k, d, s) = (k', d', s')"
  shows "inv s' \<and> (b \<in> act s' \<longleftrightarrow>
    (case map_of desired b of
       None \<Rightarrow> b \<in> act s \<and> map_of (k_known k) b = None
     | Some state \<Rightarrow> endpoint_active (k_known k) (k_drain k) state b (b \<in> act s)))"
proof -
  define q where "q = fold (apply_endpoint st (k_drain k) (k_known k)) desired (d, s)"
  have s': "s' = fold (\<lambda>url s. if map_of desired url \<noteq> None then s else snd (RemoveBackend st url s)) (keys (k_known k)) (snd q)"
  proof -
    have "(\<lambda>url s. if map_of desired url \<noteq> None then s else snd (RemoveBackend st url s)) =
        (\<lambda>url s. if map_of desired url = None then snd (RemoveBackend st url s) else s)"
      by (intro ext) (simp del: not_None_eq)
    with assms(4) show ?thesis by (auto simp: applyDesiredState_def Let_def q_def split: prod.splits)
  qed
  have q: "inv (snd q)" "b \<in> act (snd q) \<longleftrightarrow> (case map_of desired b of None \<Rightarrow> b \<in> act s
       | Some state \<Rightarrow> endpoint_active (k_known k) (k_drain k) state b (b \<in> act s))" for b
    using fold_apply_endpoint_registry [OF assms(1) _ assms(3), of "(d, s)" "k_drain k" "k_known k", unfolded snd_conv] assms(2)
    by (simp_all add: q_def)
  have "map_of (k_known k) b = None \<longleftrightarrow> b \<notin> set (keys (k_known k))" by (simp add: map_of_eq_None_iff)
  with fold_remove [OF assms(1) q(1), of "\<lambda>b. map_of desired b \<noteq> None" "keys (k_known k)"] q(2) [of b] show ?thesis
    unfolding s' by (auto split: option.splits)
qed

end

section \<open>What a list of slices asks for\<close>

lemma wf_add_endpoint: "wf_map m \<Longrightarrow> wf_map (add_endpoint port ep m)"
proof -
  have "wf_map m \<Longrightarrow> wf_map (fold (\<lambda>addr m. case st of Some st \<Rightarrow> put (f addr) st m | None \<Rightarrow> m) as m)" for as f and st :: "epState option" and m
    by (induction as arbitrary: m) (auto split: option.split)
  then show "wf_map m \<Longrightarrow> wf_map (add_endpoint port ep m)" by (simp add: add_endpoint_def)
qed

lemma wf_buildDesiredState: "wf_map (buildDesiredState portName slices)"
proof -
  have es: "wf_map m \<Longrightarrow> wf_map (fold (add_endpoint port) eps m)" for port eps m
    by (induction eps arbitrary: m) (simp_all add: wf_add_endpoint)
  have "wf_map m \<Longrightarrow> wf_map (fold (\<lambda>slice desired. let port = resolvePort portName (Ports slice)
         in if port = 0 then desired else fold (add_endpoint port) (Endpoints slice) desired) slices m)" for m
    by (induction slices arbitrary: m) (simp_all add: Let_def es)
  from this [of "[]"] show ?thesis by (simp add: buildDesiredState_def)
qed

lemma map_of_add_endpoint:
  "map_of (add_endpoint port ep m) url =
     (if url \<in> K8s_url port ` set (Addresses ep) \<and> endpoint_state ep \<noteq> None then endpoint_state ep else map_of m url)"
proof -
  have "map_of (fold (\<lambda>addr m. case st of Some st \<Rightarrow> put (K8s_url port addr) st m | None \<Rightarrow> m) as m) url =
     (if url \<in> K8s_url port ` set as \<and> st \<noteq> None then st else map_of m url)" for as and st :: "epState option"
    by (induction as arbitrary: m) (auto simp: gomap_simps split: option.split)
  then show ?thesis by (simp add: add_endpoint_def)
qed

lemma endpoint_state_known: "endpoint_state ep \<noteq> Some epUnknown"
  by (simp add: endpoint_state_def Let_def)

text \<open>Every state comes from an endpoint of some slice.\<close>

definition reported :: "string \<Rightarrow> endpoint_slice list \<Rightarrow> string \<Rightarrow> epState \<Rightarrow> bool" where
  "reported portName slices url st \<longleftrightarrow> (\<exists>slice \<in> set slices. resolvePort portName (Ports slice) \<noteq> 0 \<and>
     (\<exists>ep \<in> set (Endpoints slice). endpoint_state ep = Some st \<and> url \<in> K8s_url (resolvePort portName (Ports slice)) ` set (Addresses ep)))"

lemma fold_add_endpoint:
  "map_of (fold (add_endpoint port) eps m) url = Some st \<Longrightarrow>
     map_of m url = Some st \<or> (\<exists>ep \<in> set eps. endpoint_state ep = Some st \<and> url \<in> K8s_url port ` set (Addresses ep))"
  "map_of m url \<noteq> None \<or> (\<exists>ep \<in> set eps. endpoint_state ep \<noteq> None \<and> url \<in> K8s_url port ` set (Addresses ep)) \<Longrightarrow>
     map_of (fold (add_endpoint port) eps m) url \<noteq> None"
proof -
  show "map_of (fold (add_endpoint port) eps m) url = Some st \<Longrightarrow>
     map_of m url = Some st \<or> (\<exists>ep \<in> set eps. endpoint_state ep = Some st \<and> url \<in> K8s_url port ` set (Addresses ep))"
  proof (induction eps arbitrary: m)
    case (Cons ep eps)
    from Cons.IH [of "add_endpoint port ep m"] Cons.prems show ?case
      by (auto simp: map_of_add_endpoint split: if_splits)
  qed simp
  show "map_of m url \<noteq> None \<or> (\<exists>ep \<in> set eps. endpoint_state ep \<noteq> None \<and> url \<in> K8s_url port ` set (Addresses ep)) \<Longrightarrow>
     map_of (fold (add_endpoint port) eps m) url \<noteq> None"
  proof (induction eps arbitrary: m)
    case (Cons ep eps)
    from Cons.IH [of "add_endpoint port ep m"] Cons.prems show ?case
      by (auto simp: map_of_add_endpoint split: if_splits)
  qed simp
qed

lemma buildDesiredState_reported:
  "map_of (buildDesiredState portName slices) url = Some st \<Longrightarrow> reported portName slices url st"
  "reported portName slices url st \<Longrightarrow> map_of (buildDesiredState portName slices) url \<noteq> None"
proof -
  note es = fold_add_endpoint
  let ?step = "\<lambda>slice desired. let port = resolvePort portName (Ports slice)
         in if port = 0 then desired else fold (add_endpoint port) (Endpoints slice) desired"
  have sl: "map_of (fold ?step slices m) url = Some st \<longrightarrow> map_of m url = Some st \<or> reported portName slices url st" for m
  proof (induction slices arbitrary: m)
    case (Cons slice slices)
    from Cons.IH [of "?step slice m"] es(1) [of "resolvePort portName (Ports slice)" "Endpoints slice" m url st] show ?case
      by (auto simp: Let_def reported_def split: if_splits)
  qed simp
  from sl [of "[]"] show "map_of (buildDesiredState portName slices) url = Some st \<Longrightarrow> reported portName slices url st"
    by (simp add: buildDesiredState_def)
  have sr: "map_of m url \<noteq> None \<or> reported portName slices url st \<longrightarrow> map_of (fold ?step slices m) url \<noteq> None" for m
  proof (induction slices arbitrary: m)
    case (Cons slice slices)
    from Cons.IH [of "?step slice m"] es(2) [of m url "Endpoints slice" "resolvePort portName (Ports slice)"] show ?case
      by (force simp: Let_def reported_def)
  qed (simp add: reported_def)
  from sr [of "[]"] show "reported portName slices url st \<Longrightarrow> map_of (buildDesiredState portName slices) url \<noteq> None"
    by (simp add: buildDesiredState_def)
qed

section \<open>Properties\<close>

text \<open>
  The registry follows DNS. Whatever it held before, after any sequence of lookups on
  Redis it is exactly the backends of the last lookup that succeeded, one per address; failed
  lookups change nothing.
\<close>

theorem dns_registry_follows:
  assumes "redis_inv R net s" and "Some ips \<in> set lookups" and "last (filter (\<lambda>l. l \<noteq> None) lookups) = Some addresses"
  shows "actv R (DNS_run (redis_store R net) port lookups s) = DNS_url port ` set addresses \<and>
    card (actv R (DNS_run (redis_store R net) port lookups s)) = card (set addresses)"
proof -
  have step: "redis_inv R net (DNS_reconcile (redis_store R net) port l s) \<and>
      actv R (DNS_reconcile (redis_store R net) port l s) = (case l of None \<Rightarrow> actv R s | Some ips \<Rightarrow> DNS_url port ` set ips)"
    if "redis_inv R net s" for l s
    by (rule rstore.DNS_reconcile_registry [OF redis_answers that])
  have "actv R (DNS_run (redis_store R net) port lookups s) = (case filter (\<lambda>l. l \<noteq> None) lookups of
      [] \<Rightarrow> actv R s | _ \<Rightarrow> DNS_url port ` set (the (last (filter (\<lambda>l. l \<noteq> None) lookups))))" if "redis_inv R net s" for s
    using that
  proof (induction lookups arbitrary: s)
    case (Cons l lookups)
    from Cons.IH [of "DNS_reconcile (redis_store R net) port l s"] step [OF Cons.prems, of l] show ?case
      by (auto simp: DNS_run_def split: option.splits list.splits)
  qed (simp add: DNS_run_def)
  from this [OF assms(1)] assms(2, 3) have "actv R (DNS_run (redis_store R net) port lookups s) = DNS_url port ` set addresses"
    by (cases "filter (\<lambda>l. l \<noteq> None) lookups") (auto simp: filter_empty_conv)
  then show ?thesis by (simp add: card_image DNS_url_inj)
qed

theorem dns_registry_follows_witness:
  "actv plain_server (DNS_run (redis_store plain_server demo_net) ''80'' [Some [''10.0.0.1''], Some [''::1''], None] demo_redis) =
     {''http://[::1]:80''}"
proof -
  have "redis_inv plain_server demo_net demo_redis" using demo_ok by (simp add: redis_inv_def)
  from dns_registry_follows [OF this, of "[''::1'']" "[Some [''10.0.0.1''], Some [''::1''], None]" "[''::1'']" "''80''"] show ?thesis
    by (simp add: DNS_url_def JoinHostPort_def)
qed

text \<open>Passes, as long as nobody else changes the registry.\<close>

definition K8s_run ::
  "'s store_ops \<Rightarrow> string \<Rightarrow> endpoint_slice list list \<Rightarrow> k8s_discovery \<times> drain_manager \<times> 's \<Rightarrow>
   k8s_discovery \<times> drain_manager \<times> 's" where
  "K8s_run st portName passes = fold (K8s_reconcile st portName) passes"

lemma applyDesiredState_known: "applyDesiredState st desired (k, d, s) = (k', d', s') \<Longrightarrow> k' = k\<lparr>k_known := desired\<rparr>"
  by (auto simp: applyDesiredState_def Let_def split: prod.splits)

lemma K8s_run_invariant:
  assumes "redis_inv R net s" and "K8s_run (redis_store R net) portName passes (k, d, s) = (k', d', s')"
    and "\<And>b. map_of (k_known k) b = Some epActive \<Longrightarrow> b \<in> actv R s"
    and "\<And>b. map_of (k_known k) b = None \<Longrightarrow> b \<in> actv R s \<Longrightarrow> b \<in> A"
  shows "(map_of (k_known k') b = Some epActive \<longrightarrow> b \<in> actv R s') \<and>
    (map_of (k_known k') b = None \<longrightarrow> b \<in> actv R s' \<longrightarrow> b \<in> A)"
  using assms
proof (induction passes arbitrary: k d s)
  case (Cons slices passes)
  let ?desired = "buildDesiredState portName slices"
  obtain k1 d1 s1 where p: "applyDesiredState (redis_store R net) ?desired (k, d, s) = (k1, d1, s1)"
    by (cases "applyDesiredState (redis_store R net) ?desired (k, d, s)")
  note r = rstore.applyDesiredState_registry [OF redis_answers Cons.prems(1) wf_buildDesiredState p]
  have known: "k_known k1 = ?desired" using applyDesiredState_known [OF p] by simp
  show ?case
  proof (rule Cons.IH)
    show "redis_inv R net s1" using r by blast
    show "K8s_run (redis_store R net) portName passes (k1, d1, s1) = (k', d', s')"
      using Cons.prems(2) p by (simp add: K8s_run_def K8s_reconcile_def)
    show "b \<in> actv R s1" if "map_of (k_known k1) b = Some epActive" for b
      using that known r [of b] Cons.prems(3) [of b] by (auto simp: endpoint_active_def)
    show "b \<in> A" if "map_of (k_known k1) b = None" "b \<in> actv R s1" for b
      using that known r [of b] Cons.prems(4) [of b] by simp
  qed
qed (simp add: K8s_run_def)

lemma desired_reported:
  shows "reported portName slices b epActive \<Longrightarrow> \<not> reported portName slices b epTerminating \<Longrightarrow>
      map_of (buildDesiredState portName slices) b = Some epActive"
    and "\<forall>st. \<not> reported portName slices b st \<Longrightarrow> map_of (buildDesiredState portName slices) b = None"
proof -
  let ?desired = "buildDesiredState portName slices"
  show "map_of ?desired b = Some epActive" if "reported portName slices b epActive" "\<not> reported portName slices b epTerminating"
  proof -
    from buildDesiredState_reported(2) [OF that(1)] obtain st where st: "map_of ?desired b = Some st" by auto
    then have "reported portName slices b st" by (rule buildDesiredState_reported(1))
    with that(2) have "st \<noteq> epTerminating" "st \<noteq> epUnknown" using endpoint_state_known by (auto simp: reported_def)
    with st show ?thesis by (cases st) simp_all
  qed
  show "map_of ?desired b = None" if "\<forall>st. \<not> reported portName slices b st"
    using that buildDesiredState_reported(1) [of portName slices b] by (cases "map_of ?desired b") auto
qed

lemma K8s_run_follows:
  assumes "redis_inv R net s" and "k_known k = []" and "passes \<noteq> []"
    and "K8s_run (redis_store R net) portName passes (k, d, s) = (k', d', s')"
  shows "(reported portName (last passes) b epActive \<and> \<not> reported portName (last passes) b epTerminating \<longrightarrow> b \<in> actv R s') \<and>
    ((\<forall>st. \<not> reported portName (last passes) b st) \<and> b \<in> actv R s' \<longrightarrow> b \<in> actv R s)"
proof -
  let ?desired = "buildDesiredState portName (last passes)"
  obtain ps slices where passes: "passes = ps @ [slices]" using assms(3) by (cases passes rule: rev_cases) auto
  obtain k1 d1 s1 where "K8s_run (redis_store R net) portName ps (k, d, s) = (k1, d1, s1)"
    by (cases "K8s_run (redis_store R net) portName ps (k, d, s)")
  with assms(4) have "applyDesiredState (redis_store R net) ?desired (k1, d1, s1) = (k', d', s')"
    by (simp add: K8s_run_def K8s_reconcile_def passes)
  then have known: "k_known k' = ?desired" by (auto dest: applyDesiredState_known)
  have r: "map_of ?desired b = Some epActive \<Longrightarrow> b \<in> actv R s'" "map_of ?desired b = None \<Longrightarrow> b \<in> actv R s' \<Longrightarrow> b \<in> actv R s"
    using K8s_run_invariant [OF assms(1, 4), where A = "actv R s" and b = b] assms(2) known by simp_all
  with desired_reported [of portName "last passes" b] show ?thesis by blast
qed

text \<open>
  The registry follows the EndpointSlices. After any number of passes every backend that
  the last list of slices reports as ready, and by no endpoint as terminating, is active, and
  a backend that no endpoint of it reports is active only if it was in the registry before the
  first pass: what discovery itself added is removed again.
\<close>

theorem k8s_registry_follows:
  assumes "redis_inv R net s" and "k_known k = []" and "passes \<noteq> []"
    and "K8s_run (redis_store R net) portName passes (k, d, s) = (k', d', s')"
  shows "(reported portName (last passes) b epActive \<and> \<not> reported portName (last passes) b epTerminating \<longrightarrow> b \<in> actv R s') \<and>
    ((\<forall>st. \<not> reported portName (last passes) b st) \<and> b \<in> actv R s' \<longrightarrow> b \<in> actv R s)"
  using assms by (rule K8s_run_follows)

text \<open>A pod that is ready, then terminating, then gone.\<close>

definition pod :: "bool \<Rightarrow> bool \<Rightarrow> endpoint_slice" where
  "pod ready terminating = \<lparr>Ports = [\<lparr>PortName = None, PortNumber = Some 80\<rparr>],
     Endpoints = [\<lparr>Ready = Some ready, Serving = Some True, Terminating = Some terminating, Addresses = [''10.0.0.9'']\<rparr>]\<rparr>"

lemma pod_reported: "reported [] [pod True False] ''http://10.0.0.9:80'' st \<longleftrightarrow> st = epActive"
proof -
  have "K8s_url 80 ''10.0.0.9'' = ''http://10.0.0.9:80''" by code_simp
  moreover have "resolvePort [] (Ports (pod True False)) = 80" by code_simp
  ultimately show ?thesis by (auto simp: reported_def pod_def endpoint_state_def)
qed

theorem k8s_registry_follows_witness:
  "''http://10.0.0.9:80'' \<in> actv plain_server (snd (snd (K8s_run (redis_store plain_server demo_net) [] [[], [pod True False]]
     (\<lparr>k_drain = True, k_known = []\<rparr>, NewDrainManager, demo_redis))))"
proof -
  have inv: "redis_inv plain_server demo_net demo_redis" using demo_ok by (simp add: redis_inv_def)
  obtain k' d' s' where p: "K8s_run (redis_store plain_server demo_net) [] [[], [pod True False]]
     (\<lparr>k_drain = True, k_known = []\<rparr>, NewDrainManager, demo_redis) = (k', d', s')"
    by (cases "K8s_run (redis_store plain_server demo_net) [] [[], [pod True False]]
     (\<lparr>k_drain = True, k_known = []\<rparr>, NewDrainManager, demo_redis)")
  from k8s_registry_follows [OF inv _ _ p, of "''http://10.0.0.9:80''"] show ?thesis
    by (simp add: p pod_reported)
qed

text \<open>
  A backend whose registration failed is not retried. A pass in which every
  \<^verbatim>\<open>AddBackend\<close> fails remembers the desired state all the same, so no later pass over the
  same slices calls the store at all, not even when the store works again: the backend
  stays out of the registry until its endpoint changes.
\<close>

theorem k8s_failed_add_not_retried:
  assumes "\<And>b s. AddBackend broken b s = (Some ErrUnavailable, s)" and "k_known k = []"
    and "\<forall>b. map_of (buildDesiredState portName slices) b \<noteq> Some epTerminating"
    and "K8s_reconcile broken portName slices (k, d, s) = (k1, d1, s1)"
  shows "K8s_run working portName (replicate n slices) (k1, d1, s1) = (k1, d1, s)"
proof -
  let ?desired = "buildDesiredState portName slices"
  have state: "map_of ?desired b = None \<or> map_of ?desired b = Some epActive" for b
  proof (cases "map_of ?desired b")
    case (Some st)
    then have "st \<noteq> epUnknown" using buildDesiredState_reported(1) [OF Some] endpoint_state_known by (auto simp: reported_def)
    with Some assms(3) show ?thesis by (cases st) auto
  qed simp
  have all: "\<forall>(url, st) \<in> set ?desired. st = epActive"
  proof (intro ballI, clarify)
    fix url st assume "(url, st) \<in> set ?desired"
    then have "map_of ?desired url = Some st" by (simp add: map_of_eq_Some_wf wf_buildDesiredState)
    with state [of url] show "st = epActive" by simp
  qed
  have first: "fold (apply_endpoint broken drain []) es (d, s) = (d, s)" if "\<forall>(url, st) \<in> set es. st = epActive" for es drain
    using that by (induction es) (auto simp: apply_endpoint_def assms(1))
  have same: "fold (apply_endpoint working drain prev) es (d, s) = (d, s)"
    if "\<forall>(url, st) \<in> set es. st = epActive \<and> map_of prev url = Some epActive" for es drain prev d and s
    using that by (induction es) (auto simp: apply_endpoint_def)
  have k1: "(k1, d1, s1) = (k\<lparr>k_known := ?desired\<rparr>, d, s)"
    using assms(4) first [OF all] assms(2) by (simp add: K8s_reconcile_def applyDesiredState_def Let_def)
  have keep: "fold (\<lambda>url s. if map_of ?desired url = None then snd (RemoveBackend working url s) else s) bs s = s"
    if "set bs \<subseteq> set (keys ?desired)" for bs s
    using that by (induction bs) (auto simp: map_of_eq_None_iff)
  have "\<forall>(url, st) \<in> set ?desired. st = epActive \<and> map_of ?desired url = Some epActive"
    using all wf_buildDesiredState [of portName slices] by (auto simp: map_of_eq_Some_wf)
  then have "K8s_reconcile working portName slices (k1, d1, s) = (k1, d1, s)"
    using k1 same keep [of "keys ?desired"] by (auto simp: K8s_reconcile_def applyDesiredState_def Let_def)
  then show ?thesis using k1 by (induction n) (auto simp: K8s_run_def)
qed

theorem k8s_failed_add_not_retried_witness:
  "\<exists>broken k1 d1 s1. K8s_reconcile broken [] [pod True False] (\<lparr>k_drain = True, k_known = []\<rparr>, NewDrainManager, demo_redis) = (k1, d1, s1) \<and>
     K8s_run (redis_store plain_server demo_net) [] (replicate 5 [pod True False]) (k1, d1, s1) = (k1, d1, demo_redis)"
proof -
  let ?broken = "(redis_store plain_server demo_net)\<lparr>AddBackend := \<lambda>b s. (Some ErrUnavailable, s)\<rparr>"
  have b: "map_of (buildDesiredState [] [pod True False]) b \<noteq> Some epTerminating" for b
  proof -
    have "buildDesiredState [] [pod True False] = [(''http://10.0.0.9:80'', epActive)]" by code_simp
    then show ?thesis by simp
  qed
  obtain k1 d1 s1 where p: "K8s_reconcile ?broken [] [pod True False] (\<lparr>k_drain = True, k_known = []\<rparr>, NewDrainManager, demo_redis) = (k1, d1, s1)"
    by (cases "K8s_reconcile ?broken [] [pod True False] (\<lparr>k_drain = True, k_known = []\<rparr>, NewDrainManager, demo_redis)")
  have "K8s_run (redis_store plain_server demo_net) [] (replicate 5 [pod True False]) (k1, d1, s1) = (k1, d1, demo_redis)"
    by (rule k8s_failed_add_not_retried [OF _ _ _ p]) (use b in simp_all)
  with p show ?thesis by blast
qed

end
