(* ===== verification/Proxy_Routing.thy ===== *)
theory Proxy_Routing
  imports Eviction Health_Checker Jwt_Auth Rate_Limiter Poison_Pill
begin

text \<open>
  The request handler (proxy.go). \<^verbatim>\<open>ServeHTTP\<close> composes the components: public paths,
  authentication, rate limit, quarantine, hold, cache, assignment, and the call of the
  backend. The state \<open>proxy\<close> has the mutable components of the \<^verbatim>\<open>Proxy\<close> struct, \<open>proxy_cfg\<close> what
  the constructor fixes. The outside of one request is \<open>request_env\<close>: the instants of its
  phases, what the other goroutines do to the proxy while the request is held, and the
  backend's answer.
\<close>

record 's proxy_cfg =
  pc_deps :: "'s deps"
  pc_parse :: jwt_parser
  pc_jwtSecret :: string
  pc_routingClaim :: string
  pc_publicPaths :: "string list"
  pc_url_ok :: "string \<Rightarrow> bool"

record 's proxy =
  px_world :: "'s world"
  px_redis :: "redis_cb option"
  px_backends :: backend_manager
  px_jwtCache :: jwt_cache
  px_rateLimiter :: rate_limiter
  px_poison :: "poison_detector option"
  px_drain :: drain_manager

record request =
  rq_path :: string
  rq_authorization :: string
  rq_upgrade :: string
  rq_remoteAddr :: string

record 's request_env =
  e_arrival :: instant
  e_routed :: instant
  e_answered :: instant
  e_meanwhile :: "'s proxy \<Rightarrow> 's proxy"
  e_upstream :: upstream
  e_sticky :: string

datatype response =
    Refused nat
  | Forwarded string string nat
  | Bridged string string
  | PublicForwarded string nat

definition StatusUnauthorized :: nat where "StatusUnauthorized = 401"
definition StatusTooManyRequests :: nat where "StatusTooManyRequests = 429"

definition isPublicPath :: "string list \<Rightarrow> string \<Rightarrow> bool" where
  "isPublicPath publicPaths path \<longleftrightarrow> (\<exists>p \<in> set publicPaths. take (length p) path = p)"

definition isWebSocket :: "request \<Rightarrow> bool" where
  "isWebSocket rq \<longleftrightarrow> EqualFold (rq_upgrade rq) ''websocket''"

section \<open>Assignment\<close>

text \<open>The hash fallback; the empty string is "no fallback", also without Redis.\<close>

definition fallback :: "string \<Rightarrow> 's proxy \<Rightarrow> string" where
  "fallback routingKey p =
     (case px_redis p of
        None \<Rightarrow> []
      | Some r \<Rightarrow> (case hashFallback (HashUser routingKey) r of None \<Rightarrow> [] | Some b \<Rightarrow> b))"

definition set_store :: "'s \<Rightarrow> 's proxy \<Rightarrow> 's proxy" where
  "set_store s p = p\<lparr>px_world := (px_world p)\<lparr>w_store := s\<rparr>\<rparr>"

definition set_cache :: "user_cache \<Rightarrow> 's proxy \<Rightarrow> 's proxy" where
  "set_cache c p = p\<lparr>px_world := (px_world p)\<lparr>w_cache := c\<rparr>\<rparr>"

definition cb_check :: "instant \<Rightarrow> 's proxy \<Rightarrow> bool \<times> 's proxy" where
  "cb_check now p =
     (case px_redis p of
        None \<Rightarrow> (False, p)
      | Some r \<Rightarrow> let (is_open, r) = isCBOpen now r in (is_open, p\<lparr>px_redis := Some r\<rparr>))"

definition assignViaTable :: "'s deps \<Rightarrow> instant \<Rightarrow> string \<Rightarrow> 's proxy \<Rightarrow> string option \<times> 's proxy" where
  "assignViaTable dp now routingKey p =
     (let (is_open, p) = cb_check now p
      in if is_open \<and> fallback routingKey p \<noteq> [] then (Some (fallback routingKey p), p)
         else
           case AssignLeastLoaded (d_store dp) now routingKey (w_store (px_world p)) of
             (Inl err, s) \<Rightarrow>
               let p = (set_store s p)\<lparr>px_redis := map_option (recordCBFailure now) (px_redis p)\<rparr>
               in if fallback routingKey p \<noteq> [] then (Some (fallback routingKey p), p) else (None, p)
           | (Inr a, s) \<Rightarrow>
               (Some (Backend a), (set_store s p)\<lparr>px_redis := map_option recordCBSuccess (px_redis p)\<rparr>))"

definition assignViaHash :: "'s deps \<Rightarrow> string \<Rightarrow> 's proxy \<Rightarrow> string option \<times> 's proxy" where
  "assignViaHash dp routingKey p =
     (case ActiveBackends (d_store dp) (w_store (px_world p)) of
        (Inl err, s) \<Rightarrow> (None, set_store s p)
      | (Inr backends, s) \<Rightarrow>
          if backends = [] then (None, set_store s p)
          else (pick_backend (sort backends) (HashUser routingKey), set_store s p))"

definition assign_backend :: "'s deps \<Rightarrow> instant \<Rightarrow> string \<Rightarrow> 's proxy \<Rightarrow> (nat + string) \<times> 's proxy" where
  "assign_backend dp now stickyKey p =
     (case (if d_routingMode dp = ''assignment'' then assignViaTable dp now stickyKey p else assignViaHash dp stickyKey p) of
        (None, p) \<Rightarrow> (Inl StatusServiceUnavailable, p)
      | (Some backend, p) \<Rightarrow>
          let p = set_cache (UserCache_Set now stickyKey backend (w_cache (px_world p))) p
          in (Inr backend, p\<lparr>px_world := send_hook dp (AssignHook backend [stickyKey]) (px_world p)\<rparr>))"

text \<open>From the cache to a backend: lines after the hold.\<close>

definition route :: "'s deps \<Rightarrow> instant \<Rightarrow> string \<Rightarrow> 's proxy \<Rightarrow> (nat + string) \<times> 's proxy" where
  "route dp now stickyKey p =
     (case UserCache_Get now stickyKey (w_cache (px_world p)) of
        (Inl miss, c) \<Rightarrow> assign_backend dp now stickyKey (set_cache c p)
      | (Inr backend, c) \<Rightarrow>
          let p = set_cache c p;
              (up, bm) = Available now backend (px_backends p);
              p = p\<lparr>px_backends := bm\<rparr>
          in if up \<and> \<not> IsDraining backend (px_drain p) then (Inr backend, p)
             else
               let (quarantined, pill) = (case px_poison p of
                       None \<Rightarrow> (False, None)
                     | Some pill \<Rightarrow> map_prod (\<lambda>q. q) Some (RecordReassignment now stickyKey pill));
                   p = p\<lparr>px_poison := pill\<rparr>
               in if quarantined then (Inl StatusServiceUnavailable, p)
                  else assign_backend dp now stickyKey (set_cache (UserCache_Invalidate stickyKey (w_cache (px_world p))) p))"

section \<open>The handler\<close>

definition bindStickyKey :: "'s deps \<Rightarrow> instant \<Rightarrow> string \<Rightarrow> string \<Rightarrow> 's proxy \<Rightarrow> 's proxy" where
  "bindStickyKey dp now routingKey backend p =
     (let p = set_cache (UserCache_Set now routingKey backend (w_cache (px_world p))) p;
          p = (if d_routingMode dp = ''assignment''
               then set_store (snd (BulkAssign (d_store dp) now
                      [(routingKey, \<lparr>EntryBackend = backend, EntryWeight = 1\<rparr>)] (w_store (px_world p)))) p
               else p)
      in p\<lparr>px_world := send_hook dp (AssignHook backend [routingKey]) (px_world p)\<rparr>)"

text \<open>
  The sticky header reaches the wrapper only with an answer of the backend; an error page of
  the proxy has none.
\<close>

definition captured_key :: "bool \<Rightarrow> upstream \<Rightarrow> string \<Rightarrow> string" where
  "captured_key reached up header = (case up of Answered _ \<Rightarrow> if reached then header else [] | TransportError \<Rightarrow> [])"

definition servePublic :: "'s proxy_cfg \<Rightarrow> 's request_env \<Rightarrow> request \<Rightarrow> 's proxy \<Rightarrow> response \<times> 's proxy" where
  "servePublic cfg e rq p =
     (case ActiveBackends (d_store (pc_deps cfg)) (w_store (px_world p)) of
        (Inl err, s) \<Rightarrow> (Refused StatusServiceUnavailable, set_store s p)
      | (Inr backends, s) \<Rightarrow>
          (case (if backends = [] then None else pick_backend (sort backends) (HashUser (rq_remoteAddr rq))) of
             None \<Rightarrow> (Refused StatusServiceUnavailable, set_store s p)
           | Some backend \<Rightarrow>
               let p = set_store s p;
                   reached = fst (Available (e_arrival e) backend (px_backends p)) \<and>
                     (backend \<in> set (bm_proxies (px_backends p)) \<or> pc_url_ok cfg backend);
                   (status, bm) = ProxyRequest (pc_url_ok cfg) (e_arrival e) (e_answered e) (e_upstream e) backend (px_backends p);
                   p = p\<lparr>px_backends := bm\<rparr>;
                   key = captured_key reached (e_upstream e) (e_sticky e)
               in (PublicForwarded backend status,
                   if key = [] then p else bindStickyKey (pc_deps cfg) (e_answered e) key backend p)))"

definition quarantined_key :: "string \<Rightarrow> 's proxy \<Rightarrow> bool" where
  "quarantined_key k p \<longleftrightarrow> (case px_poison p of None \<Rightarrow> False | Some pill \<Rightarrow> IsQuarantined k pill)"

definition held_back :: "'s deps \<Rightarrow> string \<Rightarrow> 's proxy \<Rightarrow> bool" where
  "held_back dp k p \<longleftrightarrow> d_holdMgr dp \<and> held (w_holds (px_world p)) k"

definition forward :: "'s proxy_cfg \<Rightarrow> 's request_env \<Rightarrow> request \<Rightarrow> string \<Rightarrow> string \<Rightarrow> 's proxy \<Rightarrow> response \<times> 's proxy" where
  "forward cfg e rq stickyKey backend p =
     (if isWebSocket rq then (Bridged stickyKey backend, p)
      else let (status, bm) = ProxyRequest (pc_url_ok cfg) (e_routed e) (e_answered e) (e_upstream e) backend (px_backends p)
           in (Forwarded stickyKey backend status, p\<lparr>px_backends := bm\<rparr>))"

definition ServeHTTP :: "'s proxy_cfg \<Rightarrow> 's request_env \<Rightarrow> request \<Rightarrow> 's proxy \<Rightarrow> response \<times> 's proxy" where
  "ServeHTTP cfg e rq p =
     (if isPublicPath (pc_publicPaths cfg) (rq_path rq) then servePublic cfg e rq p
      else
        case extractUserIDFromJWT (pc_parse cfg) (e_arrival e) (rq_authorization rq) (px_jwtCache p)
               (pc_jwtSecret cfg) (pc_routingClaim cfg) of
          (Inl err, jc) \<Rightarrow> (Refused StatusUnauthorized, p\<lparr>px_jwtCache := jc\<rparr>)
        | (Inr jwtData, jc) \<Rightarrow>
            let p = p\<lparr>px_jwtCache := jc\<rparr>;
                stickyKey = cached_jwt.RoutingKey jwtData;
                (allowed, rl) = Allow (e_arrival e) stickyKey (px_rateLimiter p);
                p = p\<lparr>px_rateLimiter := rl\<rparr>
            in if \<not> allowed then (Refused StatusTooManyRequests, p)
               else if quarantined_key stickyKey p then (Refused StatusServiceUnavailable, p)
               else
                 let p = (if held_back (pc_deps cfg) stickyKey p then e_meanwhile e p else p)
                 in case route (pc_deps cfg) (e_routed e) stickyKey p of
                      (Inl status, p) \<Rightarrow> (Refused status, p)
                    | (Inr backend, p) \<Rightarrow> forward cfg e rq stickyKey backend p)"

section \<open>Frame lemmas\<close>

lemma set_store_simps [simp]:
  "w_store (px_world (set_store s p)) = s" "w_cache (px_world (set_store s p)) = w_cache (px_world p)"
  "px_redis (set_store s p) = px_redis p" "px_backends (set_store s p) = px_backends p" "px_drain (set_store s p) = px_drain p"
  "px_poison (set_store s p) = px_poison p"
  by (simp_all add: set_store_def)

lemma set_cache_simps [simp]:
  "w_store (px_world (set_cache c p)) = w_store (px_world p)" "w_cache (px_world (set_cache c p)) = c"
  "px_redis (set_cache c p) = px_redis p" "px_backends (set_cache c p) = px_backends p" "px_drain (set_cache c p) = px_drain p"
  "px_poison (set_cache c p) = px_poison p"
  by (simp_all add: set_cache_def)

lemma uc_ttl_ops [simp]:
  "uc_ttl (snd (UserCache_Get now k c)) = uc_ttl c" "uc_ttl (UserCache_Set now k b c) = uc_ttl c"
  "uc_ttl (UserCache_Invalidate k c) = uc_ttl c"
  by (auto simp: uc_defs split: option.split)

lemma cb_check_world: "cb_check now p = (is_open, q) \<Longrightarrow> px_world q = px_world p \<and> px_backends q = px_backends p"
  by (auto simp: cb_check_def split: option.splits prod.splits)

lemma assignViaTable_frame: "assignViaTable dp now k p = (r, q) \<Longrightarrow> w_cache (px_world q) = w_cache (px_world p) \<and> px_backends q = px_backends p"
  by (auto simp: assignViaTable_def Let_def dest: cb_check_world split: prod.splits sum.splits if_splits)

lemma assignViaHash_frame: "assignViaHash dp k p = (r, q) \<Longrightarrow> w_cache (px_world q) = w_cache (px_world p) \<and> px_backends q = px_backends p"
  by (auto simp: assignViaHash_def split: prod.splits sum.splits if_splits)

text \<open>Whatever assigned the backend, the cache has it for the length of the TTL.\<close>

lemma assign_backend_cached:
  assumes "assign_backend dp now k p = (Inr b, q)" and "t \<le> now + uc_ttl (w_cache (px_world p))"
  shows "cached (w_cache (px_world q)) t k = Some b"
proof -
  obtain r q1 where a: "(if d_routingMode dp = ''assignment'' then assignViaTable dp now k p else assignViaHash dp k p) = (r, q1)"
    by (cases "if d_routingMode dp = ''assignment'' then assignViaTable dp now k p else assignViaHash dp k p")
  have "w_cache (px_world q1) = w_cache (px_world p)"
    using a assignViaTable_frame assignViaHash_frame by (metis (full_types))
  with assms a show ?thesis
    by (auto simp: assign_backend_def Let_def cached_Set split: option.splits)
qed

lemma route_hit:
  assumes "cached (w_cache (px_world p)) now k = Some b"
    and "fst (Available now b (px_backends p))" and "\<not> IsDraining b (px_drain p)"
  shows "\<exists>q. route dp now k p = (Inr b, q) \<and> px_world q = px_world p"
proof -
  obtain r c where g: "UserCache_Get now k (w_cache (px_world p)) = (r, c)" by (cases "UserCache_Get now k (w_cache (px_world p))")
  then have "r = Inr b" using Get_result [of now k "w_cache (px_world p)"] assms(1) by simp
  moreover from this g have "c = w_cache (px_world p)" by (auto simp: UserCache_Get_def split: option.splits if_splits)
  moreover obtain bm where "Available now b (px_backends p) = (True, bm)" using assms(2) by (metis prod.collapse)
  ultimately show ?thesis using g assms(3) by (simp add: route_def Let_def set_cache_def)
qed

lemma route_miss:
  assumes "cached (w_cache (px_world p)) now k = None"
  shows "\<exists>c. route dp now k p = assign_backend dp now k (set_cache c p) \<and> uc_ttl c = uc_ttl (w_cache (px_world p))"
proof -
  obtain r c where g: "UserCache_Get now k (w_cache (px_world p)) = (r, c)" by (cases "UserCache_Get now k (w_cache (px_world p))")
  then have "r = Inl ErrCacheMiss" using Get_result [of now k "w_cache (px_world p)"] assms by simp
  moreover have "uc_ttl c = uc_ttl (w_cache (px_world p))" using g uc_ttl_ops(1) [of now k "w_cache (px_world p)"] by simp
  ultimately show ?thesis using g by (auto simp: route_def)
qed

text \<open>Assignment through the table while the Redis breaker lets calls through.\<close>

definition table_mode :: "'s redis_server \<Rightarrow> 's network \<Rightarrow> 's deps \<Rightarrow> instant \<Rightarrow> 's proxy \<Rightarrow> bool" where
  "table_mode R net dp now p \<longleftrightarrow> d_store dp = redis_store R net \<and> d_routingMode dp = ''assignment'' \<and>
     redis_inv R net (w_store (px_world p)) \<and> \<not> fst (cb_check now p)"

lemma table_mode_set_cache [simp]: "table_mode R net dp now (set_cache c p) = table_mode R net dp now p"
proof -
  have "fst (cb_check now (set_cache c p)) = fst (cb_check now p)" by (auto simp: cb_check_def split: option.split prod.split)
  then show ?thesis by (simp add: table_mode_def)
qed


text \<open>What a request that passes the gates turns into.\<close>

lemma servePublic_response: "fst (servePublic cfg e rq p) \<in> {Refused StatusServiceUnavailable} \<union> {PublicForwarded b status | b status. True}"
  by (auto simp: servePublic_def Let_def split: prod.split sum.split option.split)

lemma ServeHTTP_private:
  assumes "\<not> isPublicPath (pc_publicPaths cfg) (rq_path rq)"
    and "extractUserIDFromJWT (pc_parse cfg) (e_arrival e) (rq_authorization rq) (px_jwtCache p)
      (pc_jwtSecret cfg) (pc_routingClaim cfg) = (Inr c, jc)"
    and "Allow (e_arrival e) (cached_jwt.RoutingKey c) (px_rateLimiter p) = (ok, rl)"
    and "fst (ServeHTTP cfg e rq p) = Forwarded u b status \<or> fst (ServeHTTP cfg e rq p) = Bridged u b"
  shows "ok \<and> \<not> quarantined_key (cached_jwt.RoutingKey c) p \<and> cached_jwt.RoutingKey c = u"
proof -
  let ?k = "cached_jwt.RoutingKey c" and ?p = "p\<lparr>px_jwtCache := jc, px_rateLimiter := rl\<rparr>"
  have q: "quarantined_key ?k ?p = quarantined_key ?k p" by (simp add: quarantined_key_def)
  define p1 where "p1 = (if held_back (pc_deps cfg) ?k ?p then e_meanwhile e ?p else ?p)"
  obtain r p2 where r: "route (pc_deps cfg) (e_routed e) ?k p1 = (r, p2)" by (cases "route (pc_deps cfg) (e_routed e) ?k p1")
  have "ServeHTTP cfg e rq p = (if \<not> ok then (Refused StatusTooManyRequests, ?p)
      else if quarantined_key ?k p then (Refused StatusServiceUnavailable, ?p)
      else case r of Inl status \<Rightarrow> (Refused status, p2) | Inr backend \<Rightarrow> forward cfg e rq ?k backend p2)"
    using assms(1-3) r by (simp add: ServeHTTP_def Let_def q p1_def)
  with assms(4) show ?thesis
    by (auto simp: forward_def split: if_splits sum.splits prod.splits)
qed





section \<open>Stickiness over a sequence of requests\<close>

text \<open>The user a request is attributed to, if its token is accepted.\<close>

definition user_of :: "'s proxy_cfg \<Rightarrow> 's request_env \<Rightarrow> request \<Rightarrow> 's proxy \<Rightarrow> string option" where
  "user_of cfg e rq p =
     (case fst (extractUserIDFromJWT (pc_parse cfg) (e_arrival e) (rq_authorization rq) (px_jwtCache p)
              (pc_jwtSecret cfg) (pc_routingClaim cfg)) of
        Inl err \<Rightarrow> None
      | Inr c \<Rightarrow> Some (cached_jwt.RoutingKey c))"

text \<open>What a proxy goes through: requests, and whatever other goroutines do to its state in between.\<close>

datatype 's proxy_event = Served "'s request_env" request | Background "'s proxy \<Rightarrow> 's proxy"

fun proxy_step :: "'s proxy_cfg \<Rightarrow> 's proxy_event \<Rightarrow> 's proxy \<Rightarrow> 's proxy" where
  "proxy_step cfg (Served e rq) p = snd (ServeHTTP cfg e rq p)"
| "proxy_step cfg (Background f) p = f p"

text \<open>
  An event leaves the binding of \<open>k\<close> to \<open>b\<close> alone until \<open>T\<close> if other goroutines do not touch the user's
  cache entry, no public response names the user, no request is held for a transition, and
  requests of the user itself are routed by \<open>T\<close> while the backend is available and not draining.
\<close>

fun leaves_alone :: "'s proxy_cfg \<Rightarrow> string \<Rightarrow> string \<Rightarrow> instant \<Rightarrow> 's proxy_event \<Rightarrow> 's proxy \<Rightarrow> bool" where
  "leaves_alone cfg k b T (Background f) p \<longleftrightarrow> uc_view (w_cache (px_world (f p))) k = uc_view (w_cache (px_world p)) k"
| "leaves_alone cfg k b T (Served e rq) p \<longleftrightarrow>
     (if isPublicPath (pc_publicPaths cfg) (rq_path rq) then e_sticky e \<noteq> k
      else case user_of cfg e rq p of
             None \<Rightarrow> True
           | Some u \<Rightarrow> \<not> held_back (pc_deps cfg) u p \<and>
               (u = k \<longrightarrow> e_routed e \<le> T \<and> fst (Available (e_routed e) b (px_backends p)) \<and> \<not> IsDraining b (px_drain p)))"

fun undisturbed :: "'s proxy_cfg \<Rightarrow> string \<Rightarrow> string \<Rightarrow> instant \<Rightarrow> 's proxy_event list \<Rightarrow> 's proxy \<Rightarrow> bool" where
  "undisturbed cfg k b T [] p \<longleftrightarrow> True"
| "undisturbed cfg k b T (ev # evs) p \<longleftrightarrow> leaves_alone cfg k b T ev p \<and> undisturbed cfg k b T evs (proxy_step cfg ev p)"

text \<open>Routing one user does not touch the cache entry of another.\<close>

lemma assign_backend_other:
  assumes "u \<noteq> k"
  shows "uc_view (w_cache (px_world (snd (assign_backend dp now u p)))) k = uc_view (w_cache (px_world p)) k"
proof -
  obtain r q where a: "(if d_routingMode dp = ''assignment'' then assignViaTable dp now u p else assignViaHash dp u p) = (r, q)"
    by (cases "if d_routingMode dp = ''assignment'' then assignViaTable dp now u p else assignViaHash dp u p")
  have "w_cache (px_world q) = w_cache (px_world p)"
    using a assignViaTable_frame assignViaHash_frame by (metis (full_types))
  with assms a show ?thesis
    by (auto simp: assign_backend_def Let_def uc_view_Set split: option.splits)
qed

lemma route_other:
  assumes "u \<noteq> k"
  shows "uc_view (w_cache (px_world (snd (route dp now u p)))) k = uc_view (w_cache (px_world p)) k"
proof -
  obtain r c where g: "UserCache_Get now u (w_cache (px_world p)) = (r, c)" by (cases "UserCache_Get now u (w_cache (px_world p))")
  have "uc_view c k = uc_view (w_cache (px_world p)) k" using uc_view_Get [of now u "w_cache (px_world p)"] g assms by auto
  with g assms show ?thesis
    by (cases r) (simp_all add: route_def assign_backend_other Let_def uc_view_Invalidate split: prod.split)
qed

lemma bindStickyKey_other:
  "u \<noteq> k \<Longrightarrow> uc_view (w_cache (px_world (bindStickyKey dp now u b p))) k = uc_view (w_cache (px_world p)) k"
  by (simp add: bindStickyKey_def Let_def uc_view_Set)

lemma servePublic_other:
  assumes "e_sticky e \<noteq> k"
  shows "uc_view (w_cache (px_world (snd (servePublic cfg e rq p)))) k = uc_view (w_cache (px_world p)) k"
  using assms by (auto simp: servePublic_def bindStickyKey_other captured_key_def Let_def split: prod.split sum.split option.split upstream.split)

lemma forward_world [simp]: "px_world (snd (forward cfg e rq k b p)) = px_world p"
  by (simp add: forward_def split: prod.split)

text \<open>A request of the user whose entry is in the cache, and what it leaves behind.\<close>

lemma ServeHTTP_hit:
  assumes "\<not> isPublicPath (pc_publicPaths cfg) (rq_path rq)" and "user_of cfg e rq p = Some k" and "\<not> held_back (pc_deps cfg) k p"
    and "cached (w_cache (px_world p)) (e_routed e) k = Some b"
    and "fst (Available (e_routed e) b (px_backends p))" and "\<not> IsDraining b (px_drain p)"
  shows "px_world (snd (ServeHTTP cfg e rq p)) = px_world p \<and>
    (if \<not> fst (Allow (e_arrival e) k (px_rateLimiter p)) then fst (ServeHTTP cfg e rq p) = Refused StatusTooManyRequests
     else if quarantined_key k p then fst (ServeHTTP cfg e rq p) = Refused StatusServiceUnavailable
     else if isWebSocket rq then fst (ServeHTTP cfg e rq p) = Bridged k b
     else \<exists>status. fst (ServeHTTP cfg e rq p) = Forwarded k b status)"
proof -
  obtain c jc where x: "extractUserIDFromJWT (pc_parse cfg) (e_arrival e) (rq_authorization rq) (px_jwtCache p)
      (pc_jwtSecret cfg) (pc_routingClaim cfg) = (Inr c, jc)" and k: "cached_jwt.RoutingKey c = k"
    using assms(2) by (auto simp: user_of_def split: sum.splits) (metis prod.collapse)
  obtain ok rl where al: "Allow (e_arrival e) k (px_rateLimiter p) = (ok, rl)" by (cases "Allow (e_arrival e) k (px_rateLimiter p)")
  let ?p = "p\<lparr>px_jwtCache := jc, px_rateLimiter := rl\<rparr>"
  obtain q where q: "route (pc_deps cfg) (e_routed e) k ?p = (Inr b, q)" "px_world q = px_world ?p"
    using route_hit [of ?p "e_routed e" k b "pc_deps cfg"] assms(4-6) by auto
  have same: "quarantined_key k ?p = quarantined_key k p" "held_back (pc_deps cfg) k ?p = held_back (pc_deps cfg) k p"
    by (simp_all add: quarantined_key_def held_back_def)
  have s: "ServeHTTP cfg e rq p = (if \<not> ok then (Refused StatusTooManyRequests, ?p)
      else if quarantined_key k p then (Refused StatusServiceUnavailable, ?p)
      else forward cfg e rq k b q)"
    using assms(1,3) x k al q(1) by (simp add: ServeHTTP_def Let_def same)
  show ?thesis using al q(2) by (auto simp: s forward_def split: prod.split)
qed

lemma ServeHTTP_other:
  assumes "\<not> isPublicPath (pc_publicPaths cfg) (rq_path rq)"
    and "\<forall>u. user_of cfg e rq p = Some u \<longrightarrow> u \<noteq> k \<and> \<not> held_back (pc_deps cfg) u p"
  shows "uc_view (w_cache (px_world (snd (ServeHTTP cfg e rq p)))) k = uc_view (w_cache (px_world p)) k"
proof -
  obtain r jc where x: "extractUserIDFromJWT (pc_parse cfg) (e_arrival e) (rq_authorization rq) (px_jwtCache p)
      (pc_jwtSecret cfg) (pc_routingClaim cfg) = (r, jc)"
    by (cases "extractUserIDFromJWT (pc_parse cfg) (e_arrival e) (rq_authorization rq) (px_jwtCache p)
      (pc_jwtSecret cfg) (pc_routingClaim cfg)")
  show ?thesis
  proof (cases r)
    case (Inl err)
    then show ?thesis using assms(1) x by (simp add: ServeHTTP_def)
  next
    case (Inr c)
    let ?u = "cached_jwt.RoutingKey c"
    obtain ok rl where al: "Allow (e_arrival e) ?u (px_rateLimiter p) = (ok, rl)" by (cases "Allow (e_arrival e) ?u (px_rateLimiter p)")
    let ?p = "p\<lparr>px_jwtCache := jc, px_rateLimiter := rl\<rparr>"
    have u: "?u \<noteq> k" "\<not> held_back (pc_deps cfg) ?u ?p"
      using assms(2) x Inr by (simp_all add: user_of_def held_back_def)
    obtain d q where q: "route (pc_deps cfg) (e_routed e) ?u ?p = (d, q)" by (cases "route (pc_deps cfg) (e_routed e) ?u ?p")
    have "uc_view (w_cache (px_world q)) k = uc_view (w_cache (px_world p)) k"
      using route_other [OF u(1), of "pc_deps cfg" "e_routed e" ?p] q by simp
    moreover have "snd (ServeHTTP cfg e rq p) = (if \<not> ok \<or> quarantined_key ?u ?p then ?p
        else case d of Inl status \<Rightarrow> q | Inr backend \<Rightarrow> snd (forward cfg e rq ?u backend q))"
      using assms(1) x Inr al q u(2) by (simp add: ServeHTTP_def Let_def split: sum.split)
    ultimately show ?thesis by (cases d) simp_all
  qed
qed

text \<open>A cache entry that is live until \<open>T\<close>.\<close>

definition bound_until :: "instant \<Rightarrow> string \<Rightarrow> string \<Rightarrow> 's proxy \<Rightarrow> bool" where
  "bound_until T k b p \<longleftrightarrow> (\<forall>t \<le> T. cached (w_cache (px_world p)) t k = Some b)"

lemma bound_until_cong:
  "uc_view (w_cache (px_world q)) k = uc_view (w_cache (px_world p)) k \<Longrightarrow> bound_until T k b q = bound_until T k b p"
  by (simp add: bound_until_def live_def)

lemma leaves_alone_bound:
  assumes "leaves_alone cfg k b T ev p" and "bound_until T k b p"
  shows "bound_until T k b (proxy_step cfg ev p)"
proof (cases ev)
  case (Background f)
  then show ?thesis using assms bound_until_cong [of "f p" k p] by simp
next
  case (Served e rq)
  consider "isPublicPath (pc_publicPaths cfg) (rq_path rq)" "e_sticky e \<noteq> k"
    | "\<not> isPublicPath (pc_publicPaths cfg) (rq_path rq)" "user_of cfg e rq p = Some k"
    | "\<not> isPublicPath (pc_publicPaths cfg) (rq_path rq)" "\<forall>u. user_of cfg e rq p = Some u \<longrightarrow> u \<noteq> k \<and> \<not> held_back (pc_deps cfg) u p"
    using assms(1) Served by (auto split: if_splits option.splits)
  then show ?thesis
  proof cases
    case 1
    then have "uc_view (w_cache (px_world (proxy_step cfg ev p))) k = uc_view (w_cache (px_world p)) k"
      using servePublic_other [OF 1(2), of cfg rq p] Served by (simp add: ServeHTTP_def)
    then show ?thesis using assms(2) bound_until_cong by blast
  next
    case 2
    then have "px_world (proxy_step cfg ev p) = px_world p"
      using ServeHTTP_hit [of cfg rq e p k b] assms Served by (simp add: bound_until_def)
    then show ?thesis using assms(2) by (simp add: bound_until_def)
  next
    case 3
    then show ?thesis using ServeHTTP_other [OF 3] assms(2) Served bound_until_cong by (metis proxy_step.simps(1))
  qed
qed

lemma undisturbed_bound:
  "undisturbed cfg k b T evs p \<Longrightarrow> bound_until T k b p \<Longrightarrow> bound_until T k b (fold (proxy_step cfg) evs p)"
  by (induction evs arbitrary: p) (simp_all add: leaves_alone_bound)

section \<open>Properties\<close>

text \<open>
  C1: Nobody reaches a backend under a name that is not theirs. Outside the public paths a
  request is forwarded, or its WebSocket bridged, only for the user of a bearer token that is
  HMAC signed under the configured secret; that user was within the rate limit and not
  quarantined when the request arrived.
\<close>

theorem forwarded_as_authenticated:
  assumes "parse_documented method_of verifies (pc_parse cfg)"
    and "cache_authentic (pc_parse cfg) (pc_jwtSecret cfg) (pc_routingClaim cfg) (px_jwtCache p)"
    and "ServeHTTP cfg e rq p = (resp, p')" and "resp = Forwarded u b status \<or> resp = Bridged u b"
  shows "\<not> isPublicPath (pc_publicPaths cfg) (rq_path rq) \<and>
    (\<exists>tok c. rq_authorization rq = ''Bearer '' @ tok \<and> method_of tok = SigningMethodHMAC \<and> verifies (pc_jwtSecret cfg) tok \<and>
       authentic (pc_parse cfg) (pc_jwtSecret cfg) (pc_routingClaim cfg) tok c \<and> cached_jwt.RoutingKey c = u) \<and>
    fst (Allow (e_arrival e) u (px_rateLimiter p)) \<and> \<not> quarantined_key u p"
proof -
  have public: "\<not> isPublicPath (pc_publicPaths cfg) (rq_path rq)"
    using assms(3, 4) servePublic_response [of cfg e rq p] by (auto simp: ServeHTTP_def)
  obtain r jc where x: "extractUserIDFromJWT (pc_parse cfg) (e_arrival e) (rq_authorization rq) (px_jwtCache p)
      (pc_jwtSecret cfg) (pc_routingClaim cfg) = (r, jc)"
    by (cases "extractUserIDFromJWT (pc_parse cfg) (e_arrival e) (rq_authorization rq) (px_jwtCache p)
      (pc_jwtSecret cfg) (pc_routingClaim cfg)")
  from assms(3, 4) public x obtain c where c: "r = Inr c" by (cases r) (auto simp: ServeHTTP_def)
  obtain ok rl where al: "Allow (e_arrival e) (cached_jwt.RoutingKey c) (px_rateLimiter p) = (ok, rl)"
    by (cases "Allow (e_arrival e) (cached_jwt.RoutingKey c) (px_rateLimiter p)")
  from ServeHTTP_private [OF public x [unfolded c] al, of u b status] assms(3, 4)
  have "ok" "\<not> quarantined_key u p" "cached_jwt.RoutingKey c = u" by auto
  with public al extract_accepts [OF assms(1, 2) x] c show ?thesis by auto
qed

text \<open>A proxy on the server of the Redis properties, with one user cached.\<close>

definition demo_cfg :: "plain_redis proxy_cfg" where
  "demo_cfg = \<lparr>pc_deps = demo_deps, pc_parse = demo_parse, pc_jwtSecret = ''k'', pc_routingClaim = ''sub'',
     pc_publicPaths = [''/public''], pc_url_ok = (\<lambda>_. True)\<rparr>"

definition demo_proxy :: "plain_redis proxy" where
  "demo_proxy = \<lparr>px_world = demo_world\<lparr>w_store := busy_redis\<rparr>, px_redis = Some (NewRedis 5 30), px_backends = NewBackendManager 3 60,
     px_jwtCache = NewJWTCache 10, px_rateLimiter = NewRateLimiter 100 200, px_poison = None, px_drain = NewDrainManager\<rparr>"

definition demo_request :: request where
  "demo_request = \<lparr>rq_path = ''/api'', rq_authorization = ''Bearer tok'', rq_upgrade = [], rq_remoteAddr = ''1.2.3.4:5''\<rparr>"

definition demo_env :: "plain_redis request_env" where
  "demo_env = \<lparr>e_arrival = 5, e_routed = 5, e_answered = 6, e_meanwhile = (\<lambda>p. p), e_upstream = Answered 200, e_sticky = []\<rparr>"

theorem forwarded_as_authenticated_witness:
  "fst (ServeHTTP demo_cfg demo_env demo_request (set_cache (UserCache_Set 0 ''u1'' ''b1'' (NewUserCache 60)) demo_proxy)) =
     Forwarded ''u1'' ''b1'' 200 \<and>
   \<not> quarantined_key ''u1'' (set_cache (UserCache_Set 0 ''u1'' ''b1'' (NewUserCache 60)) demo_proxy)"
proof -
  let ?p = "set_cache (UserCache_Set 0 ''u1'' ''b1'' (NewUserCache 60)) demo_proxy"
  have doc: "parse_documented (\<lambda>_. SigningMethodHMAC) (\<lambda>key s. s = ''tok'' \<and> key = ''k'') (pc_parse demo_cfg)"
    by (auto simp: demo_cfg_def parse_documented_def demo_parse_def split: sum.splits if_splits)
  have auth: "cache_authentic (pc_parse demo_cfg) (pc_jwtSecret demo_cfg) (pc_routingClaim demo_cfg) (px_jwtCache ?p)"
    by (simp add: set_cache_def demo_proxy_def cache_authentic_new)
  obtain resp p' where run: "ServeHTTP demo_cfg demo_env demo_request ?p = (resp, p')" by (cases "ServeHTTP demo_cfg demo_env demo_request ?p")
  have "fst (ServeHTTP demo_cfg demo_env demo_request ?p) = Forwarded ''u1'' ''b1'' 200" by code_simp
  with run have resp: "resp = Forwarded ''u1'' ''b1'' 200" by simp
  from forwarded_as_authenticated [OF doc auth run, of "''u1''" "''b1''" 200] run resp show ?thesis by simp
qed

text \<open>
  C3: Routing is sticky. When a user who is not in the cache has been assigned to a backend, in
  either routing mode and whether by the store or by the fallback, then after any further
  requests of any users, and any activity of other goroutines, the next request of the user
  that is routed within the cache's TTL of the assignment goes to the same backend and
  leaves store, cache and hooks as they are, unless the rate limit or a quarantine refuses it.
  The condition is that in between nothing replaces or removes the user's cache entry: no
  transition, eviction or invalidation of it, no public response that names the user, and no
  request of the user that finds the backend unavailable or draining.
\<close>

theorem routing_sticky:
  assumes "cached (w_cache (px_world p)) t k = None" and "route (pc_deps cfg) t k p = (Inr b, p1)"
    and "T = t + uc_ttl (w_cache (px_world p))" and "undisturbed cfg k b T evs p1"
    and "q = fold (proxy_step cfg) evs p1" and "leaves_alone cfg k b T (Served e rq) q"
    and "\<not> isPublicPath (pc_publicPaths cfg) (rq_path rq)" and "user_of cfg e rq q = Some k"
  shows "px_world (snd (ServeHTTP cfg e rq q)) = px_world q \<and>
    (if \<not> fst (Allow (e_arrival e) k (px_rateLimiter q)) then fst (ServeHTTP cfg e rq q) = Refused StatusTooManyRequests
     else if quarantined_key k q then fst (ServeHTTP cfg e rq q) = Refused StatusServiceUnavailable
     else if isWebSocket rq then fst (ServeHTTP cfg e rq q) = Bridged k b
     else \<exists>status. fst (ServeHTTP cfg e rq q) = Forwarded k b status)"
proof -
  obtain c where c: "route (pc_deps cfg) t k p = assign_backend (pc_deps cfg) t k (set_cache c p)" "uc_ttl c = uc_ttl (w_cache (px_world p))"
    using route_miss [OF assms(1)] by blast
  have "assign_backend (pc_deps cfg) t k (set_cache c p) = (Inr b, p1)" using c(1) assms(2) by simp
  from assign_backend_cached [OF this] have "bound_until T k b p1"
    using assms(3) c(2) by (simp add: bound_until_def)
  then have "bound_until T k b q" using undisturbed_bound [OF assms(4)] assms(5) by simp
  then show ?thesis
    using assms(6-8) by (intro ServeHTTP_hit) (simp_all add: bound_until_def)
qed

theorem routing_sticky_witness:
  "\<exists>p1. route demo_deps 5 ''u1'' demo_proxy = (Inr ''b1'', p1) \<and>
     (\<exists>status. fst (ServeHTTP demo_cfg demo_env demo_request (snd (ServeHTTP demo_cfg demo_env demo_request p1))) = Forwarded ''u1'' ''b1'' status)"
proof -
  let ?p1 = "snd (route demo_deps 5 ''u1'' demo_proxy)" and ?evs = "[Served demo_env demo_request]"
  let ?q = "fold (proxy_step demo_cfg) ?evs ?p1"
  have miss: "cached (w_cache (px_world demo_proxy)) 5 ''u1'' = None" by code_simp
  have r: "fst (route demo_deps 5 ''u1'' demo_proxy) = Inr ''b1''" by code_simp
  then have p1: "route (pc_deps demo_cfg) 5 ''u1'' demo_proxy = (Inr ''b1'', ?p1)"
    using prod.collapse [of "route demo_deps 5 ''u1'' demo_proxy"] by (simp add: demo_cfg_def)
  have T: "(65 :: int) = 5 + uc_ttl (w_cache (px_world demo_proxy))" by code_simp
  have u: "undisturbed demo_cfg ''u1'' ''b1'' 65 ?evs ?p1" by code_simp
  have l: "leaves_alone demo_cfg ''u1'' ''b1'' 65 (Served demo_env demo_request) ?q" by code_simp
  have rest: "\<not> isPublicPath (pc_publicPaths demo_cfg) (rq_path demo_request)" "user_of demo_cfg demo_env demo_request ?q = Some ''u1''"
    "fst (Allow (e_arrival demo_env) ''u1'' (px_rateLimiter ?q))" "\<not> quarantined_key ''u1'' ?q" "\<not> isWebSocket demo_request"
    by code_simp+
  from routing_sticky [OF miss p1 T u refl l rest(1,2)] rest(3-5) p1 show ?thesis by (auto simp: demo_cfg_def)
qed



text \<open>
  C38: A binding from a response header can contradict the table. In assignment mode on Redis,
  when a public response names a routing key that is already assigned to a different backend
  than the one that answered, the table keeps the old assignment but the local cache takes
  the new one: from then on this replica and the table name different backends.
\<close>

theorem sticky_header_diverges:
  assumes "redis_inv R net (w_store (px_world p))" and "d_store dp = redis_store R net" and "d_routingMode dp = ''assignment''"
    and "tab R (w_store (px_world p)) k = Some a" and "Backend a \<noteq> b" and "0 \<le> uc_ttl (w_cache (px_world p))"
  shows "cached (w_cache (px_world (bindStickyKey dp t k b p))) t k = Some b \<and>
    tab R (w_store (px_world (bindStickyKey dp t k b p))) k = Some a"
proof -
  let ?es = "[(k, \<lparr>EntryBackend = b, EntryWeight = 1\<rparr>)] :: bulk_entries"
  have ok: "rok R (w_store (px_world p))" "reliable net" using assms(1) by (simp_all add: redis_inv_def)
  obtain m s' where "Redis_BulkAssign R net t ?es (w_store (px_world p)) = ((m, None), s')" "tab R s' k = Some a"
    by (rule BulkAssign_effect [OF ok, of ?es t]) (use assms(4) that in auto)
  then show ?thesis
    using assms(2, 3, 6) by (simp add: bindStickyKey_def redis_store_def Let_def cached_Set)
qed

theorem sticky_header_diverges_witness:
  "cached (w_cache (px_world (bindStickyKey demo_deps 5 ''u'' ''b2'' demo_proxy))) 5 ''u'' = Some ''b2'' \<and>
   tab plain_server (w_store (px_world (bindStickyKey demo_deps 5 ''u'' ''b2'' demo_proxy))) ''u'' = Some demo_assignment"
proof -
  have inv: "redis_inv plain_server demo_net (w_store (px_world demo_proxy))" using busy_ok(1) by (simp add: demo_proxy_def)
  have tab: "tab plain_server (w_store (px_world demo_proxy)) ''u'' = Some demo_assignment"
    by (simp add: v_tab_def view_def plain_server_def busy_redis_def demo_proxy_def)
  have ttl: "0 \<le> uc_ttl (w_cache (px_world demo_proxy))" by code_simp
  show ?thesis
    by (rule sticky_header_diverges [OF inv _ _ tab _ ttl]) (simp_all add: demo_deps_def demo_assignment_def)
qed

text \<open>In hash mode the backend depends on the set of active backends only.\<close>

lemma hash_route_order_independent:
  assumes "ActiveBackends (d_store dp) (w_store (px_world p)) = (Inr xs, s)"
    and "ActiveBackends (d_store dp') (w_store (px_world q)) = (Inr ys, s')" and "set xs = set ys" "distinct xs" "distinct ys"
  shows "fst (assignViaHash dp k p) = fst (assignViaHash dp' k q)"
  using assms sort_of_same_set [of xs ys] by (auto simp: assignViaHash_def)

text \<open>With the Redis breaker open the table is not asked.\<close>

lemma open_breaker_serves_fallback:
  assumes "cb_check t p = (True, q)" and "px_redis p = Some r" and "cachedBackends r \<noteq> []" and "length (cachedBackends r) < 2 ^ 32"
    and "[] \<notin> set (cachedBackends r)"
  shows "\<exists>b \<in> set (cachedBackends r). assignViaTable dp t k p = (Some b, q) \<and> px_world q = px_world p"
proof -
  obtain b where b: "b \<in> set (cachedBackends r)" "hashFallback (HashUser k) r = Some b"
    using pick_backend_Some [OF assms(3, 4)] assms(3) by (auto simp: hashFallback_def)
  have "px_redis q = Some r" using assms(1, 2) by (auto simp: cb_check_def isCBOpen_def split: cb_state.splits if_splits)
  then have "fallback k q = b" "b \<noteq> []" using b assms(5) by (auto simp: fallback_def)
  with assms(1) b(1) cb_check_world [OF assms(1)] show ?thesis by (auto simp: assignViaTable_def)
qed

end
