(* ===== verification/Config.thy ===== *)
theory Config
  imports Go_Prelude
begin

text \<open>
  The configuration (internal/config/config.go) and the wiring that \<^verbatim>\<open>New\<close> in proxy.go derives from it.
  The environment is a function from names to values, empty where a variable is unset, as
  \<^verbatim>\<open>os.Getenv\<close> reads it. \<^verbatim>\<open>Load\<close> is a list of steps run in order until one fails.
\<close>

section \<open>Numbers and durations\<close>

definition is_digit :: "char \<Rightarrow> bool" where
  "is_digit c \<longleftrightarrow> 48 \<le> (of_char c :: nat) \<and> (of_char c :: nat) \<le> 57"

definition digits_value :: "string \<Rightarrow> int" where
  "digits_value s = fold (\<lambda>c n. n * 10 + (of_char c - 48)) s 0"

definition strip_sign :: "string \<Rightarrow> bool \<times> string" where
  "strip_sign s = (case s of [] \<Rightarrow> (False, []) | c # cs \<Rightarrow> if c = CHR ''-'' then (True, cs) else if c = CHR ''+'' then (False, cs) else (False, s))"

text \<open>\<^verbatim>\<open>strconv.Atoi\<close>\<close>

definition Atoi :: "string \<Rightarrow> int option" where
  "Atoi s =
     (let (neg, ds) = strip_sign s;
          n = (if neg then - digits_value ds else digits_value ds)
      in if ds \<noteq> [] \<and> list_all is_digit ds \<and> - (2 ^ 63) \<le> n \<and> n < 2 ^ 63 then Some n else None)"

text \<open>
  \<^verbatim>\<open>time.ParseDuration\<close>: an optional sign and a sequence of decimal numbers with units. The
  fraction of a number is multiplied exactly here; the library rounds it in \<^verbatim>\<open>float64\<close>.
\<close>

definition duration_unit :: "string \<Rightarrow> int option" where
  "duration_unit u =
     map_of [(''ns'', 1), (''us'', 10 ^ 3), ([CHR 0xC2, CHR 0xB5, CHR ''s''], 10 ^ 3), ([CHR 0xCE, CHR 0xBC, CHR ''s''], 10 ^ 3),
             (''ms'', 10 ^ 6), (''s'', 10 ^ 9), (''m'', 60 * 10 ^ 9), (''h'', 3600 * 10 ^ 9)] u"

definition number_char :: "char \<Rightarrow> bool" where
  "number_char c \<longleftrightarrow> c = CHR ''.'' \<or> is_digit c"

definition parse_element :: "string \<Rightarrow> (int \<times> string) option" where
  "parse_element s =
     (let pre = takeWhile is_digit s; s1 = dropWhile is_digit s;
          dot = (s1 \<noteq> [] \<and> hd s1 = CHR ''.''); s2 = (if dot then tl s1 else s1);
          post = (if dot then takeWhile is_digit s2 else []); s3 = (if dot then dropWhile is_digit s2 else s2);
          u = takeWhile (\<lambda>c. \<not> number_char c) s3; rest = dropWhile (\<lambda>c. \<not> number_char c) s3
      in if pre = [] \<and> post = [] \<or> digits_value pre > 2 ^ 63 then None
         else case duration_unit u of
                None \<Rightarrow> None
              | Some unit \<Rightarrow>
                  let v = digits_value pre * unit + digits_value post * unit div 10 ^ length post
                  in if v > 2 ^ 63 then None else Some (v, rest))"

lemma parse_element_shorter: "parse_element s = Some (v, rest) \<Longrightarrow> length rest < length s"
proof -
  assume a: "parse_element s = Some (v, rest)"
  define s1 where "s1 = dropWhile is_digit s"
  define dot where "dot = (s1 \<noteq> [] \<and> hd s1 = CHR ''.'')"
  define s3 where "s3 = (if dot then dropWhile is_digit (tl s1) else s1)"
  have rest: "rest = dropWhile (\<lambda>c. \<not> number_char c) s3" and pre: "takeWhile is_digit s \<noteq> [] \<or> dot"
    using a by (auto simp: parse_element_def Let_def s1_def dot_def s3_def split: if_splits option.splits)
  have "length rest \<le> length s3" by (simp add: rest length_dropWhile_le)
  moreover have "length s3 \<le> length s1"
    using length_dropWhile_le [of is_digit "tl s1"] by (auto simp: s3_def)
  moreover have "length s1 \<le> length s" by (simp add: s1_def length_dropWhile_le)
  moreover have "dot \<Longrightarrow> length s3 < length s1"
    using length_dropWhile_le [of is_digit "tl s1"] by (cases s1) (auto simp: s3_def dot_def)
  moreover have "takeWhile is_digit s \<noteq> [] \<Longrightarrow> length s1 < length s"
    using length_append [of "takeWhile is_digit s" s1] by (simp add: s1_def)
  ultimately show ?thesis using pre by linarith
qed

function parse_elements :: "int \<Rightarrow> string \<Rightarrow> int option" where
  "parse_elements d s =
     (if s = [] then Some d
      else case parse_element s of
             None \<Rightarrow> None
           | Some (v, rest) \<Rightarrow> if d + v > 2 ^ 63 then None else parse_elements (d + v) rest)"
  by pat_completeness auto
termination by (relation "measure (\<lambda>(d, s). length s)") (auto dest: parse_element_shorter)

declare parse_elements.simps [simp del]

definition ParseDuration :: "string \<Rightarrow> duration option" where
  "ParseDuration str =
     (let (neg, s) = strip_sign str
      in if s = ''0'' then Some 0
         else if s = [] then None
         else case parse_elements 0 s of
                None \<Rightarrow> None
              | Some d \<Rightarrow> if neg then Some (- d) else if d > 2 ^ 63 - 1 then None else Some d)"

lemma ParseDuration_examples:
  "ParseDuration ''30s'' = Some (30 * second)" "ParseDuration ''1h30m'' = Some (90 * minute)"
  "ParseDuration ''1.5s'' = Some (1500 * 10 ^ 6)" "ParseDuration ''-2ms'' = Some (- 2 * 10 ^ 6)"
  "ParseDuration ''30'' = None" "ParseDuration [] = None" "ParseDuration ''0'' = Some 0"
  by code_simp+

section \<open>Loading\<close>

record config =
  ProxyPort :: string
  RedisAddr :: string
  JWTSecret :: string
  AdminToken :: string
  CacheTTL :: duration
  RedisPoolSize :: int
  RedisMinIdleConns :: int
  RedisCBThreshold :: int
  RedisCBCooldown :: duration
  JWTCacheMaxSize :: int
  EvictionThreshold :: int
  EvictionCooldown :: duration
  BackendHealthInterval :: duration
  LogFormat :: string
  RoutingClaim :: string
  HooksEnabled :: bool
  HooksTimeout :: duration
  HooksRetries :: int
  DrainTimeout :: duration
  DrainOnUnhealthy :: bool
  RoutingMode :: string
  AccountsDiscovery :: string
  AccountsQuery :: string
  AccountsRefreshInterval :: duration
  PostgresDSN :: string
  RebalanceStrategy :: string
  RebalanceOnScale :: bool
  BackendDiscovery :: string
  BackendDiscoveryHost :: string
  BackendDiscoveryPort :: string
  BackendDiscoveryInterval :: duration
  BackendDiscoveryNamespace :: string
  BackendDiscoverySelector :: string
  BackendDiscoveryPortName :: string
  AssignmentStore :: string
  HoldDuringTransition :: bool
  HoldTimeout :: duration
  WSSwapOnRebalance :: bool
  PoisonPillAction :: string
  PoisonPillThreshold :: int
  PoisonPillWindow :: duration
  PublicPaths :: "string list"
  BackendMaxConnsPerHost :: int
  BackendMaxIdleConnsPerHost :: int
  BackendIdleConnTimeout :: duration

definition zero_config :: config where
  "zero_config = \<lparr>ProxyPort = [], RedisAddr = [], JWTSecret = [], AdminToken = [], CacheTTL = 0,
     RedisPoolSize = 0, RedisMinIdleConns = 0, RedisCBThreshold = 0, RedisCBCooldown = 0,
     JWTCacheMaxSize = 0, EvictionThreshold = 0, EvictionCooldown = 0, BackendHealthInterval = 0,
     LogFormat = [], RoutingClaim = [], HooksEnabled = False, HooksTimeout = 0, HooksRetries = 0,
     DrainTimeout = 0, DrainOnUnhealthy = False, RoutingMode = [], AccountsDiscovery = [],
     AccountsQuery = [], AccountsRefreshInterval = 0, PostgresDSN = [], RebalanceStrategy = [],
     RebalanceOnScale = False, BackendDiscovery = [], BackendDiscoveryHost = [],
     BackendDiscoveryPort = [], BackendDiscoveryInterval = 0, BackendDiscoveryNamespace = [],
     BackendDiscoverySelector = [], BackendDiscoveryPortName = [], AssignmentStore = [],
     HoldDuringTransition = False, HoldTimeout = 0, WSSwapOnRebalance = False, PoisonPillAction = [],
     PoisonPillThreshold = 0, PoisonPillWindow = 0, PublicPaths = [], BackendMaxConnsPerHost = 0,
     BackendMaxIdleConnsPerHost = 0, BackendIdleConnTimeout = 0\<rparr>"

type_synonym environment = "string \<Rightarrow> string"

datatype config_error = MissingVar string | InvalidVar string | CrossField string

definition envOrDefault :: "environment \<Rightarrow> string \<Rightarrow> string \<Rightarrow> string" where
  "envOrDefault env key fallback = (if env key \<noteq> [] then env key else fallback)"

definition parseInt :: "environment \<Rightarrow> string \<Rightarrow> int \<Rightarrow> int option" where
  "parseInt env key fallback = (if env key = [] then Some fallback else Atoi (env key))"

definition parseDuration :: "environment \<Rightarrow> string \<Rightarrow> duration \<Rightarrow> duration option" where
  "parseDuration env key fallback = (if env key = [] then Some fallback else ParseDuration (env key))"

type_synonym load_step = "config \<Rightarrow> config_error + config"

definition set_step :: "(config \<Rightarrow> config) \<Rightarrow> load_step" where
  "set_step f c = Inr (f c)"

definition int_step :: "environment \<Rightarrow> string \<Rightarrow> int \<Rightarrow> (int \<Rightarrow> config \<Rightarrow> config) \<Rightarrow> load_step" where
  "int_step env key fallback f c = (case parseInt env key fallback of None \<Rightarrow> Inl (InvalidVar key) | Some n \<Rightarrow> Inr (f n c))"

definition duration_step :: "environment \<Rightarrow> string \<Rightarrow> duration \<Rightarrow> (duration \<Rightarrow> config \<Rightarrow> config) \<Rightarrow> load_step" where
  "duration_step env key fallback f c =
     (case parseDuration env key fallback of None \<Rightarrow> Inl (InvalidVar key) | Some d \<Rightarrow> Inr (f d c))"

definition reject_if :: "(config \<Rightarrow> bool) \<Rightarrow> config_error \<Rightarrow> load_step" where
  "reject_if bad err c = (if bad c then Inl err else Inr c)"

fun run_steps :: "load_step list \<Rightarrow> load_step" where
  "run_steps [] c = Inr c"
| "run_steps (f # fs) c = (case f c of Inl err \<Rightarrow> Inl err | Inr c \<Rightarrow> run_steps fs c)"

definition normal_port :: "string \<Rightarrow> string" where
  "normal_port port = (if port \<noteq> [] \<and> hd port \<noteq> CHR '':'' then '':'' @ port else port)"

definition load_base :: "environment \<Rightarrow> load_step list" where
  "load_base env =
     [set_step (ProxyPort_update (\<lambda>_. normal_port (envOrDefault env ''PROXY_PORT'' '':8080''))),
      set_step (RedisAddr_update (\<lambda>_. envOrDefault env ''REDIS_ADDR'' ''localhost:6379'')),
      set_step (JWTSecret_update (\<lambda>_. env ''JWT_SECRET'')),
      reject_if (\<lambda>c. JWTSecret c = []) (MissingVar ''JWT_SECRET''),
      duration_step env ''CACHE_TTL'' (24 * 60 * minute) (\<lambda>d. CacheTTL_update (\<lambda>_. d)),
      int_step env ''REDIS_POOL_SIZE'' 100 (\<lambda>n. RedisPoolSize_update (\<lambda>_. n)),
      int_step env ''REDIS_MIN_IDLE_CONNS'' 10 (\<lambda>n. RedisMinIdleConns_update (\<lambda>_. n)),
      int_step env ''REDIS_CB_THRESHOLD'' 5 (\<lambda>n. RedisCBThreshold_update (\<lambda>_. n)),
      duration_step env ''REDIS_CB_COOLDOWN'' (30 * second) (\<lambda>d. RedisCBCooldown_update (\<lambda>_. d)),
      int_step env ''JWT_CACHE_MAX_SIZE'' 100000 (\<lambda>n. JWTCacheMaxSize_update (\<lambda>_. n)),
      int_step env ''EVICTION_THRESHOLD'' 3 (\<lambda>n. EvictionThreshold_update (\<lambda>_. n)),
      duration_step env ''EVICTION_COOLDOWN'' minute (\<lambda>d. EvictionCooldown_update (\<lambda>_. d)),
      duration_step env ''BACKEND_HEALTH_INTERVAL'' (10 * second) (\<lambda>d. BackendHealthInterval_update (\<lambda>_. d)),
      set_step (RoutingClaim_update (\<lambda>_. envOrDefault env ''ROUTING_CLAIM'' ''sub'')),
      set_step (HooksEnabled_update (\<lambda>_. env ''HOOKS_ENABLED'' = ''true'')),
      duration_step env ''HOOKS_TIMEOUT'' (5 * second) (\<lambda>d. HooksTimeout_update (\<lambda>_. d)),
      int_step env ''HOOKS_RETRIES'' 2 (\<lambda>n. HooksRetries_update (\<lambda>_. n)),
      duration_step env ''DRAIN_TIMEOUT'' (60 * second) (\<lambda>d. DrainTimeout_update (\<lambda>_. d)),
      set_step (DrainOnUnhealthy_update (\<lambda>_. env ''DRAIN_ON_UNHEALTHY'' = ''true''))]"

definition load_routing :: "environment \<Rightarrow> load_step list" where
  "load_routing env =
     [set_step (RoutingMode_update (\<lambda>_. envOrDefault env ''ROUTING_MODE'' ''hash'')),
      reject_if (\<lambda>c. RoutingMode c \<noteq> ''hash'' \<and> RoutingMode c \<noteq> ''assignment'') (InvalidVar ''ROUTING_MODE''),
      set_step (AccountsDiscovery_update (\<lambda>_. env ''ACCOUNTS_DISCOVERY'')),
      reject_if (\<lambda>c. AccountsDiscovery c \<notin> {[], ''redis'', ''http'', ''postgres''}) (InvalidVar ''ACCOUNTS_DISCOVERY''),
      set_step (AccountsQuery_update (\<lambda>_. env ''ACCOUNTS_QUERY'')),
      set_step (PostgresDSN_update (\<lambda>_. env ''POSTGRES_DSN'')),
      duration_step env ''ACCOUNTS_REFRESH_INTERVAL'' (30 * second) (\<lambda>d. AccountsRefreshInterval_update (\<lambda>_. d)),
      set_step (RebalanceStrategy_update (\<lambda>_. envOrDefault env ''REBALANCE_STRATEGY'' ''none'')),
      reject_if (\<lambda>c. RebalanceStrategy c \<notin> {''none'', ''least-loaded'', ''consistent-hash''}) (InvalidVar ''REBALANCE_STRATEGY''),
      set_step (RebalanceOnScale_update (\<lambda>_. env ''REBALANCE_ON_SCALE'' = ''true'')),
      set_step (BackendDiscovery_update (\<lambda>_. env ''BACKEND_DISCOVERY'')),
      reject_if (\<lambda>c. BackendDiscovery c \<notin> {[], ''dns'', ''kubernetes''}) (InvalidVar ''BACKEND_DISCOVERY''),
      set_step (BackendDiscoveryHost_update (\<lambda>_. env ''BACKEND_DISCOVERY_HOST'')),
      set_step (BackendDiscoveryPort_update (\<lambda>_. envOrDefault env ''BACKEND_DISCOVERY_PORT'' ''5678'')),
      duration_step env ''BACKEND_DISCOVERY_INTERVAL'' (10 * second) (\<lambda>d. BackendDiscoveryInterval_update (\<lambda>_. d)),
      set_step (BackendDiscoveryNamespace_update (\<lambda>_. env ''BACKEND_DISCOVERY_NAMESPACE'')),
      set_step (BackendDiscoverySelector_update (\<lambda>_. env ''BACKEND_DISCOVERY_SELECTOR'')),
      set_step (BackendDiscoveryPortName_update (\<lambda>_. env ''BACKEND_DISCOVERY_PORT_NAME'')),
      set_step (AssignmentStore_update (\<lambda>_. env ''ASSIGNMENT_STORE'')),
      set_step (\<lambda>c. if AssignmentStore c = []
        then c\<lparr>AssignmentStore := (if AccountsDiscovery c = ''postgres'' then ''postgres''
                else if RoutingMode c = ''hash'' then ''memory'' else ''redis'')\<rparr> else c),
      reject_if (\<lambda>c. AssignmentStore c \<notin> {''memory'', ''redis'', ''postgres''}) (InvalidVar ''ASSIGNMENT_STORE'')]"

definition cross_checks :: "((config \<Rightarrow> bool) \<times> string) list" where
  "cross_checks =
     [(\<lambda>c. AccountsDiscovery c \<noteq> [] \<and> RoutingMode c \<noteq> ''assignment'', ''ACCOUNTS_DISCOVERY''),
      (\<lambda>c. AccountsDiscovery c = ''postgres'' \<and> PostgresDSN c = [], ''ACCOUNTS_DISCOVERY''),
      (\<lambda>c. BackendDiscovery c = ''dns'' \<and> BackendDiscoveryHost c = [], ''BACKEND_DISCOVERY''),
      (\<lambda>c. BackendDiscovery c = ''kubernetes'' \<and> BackendDiscoverySelector c = [], ''BACKEND_DISCOVERY''),
      (\<lambda>c. RebalanceStrategy c \<noteq> ''none'' \<and> RoutingMode c \<noteq> ''assignment'', ''REBALANCE_STRATEGY''),
      (\<lambda>c. AssignmentStore c = ''memory'' \<and> RoutingMode c \<noteq> ''hash'', ''ASSIGNMENT_STORE''),
      (\<lambda>c. AssignmentStore c = ''postgres'' \<and> RoutingMode c \<noteq> ''assignment'', ''ASSIGNMENT_STORE''),
      (\<lambda>c. AssignmentStore c = ''postgres'' \<and> PostgresDSN c = [], ''ASSIGNMENT_STORE''),
      (\<lambda>c. AccountsDiscovery c = ''redis'' \<and> AssignmentStore c \<noteq> ''redis'', ''ACCOUNTS_DISCOVERY'')]"

definition load_checks :: "load_step list" where
  "load_checks = map (\<lambda>(bad, name). reject_if bad (CrossField name)) cross_checks"

text \<open>\<^verbatim>\<open>strings.Split(s, ",")\<close> and \<^verbatim>\<open>strings.TrimSpace\<close>\<close>

fun split_comma :: "string \<Rightarrow> string list" where
  "split_comma [] = [[]]"
| "split_comma (c # cs) = (case split_comma cs of
      [] \<Rightarrow> [[c]] | p # ps \<Rightarrow> if c = CHR '','' then [] # p # ps else (c # p) # ps)"

definition is_space :: "char \<Rightarrow> bool" where
  "is_space c \<longleftrightarrow> (of_char c :: nat) \<in> {9, 10, 11, 12, 13, 32}"

definition TrimSpace :: "string \<Rightarrow> string" where
  "TrimSpace s = rev (dropWhile is_space (rev (dropWhile is_space s)))"

definition public_paths :: "string \<Rightarrow> string list" where
  "public_paths pp = (if pp = [] then [] else filter (\<lambda>p. p \<noteq> []) (map TrimSpace (split_comma pp)))"

definition load_rest :: "environment \<Rightarrow> load_step list" where
  "load_rest env =
     [set_step (WSSwapOnRebalance_update (\<lambda>_. env ''WS_SWAP_ON_REBALANCE'' \<noteq> ''false'')),
      set_step (HoldDuringTransition_update (\<lambda>_. env ''HOLD_DURING_TRANSITION'' = ''true'')),
      duration_step env ''HOLD_TIMEOUT'' (5 * second) (\<lambda>d. HoldTimeout_update (\<lambda>_. d)),
      set_step (PoisonPillAction_update (\<lambda>_. env ''POISON_PILL_ACTION'')),
      reject_if (\<lambda>c. PoisonPillAction c \<noteq> [] \<and> PoisonPillAction c \<noteq> ''quarantine'') (InvalidVar ''POISON_PILL_ACTION''),
      int_step env ''POISON_PILL_THRESHOLD'' 3 (\<lambda>n. PoisonPillThreshold_update (\<lambda>_. n)),
      duration_step env ''POISON_PILL_WINDOW'' (5 * minute) (\<lambda>d. PoisonPillWindow_update (\<lambda>_. d)),
      int_step env ''BACKEND_MAX_CONNS_PER_HOST'' 500 (\<lambda>n. BackendMaxConnsPerHost_update (\<lambda>_. n)),
      int_step env ''BACKEND_MAX_IDLE_CONNS_PER_HOST'' 0 (\<lambda>n. BackendMaxIdleConnsPerHost_update (\<lambda>_. n)),
      duration_step env ''BACKEND_IDLE_CONN_TIMEOUT'' (90 * second) (\<lambda>d. BackendIdleConnTimeout_update (\<lambda>_. d)),
      set_step (PublicPaths_update (\<lambda>_. public_paths (env ''PUBLIC_PATHS''))),
      set_step (AdminToken_update (\<lambda>_. env ''ADMIN_TOKEN'')),
      set_step (LogFormat_update (\<lambda>_. envOrDefault env ''LOG_FORMAT'' ''json'')),
      reject_if (\<lambda>c. LogFormat c \<noteq> ''json'' \<and> LogFormat c \<noteq> ''text'') (InvalidVar ''LOG_FORMAT'')]"

definition Load :: "environment \<Rightarrow> config_error + config" where
  "Load env = run_steps (load_base env @ load_routing env @ load_checks @ load_rest env) zero_config"

section \<open>Wiring\<close>

text \<open>
  What \<^verbatim>\<open>New\<close> builds. The outside is whether the connections it opens succeed. \<open>InitPanic\<close> is a nil
  dereference: the Redis account source takes the client of a \<^verbatim>\<open>Redis\<close> that exists only when the
  assignment store is Redis. An account source or a strategy that stays nil is \<open>None\<close>.
\<close>

datatype store_kind = MemoryKind | RedisKind | PostgresKind

datatype account_source = RedisSource string | HTTPSource string | PostgresSource string

datatype strategy_kind = LeastLoadedKind | ConsistentHashKind

datatype backend_discoverer = DNSDiscoverer string string duration | K8sDiscoverer string string string

record wiring =
  wi_store :: store_kind
  wi_redis :: bool
  wi_notifier :: bool
  wi_locker :: "store_kind option"
  wi_hooks :: bool
  wi_hold :: "duration option"
  wi_discovery :: "account_source option option"
  wi_rebalancer :: "strategy_kind option option"
  wi_backendDisc :: "backend_discoverer option"
  wi_poison :: "(int \<times> duration) option"

datatype init_result = InitError | InitPanic | InitOk wiring

record connections =
  redis_up :: bool
  postgres_up :: bool
  source_up :: bool
  kubernetes_up :: bool

definition new_store :: "connections \<Rightarrow> config \<Rightarrow> (store_kind \<times> bool \<times> bool) option" where
  "new_store net cfg =
     (if AssignmentStore cfg = ''memory'' then Some (MemoryKind, False, False)
      else if AssignmentStore cfg = ''postgres'' then (if postgres_up net then Some (PostgresKind, False, True) else None)
      else if redis_up net then Some (RedisKind, True, True) else None)"

definition new_locker :: "bool \<Rightarrow> config \<Rightarrow> store_kind option" where
  "new_locker redis cfg =
     (if redis then Some RedisKind else if AssignmentStore cfg = ''postgres'' then Some PostgresKind else None)"

definition new_source :: "connections \<Rightarrow> bool \<Rightarrow> config \<Rightarrow> (unit + account_source option) option" where
  "new_source net redis cfg =
     (if AccountsDiscovery cfg = ''redis'' then if redis then Some (Inr (Some (RedisSource (AccountsQuery cfg)))) else Some (Inl ())
      else if AccountsDiscovery cfg = ''http'' then Some (Inr (Some (HTTPSource (AccountsQuery cfg))))
      else if AccountsDiscovery cfg = ''postgres''
      then (if source_up net then Some (Inr (Some (PostgresSource (AccountsQuery cfg)))) else None)
      else Some (Inr None))"

definition new_rebalancer :: "config \<Rightarrow> strategy_kind option option" where
  "new_rebalancer cfg =
     (if RebalanceStrategy cfg = ''none'' then None
      else Some (if RebalanceStrategy cfg = ''least-loaded'' then Some LeastLoadedKind
                 else if RebalanceStrategy cfg = ''consistent-hash'' then Some ConsistentHashKind else None))"

definition new_discoverer :: "connections \<Rightarrow> config \<Rightarrow> backend_discoverer option option" where
  "new_discoverer net cfg =
     (if BackendDiscovery cfg = ''dns''
      then Some (Some (DNSDiscoverer (BackendDiscoveryHost cfg) (BackendDiscoveryPort cfg) (BackendDiscoveryInterval cfg)))
      else if BackendDiscovery cfg = ''kubernetes''
      then (if kubernetes_up net
            then Some (Some (K8sDiscoverer (BackendDiscoveryNamespace cfg) (BackendDiscoverySelector cfg) (BackendDiscoveryPortName cfg)))
            else None)
      else Some None)"

definition new_discovery :: "connections \<Rightarrow> bool \<Rightarrow> config \<Rightarrow> (unit + account_source option option) option" where
  "new_discovery net redis cfg =
     (if AccountsDiscovery cfg = [] then Some (Inr None) else map_option (map_sum (\<lambda>x. x) Some) (new_source net redis cfg))"

definition new_poison :: "config \<Rightarrow> (int \<times> duration) option" where
  "new_poison cfg = (if PoisonPillAction cfg = ''quarantine'' then Some (PoisonPillThreshold cfg, PoisonPillWindow cfg) else None)"

text \<open>
  \<^verbatim>\<open>New\<close> itself; the goroutines it starts are not part of it. A ticker of theirs that panics is the
  subject of \<open>zero_interval_accepted\<close> and \<open>zero_window_accepted\<close> below.
\<close>

definition New :: "connections \<Rightarrow> config \<Rightarrow> init_result" where
  "New net cfg =
     (case new_store net cfg of
        None \<Rightarrow> InitError
      | Some (kind, redis, notifier) \<Rightarrow>
          (case new_discovery net redis cfg of
             None \<Rightarrow> InitError
           | Some (Inl _) \<Rightarrow> InitPanic
           | Some (Inr discovery) \<Rightarrow>
               (case new_discoverer net cfg of
                  None \<Rightarrow> InitError
                | Some disc \<Rightarrow>
                    InitOk \<lparr>wi_store = kind, wi_redis = redis, wi_notifier = notifier, wi_locker = new_locker redis cfg,
                      wi_hooks = HooksEnabled cfg,
                      wi_hold = (if HoldDuringTransition cfg then Some (HoldTimeout cfg) else None),
                      wi_discovery = discovery, wi_rebalancer = new_rebalancer cfg, wi_backendDisc = disc,
                      wi_poison = new_poison cfg\<rparr>)))"

text \<open>\<^verbatim>\<open>time.NewTicker\<close> panics on a period that is not positive.\<close>

definition NewTicker_panics :: "duration \<Rightarrow> bool" where
  "NewTicker_panics d \<longleftrightarrow> d \<le> 0"

section \<open>What \<^verbatim>\<open>Load\<close> guarantees\<close>

lemma run_steps_append:
  "run_steps (fs @ gs) c = (case run_steps fs c of Inl err \<Rightarrow> Inl err | Inr c \<Rightarrow> run_steps gs c)"
  by (induction fs arbitrary: c) (simp_all split: sum.split)

lemma run_steps_keeps:
  assumes "\<forall>f \<in> set fs. \<forall>c c'. f c = Inr c' \<longrightarrow> v c' = v c" and "run_steps fs c = Inr d"
  shows "v d = v c"
  using assms by (induction fs arbitrary: c) (auto split: sum.splits)

lemma run_checks:
  "run_steps (map (\<lambda>(bad, name). reject_if bad (CrossField name)) checks) c = Inr d \<Longrightarrow>
   d = c \<and> (\<forall>(bad, name) \<in> set checks. \<not> bad c)"
  by (induction checks) (auto simp: reject_if_def split: if_splits sum.splits)

lemma step_results:
  "set_step f c = Inr d \<longleftrightarrow> d = f c"
  "int_step env key n0 g c = Inr d \<longleftrightarrow> (\<exists>n. parseInt env key n0 = Some n \<and> d = g n c)"
  "duration_step env key t0 h c = Inr d \<longleftrightarrow> (\<exists>t. parseDuration env key t0 = Some t \<and> d = h t c)"
  "reject_if bad err c = Inr d \<longleftrightarrow> \<not> bad c \<and> d = c"
  "run_steps (f' # fs) c = Inr d \<longleftrightarrow> (\<exists>c'. f' c = Inr c' \<and> run_steps fs c' = Inr d)"
  by (auto simp: set_step_def int_step_def duration_step_def reject_if_def split: option.splits sum.splits)

text \<open>The fields that the checks are about, and that the steps after the checks leave alone.\<close>

definition checked_fields :: "config \<Rightarrow> string list" where
  "checked_fields c = [JWTSecret c, RoutingMode c, AccountsDiscovery c, PostgresDSN c, RebalanceStrategy c, BackendDiscovery c,
     BackendDiscoveryHost c, BackendDiscoverySelector c, AssignmentStore c]"

lemma load_rest_keeps: "\<forall>f \<in> set (load_rest env). \<forall>c c'. f c = Inr c' \<longrightarrow> checked_fields c' = checked_fields c"
  unfolding load_rest_def list.set ball_simps insert_iff step_results by (auto simp: checked_fields_def)

lemma load_routing_keeps: "\<forall>f \<in> set (load_routing env). \<forall>c c'. f c = Inr c' \<longrightarrow> JWTSecret c' = JWTSecret c"
  unfolding load_routing_def list.set ball_simps step_results by auto

lemma load_base_secret: "run_steps (load_base env) c = Inr d \<Longrightarrow> JWTSecret d \<noteq> []"
  unfolding load_base_def step_results run_steps.simps(1) by clarsimp

lemma load_routing_values:
  "run_steps (load_routing env) c = Inr d \<Longrightarrow>
   RoutingMode d \<in> {''hash'', ''assignment''} \<and> AccountsDiscovery d \<in> {[], ''redis'', ''http'', ''postgres''} \<and>
   RebalanceStrategy d \<in> {''none'', ''least-loaded'', ''consistent-hash''} \<and> BackendDiscovery d \<in> {[], ''dns'', ''kubernetes''} \<and>
   AssignmentStore d \<in> {''memory'', ''redis'', ''postgres''}"
  unfolding load_routing_def step_results run_steps.simps(1) by clarsimp

lemma Load_valid:
  assumes "Load env = Inr c"
  shows "JWTSecret c \<noteq> []" and "RoutingMode c \<in> {''hash'', ''assignment''}"
    and "AccountsDiscovery c \<in> {[], ''redis'', ''http'', ''postgres''}"
    and "RebalanceStrategy c \<in> {''none'', ''least-loaded'', ''consistent-hash''}"
    and "AssignmentStore c \<in> {''memory'', ''redis'', ''postgres''}"
    and "\<forall>(bad, name) \<in> set cross_checks. \<not> bad c"
proof -
  obtain c1 c2 c3 where c': "run_steps (load_base env) zero_config = Inr c1" "run_steps (load_routing env) c1 = Inr c2"
    "run_steps load_checks c2 = Inr c3" "run_steps (load_rest env) c3 = Inr c"
    using assms by (auto simp: Load_def run_steps_append split: sum.splits)
  have ok: "\<forall>(bad, name) \<in> set cross_checks. \<not> bad c2" and c3: "c3 = c2"
    using run_checks [OF c'(3) [unfolded load_checks_def]] by simp_all
  note c = c' [unfolded c3]
  have f: "checked_fields c = checked_fields c2" using run_steps_keeps [OF load_rest_keeps c(4)] .
  have j: "JWTSecret c2 = JWTSecret c1" using run_steps_keeps [OF load_routing_keeps c(2)] .
  show "JWTSecret c \<noteq> []" using load_base_secret [OF c(1)] j f by (simp add: checked_fields_def)
  show "RoutingMode c \<in> {''hash'', ''assignment''}" "AccountsDiscovery c \<in> {[], ''redis'', ''http'', ''postgres''}"
    "RebalanceStrategy c \<in> {''none'', ''least-loaded'', ''consistent-hash''}"
    "AssignmentStore c \<in> {''memory'', ''redis'', ''postgres''}"
    using load_routing_values [OF c(2)] f by (simp_all add: checked_fields_def)
  show "\<forall>(bad, name) \<in> set cross_checks. \<not> bad c"
    using ok f by (simp add: cross_checks_def checked_fields_def)
qed

lemmas load_eval = Load_def load_base_def load_routing_def load_checks_def cross_checks_def load_rest_def set_step_def int_step_def
  duration_step_def reject_if_def envOrDefault_def parseInt_def parseDuration_def normal_port_def public_paths_def zero_config_def

lemma New_built:
  assumes st: "new_store net c = Some (kind, redis, notifier)"
  shows "New net c = InitOk w \<Longrightarrow> wi_store w = kind \<and> wi_redis w = redis \<and> wi_locker w = new_locker redis c \<and>
      wi_rebalancer w = new_rebalancer c \<and> new_discovery net redis c = Some (Inr (wi_discovery w))"
    and "New net c = InitPanic \<Longrightarrow> new_discovery net redis c = Some (Inl ())"
proof -
  have n: "New net c = InitError" if "new_discovery net redis c = None" using that by (simp add: New_def st)
  have p: "New net c = InitPanic" if "new_discovery net redis c = Some (Inl u)" for u using that by (simp add: New_def st)
  show "wi_store w = kind \<and> wi_redis w = redis \<and> wi_locker w = new_locker redis c \<and>
      wi_rebalancer w = new_rebalancer c \<and> new_discovery net redis c = Some (Inr (wi_discovery w))" if ok: "New net c = InitOk w"
  proof (cases "new_discovery net redis c")
    case (Some d)
    then obtain discovery where d: "new_discovery net redis c = Some (Inr discovery)" using p ok by (cases d) auto
    show ?thesis
    proof (cases "new_discoverer net c")
      case (Some disc)
      from ok show ?thesis by (simp add: New_def st d Some) (drule sym, simp)
    qed (use ok in \<open>simp add: New_def st d\<close>)
  qed (use n ok in simp)
  show "new_discovery net redis c = Some (Inl ())" if panic: "New net c = InitPanic"
  proof (cases "new_discovery net redis c")
    case (Some d)
    show ?thesis
    proof (cases d)
      case (Inr discovery)
      with panic Some show ?thesis by (cases "new_discoverer net c") (simp_all add: New_def st)
    qed (use Some in simp)
  qed (use n panic in simp)
qed

lemma new_discovery_source:
  assumes "AccountsDiscovery c \<in> {[], ''redis'', ''http'', ''postgres''}" and "AccountsDiscovery c = ''redis'' \<Longrightarrow> redis"
  shows "new_discovery net redis c \<noteq> Some (Inl ())"
    and "new_discovery net redis c = Some (Inr (Some src)) \<Longrightarrow> src \<noteq> None \<and> AccountsDiscovery c \<noteq> []"
  using assms by (auto simp: new_discovery_def new_source_def split: if_splits)

section \<open>Properties\<close>

text \<open>
  C30: A configuration that loads can be wired. \<^verbatim>\<open>Load\<close> never lets a configuration through on
  which \<^verbatim>\<open>New\<close> would dereference the missing Redis client, and what it builds fits together:
  a JWT secret is set, the memory store only serves hash mode and the Postgres store only
  assignment mode, account discovery and rebalancing only run in assignment mode and always
  have their source and strategy, and the distributed lock is that of the store.
\<close>

theorem loaded_config_wires:
  assumes "Load env = Inr c"
  shows "New net c \<noteq> InitPanic \<and> JWTSecret c \<noteq> [] \<and>
    (\<forall>w. New net c = InitOk w \<longrightarrow>
      (wi_store w = MemoryKind \<longrightarrow> RoutingMode c = ''hash'') \<and> (wi_store w = PostgresKind \<longrightarrow> RoutingMode c = ''assignment'') \<and>
      (wi_redis w \<longleftrightarrow> wi_store w = RedisKind) \<and>
      wi_locker w = (if wi_store w = MemoryKind then None else Some (wi_store w)) \<and>
      (\<forall>source. wi_discovery w = Some source \<longrightarrow> source \<noteq> None \<and> RoutingMode c = ''assignment'') \<and>
      (\<forall>strategy. wi_rebalancer w = Some strategy \<longrightarrow> strategy \<noteq> None \<and> RoutingMode c = ''assignment''))"
proof -
  note v = Load_valid [OF assms]
  have x: "AccountsDiscovery c \<noteq> [] \<Longrightarrow> RoutingMode c = ''assignment''" "AccountsDiscovery c = ''redis'' \<Longrightarrow> AssignmentStore c = ''redis''"
    "RebalanceStrategy c \<noteq> ''none'' \<Longrightarrow> RoutingMode c = ''assignment''" "AssignmentStore c = ''memory'' \<Longrightarrow> RoutingMode c = ''hash''"
    "AssignmentStore c = ''postgres'' \<Longrightarrow> RoutingMode c = ''assignment''"
    using v(6) by (simp_all add: cross_checks_def)
  have store: "new_store net c = Some (kind, redis, notifier) \<Longrightarrow>
      (kind = MemoryKind \<longleftrightarrow> AssignmentStore c = ''memory'') \<and> (kind = PostgresKind \<longleftrightarrow> AssignmentStore c = ''postgres'') \<and>
      (kind = RedisKind \<longleftrightarrow> AssignmentStore c = ''redis'') \<and> (redis \<longleftrightarrow> kind = RedisKind)" for kind redis notifier
    using v(5) by (auto simp: new_store_def split: if_splits)
  have strategy: "new_rebalancer c \<noteq> Some None" using v(4) by (auto simp: new_rebalancer_def)
  show ?thesis
  proof (cases "new_store net c")
    case (Some t)
    obtain kind redis notifier where "t = (kind, redis, notifier)" by (cases t)
    with Some have st: "new_store net c = Some (kind, redis, notifier)" by simp
    note k = store [OF st]
    have lock: "new_locker redis c = (if kind = MemoryKind then None else Some kind)"
      using k by (cases kind) (auto simp: new_locker_def)
    note source = new_discovery_source [OF v(3), of redis net]
    have "New net c \<noteq> InitPanic" using New_built(2) [OF st] source(1) k x(2) by blast
    moreover have "(kind = MemoryKind \<longrightarrow> RoutingMode c = ''hash'') \<and> (kind = PostgresKind \<longrightarrow> RoutingMode c = ''assignment'')"
      using k x(4, 5) by simp
    moreover have "src \<noteq> None \<and> RoutingMode c = ''assignment''" if "New net c = InitOk w" "wi_discovery w = Some src" for w src
      using New_built(1) [OF st that(1)] that(2) source(2) [of src] k x(1, 2) by simp
    moreover have "strategy \<noteq> None \<and> RoutingMode c = ''assignment''" if "new_rebalancer c = Some strategy" for strategy
      using that x(3) strategy by (auto simp: new_rebalancer_def split: if_splits)
    ultimately show ?thesis using v(1) k lock New_built(1) [OF st] by simp
  qed (simp add: New_def v(1))
qed

theorem loaded_config_wires_witness:
  "\<exists>c. Load (\<lambda>k. if k = ''JWT_SECRET'' then ''s'' else []) = Inr c \<and> RoutingMode c = ''hash'' \<and>
     New \<lparr>redis_up = False, postgres_up = False, source_up = False, kubernetes_up = False\<rparr> c \<noteq> InitPanic"
proof -
  have "\<exists>c. Load (\<lambda>k. if k = ''JWT_SECRET'' then ''s'' else []) = Inr c \<and> RoutingMode c = ''hash''"
    by (simp add: load_eval)
  with loaded_config_wires show ?thesis by blast
qed

text \<open>
  The defaults are the documented ones: with nothing but a JWT secret set, the proxy
  listens on port 8080, routes by hash with the memory store, and every optional part is off.
\<close>

theorem default_config:
  "secret \<noteq> [] \<Longrightarrow> Load (\<lambda>k. if k = ''JWT_SECRET'' then secret else []) = Inr (zero_config\<lparr>
     ProxyPort := '':8080'', RedisAddr := ''localhost:6379'', JWTSecret := secret, CacheTTL := 24 * 60 * minute,
     RedisPoolSize := 100, RedisMinIdleConns := 10, RedisCBThreshold := 5, RedisCBCooldown := 30 * second,
     JWTCacheMaxSize := 100000, EvictionThreshold := 3, EvictionCooldown := minute, BackendHealthInterval := 10 * second,
     LogFormat := ''json'', RoutingClaim := ''sub'', HooksTimeout := 5 * second, HooksRetries := 2, DrainTimeout := 60 * second,
     RoutingMode := ''hash'', AccountsRefreshInterval := 30 * second, RebalanceStrategy := ''none'',
     BackendDiscoveryPort := ''5678'', BackendDiscoveryInterval := 10 * second, AssignmentStore := ''memory'',
     HoldTimeout := 5 * second, WSSwapOnRebalance := True, PoisonPillThreshold := 3, PoisonPillWindow := 5 * minute,
     BackendMaxConnsPerHost := 500, BackendIdleConnTimeout := 90 * second\<rparr>)"
  by (simp add: load_eval)

theorem default_config_witness:
  "\<exists>c. Load (\<lambda>k. if k = ''JWT_SECRET'' then ''s'' else []) = Inr c \<and> RoutingMode c = ''hash'' \<and> ProxyPort c = '':8080''"
  using default_config [of "''s''"] by simp

text \<open>
  Intervals are not validated. \<^verbatim>\<open>Load\<close> accepts a zero \<^verbatim>\<open>ACCOUNTS_REFRESH_INTERVAL\<close>, on which
  the ticker of the discovery loop panics when the proxy starts.
\<close>

theorem zero_interval_accepted:
  "\<exists>c. Load (\<lambda>k. if k = ''JWT_SECRET'' then ''s'' else if k = ''ROUTING_MODE'' then ''assignment''
       else if k = ''ACCOUNTS_DISCOVERY'' then ''http'' else if k = ''ACCOUNTS_REFRESH_INTERVAL'' then ''0s'' else []) = Inr c \<and>
     AccountsDiscovery c = ''http'' \<and> NewTicker_panics (AccountsRefreshInterval c)"
proof -
  have "ParseDuration ''0s'' = Some 0" by code_simp
  then show ?thesis
    by (simp add: load_eval NewTicker_panics_def)
qed

text \<open>
  Nor is the window of the poison pill detector: with a zero \<^verbatim>\<open>POISON_PILL_WINDOW\<close> the proxy is
  built with a detector whose prune goroutine panics on its ticker.
\<close>

theorem zero_window_accepted:
  "\<exists>c w. Load (\<lambda>k. if k = ''JWT_SECRET'' then ''s'' else if k = ''POISON_PILL_ACTION'' then ''quarantine''
       else if k = ''POISON_PILL_WINDOW'' then ''0s'' else []) = Inr c \<and>
     (\<exists>threshold. new_poison c = Some (threshold, w)) \<and> NewTicker_panics w"
proof -
  have "ParseDuration ''0s'' = Some 0" by code_simp
  then show ?thesis
    by (simp add: load_eval NewTicker_panics_def new_poison_def)
qed

end
