(* ===== verification/Ws_Bridge.thy ===== *)
theory Ws_Bridge
  imports Conn_Tracker "HOL-Library.Sublist"
begin

text \<open>
  The WebSocket bridge (websocket.go) as a step relation over its goroutines: the client
  reader, the backend reader, the two write pumps, the main loop, and the callers of
  \<^verbatim>\<open>SwapBackend\<close> and \<^verbatim>\<open>Close\<close>, which share bounded channels. A step is labelled with who moves;
  everything between two channel operations of a goroutine is one step, so a run is an
  interleaving of the goroutines. \<open>br_read_client\<close>, \<open>br_sent_backend\<close>, \<open>br_read_backend\<close> and
  \<open>br_sent_client\<close> record the messages that came in and went out. Dialling a backend, reading
  and writing may fail at any time.
\<close>

text \<open>
  Why reading from or writing to a connection failed: the proxy closed the connection itself, the peer sent a close frame with
  code 1000 or 1001, or anything else.
\<close>

datatype conn_failure = LocallyClosed | PeerClosed | Broken

datatype ws_msg = Data string | ReadErr conn_failure

text \<open>
  Where the main loop is: in its \<^verbatim>\<open>select\<close>, sending a message it took from a reader to a write
  pump, waiting for the old reader after a swap request, inside \<^verbatim>\<open>doSwap\<close> after the new backend
  was dialled, or gone.
\<close>

datatype ws_phase = Selecting | ToBackend string | ToClient string | Draining | Swapping | Ended

record bridge =
  br_phase :: ws_phase
  br_clientOpen :: bool
  br_clientCh :: "ws_msg list"
  br_clientReader :: bool
  br_clientWriteCh :: "string list"
  br_clientBatch :: "string list"
  br_clientPump :: bool
  br_clientWriteErr :: bool
  br_conn :: nat
  br_open :: bool
  br_backendCh :: "ws_msg list"
  br_backendReader :: bool
  br_backendWriteCh :: "string list"
  br_backendBatch :: "string list"
  br_backendPump :: bool
  br_backendWriteErr :: bool
  br_swapCh :: "string option"
  br_closing :: nat
  br_lost :: conn_failure
  br_read_client :: "string list"
  br_sent_backend :: "(nat \<times> string) list"
  br_read_backend :: "string list"
  br_sent_client :: "string list"
  br_close_frames :: "nat list"

text \<open>The channel capacities and the batch size.\<close>

definition read_cap :: nat where "read_cap = 8"
definition write_cap :: nat where "write_cap = 16"

text \<open>A new bridge, with the goroutines that \<^verbatim>\<open>run\<close> starts before its loop.\<close>

definition newWSBridge :: bridge where
  "newWSBridge = \<lparr>br_phase = Selecting, br_clientOpen = True, br_clientCh = [], br_clientReader = True,
     br_clientWriteCh = [], br_clientBatch = [], br_clientPump = True, br_clientWriteErr = False,
     br_conn = 0, br_open = True, br_backendCh = [], br_backendReader = True,
     br_backendWriteCh = [], br_backendBatch = [], br_backendPump = True, br_backendWriteErr = False,
     br_swapCh = None, br_closing = 0, br_lost = LocallyClosed,
     br_read_client = [], br_sent_backend = [], br_read_backend = [], br_sent_client = [], br_close_frames = []\<rparr>"

fun payloads :: "ws_msg list \<Rightarrow> string list" where
  "payloads [] = []"
| "payloads (Data m # ms) = m # payloads ms"
| "payloads (ReadErr e # ms) = payloads ms"

text \<open>
  The two halves of \<^verbatim>\<open>SwapBackend\<close>: the URL is put into the channel unless one is waiting there,
  and then whatever is the bridge's backend connection at that moment is closed. The main
  loop can run between them.
\<close>

definition SwapBackend_send :: "string \<Rightarrow> bridge \<Rightarrow> bridge" where
  "SwapBackend_send newURL b =
     b\<lparr>br_swapCh := (case br_swapCh b of None \<Rightarrow> Some newURL | Some u \<Rightarrow> Some u), br_closing := Suc (br_closing b)\<rparr>"

definition SwapBackend_close :: "bridge \<Rightarrow> bridge" where
  "SwapBackend_close b = b\<lparr>br_open := False, br_closing := br_closing b - 1\<rparr>"

text \<open>\<^verbatim>\<open>Close\<close>: a close frame with code 1001, then the client connection is closed.\<close>

definition WSBridge_Close :: "bridge \<Rightarrow> bridge" where
  "WSBridge_Close b = b\<lparr>br_close_frames := br_close_frames b @ [1001], br_clientOpen := False\<rparr>"

definition startBackendWritePump :: "bridge \<Rightarrow> bridge" where
  "startBackendWritePump b = b\<lparr>br_backendWriteCh := [], br_backendWriteErr := False, br_backendPump := True, br_backendBatch := []\<rparr>"

definition stopBackendWritePump :: "bridge \<Rightarrow> bridge" where
  "stopBackendWritePump b = b\<lparr>br_backendWriteCh := [], br_backendPump := False, br_backendBatch := []\<rparr>"

definition startBackendReader :: "bridge \<Rightarrow> bridge" where
  "startBackendReader b = b\<lparr>br_backendCh := [], br_backendReader := True\<rparr>"

definition pendingSwap :: "bridge \<Rightarrow> string \<times> bridge" where
  "pendingSwap b = (case br_swapCh b of Some u \<Rightarrow> (u, b\<lparr>br_swapCh := None\<rparr>) | None \<Rightarrow> ([], b))"

text \<open>
  The return of \<^verbatim>\<open>run\<close> with its deferred clean-up: the pumps are told to stop, what they and the
  channels hold is dropped, both connections are closed and the readers cancelled.
\<close>

definition run_return :: "bridge \<Rightarrow> bridge" where
  "run_return b = (stopBackendWritePump b)\<lparr>br_phase := Ended, br_clientReader := False, br_clientCh := [],
     br_clientPump := False, br_clientWriteCh := [], br_clientBatch := [], br_clientOpen := False,
     br_backendReader := False, br_backendCh := [], br_open := False\<rparr>"

text \<open>
  The return after the backend was lost. Its regular end is passed on to the client as a close
  frame with code 1000.
\<close>

definition backend_closed :: "conn_failure \<Rightarrow> bridge \<Rightarrow> bridge" where
  "backend_closed e b = run_return (if e = PeerClosed then b\<lparr>br_close_frames := br_close_frames b @ [1000]\<rparr> else b)"

text \<open>
  \<^verbatim>\<open>doSwap\<close> up to its forwarding loop, which is the phase \<^const>\<open>Swapping\<close>: the old reader is cancelled
  and the old pump stopped with all that it holds; when the dial succeeds the new connection
  replaces the old one and gets its own pump. When it fails, \<^verbatim>\<open>run\<close> goes on as after the loss \<open>e\<close> of
  the old connection, which \<open>br_lost\<close> keeps for the forwarding loop. The stopped pump may
  still write the rest of its batch before the old connection is closed; such a write is a
  step of the pump before this one.
\<close>

definition doSwap :: "conn_failure \<Rightarrow> bool \<Rightarrow> bridge \<Rightarrow> bridge" where
  "doSwap e dialled b =
     (let b = stopBackendWritePump (b\<lparr>br_backendReader := False, br_backendCh := []\<rparr>)
      in if \<not> dialled then backend_closed e b
         else startBackendWritePump (b\<lparr>br_phase := Swapping, br_lost := e, br_conn := Suc (br_conn b), br_open := True\<rparr>))"

text \<open>
  What the main loop does in three places when the backend is lost: swap if a URL is waiting,
  else return. A failed write is never the regular end of the backend.
\<close>

definition swap_or_return :: "conn_failure \<Rightarrow> bool \<Rightarrow> bridge \<Rightarrow> bridge" where
  "swap_or_return e dialled b =
     (let (newURL, b) = pendingSwap b
      in if newURL \<noteq> [] then doSwap e dialled b else backend_closed e b)"

datatype ws_action =
    ClientReads | ClientReadFails conn_failure | BackendReads | BackendReadFails conn_failure
  | BackendPumpTakes | BackendPumpWrites | BackendPumpFails conn_failure
  | ClientPumpTakes | ClientPumpWrites | ClientPumpFails conn_failure
  | TakeClient | GiveBackend | GiveBackendFailed bool | TakeBackend | GiveClient | GiveClientFailed
  | ClientGone | BackendGone bool | BackendWriteFailed bool | ClientWriteFailed
  | SwapTaken | SwapDrained bool | Forward | ForwardFails | ForwardOver
  | SwapSent | SwapCloses | CloseCalled

text \<open>
  The reader goroutines of both connections (\<^verbatim>\<open>wsReadPump\<close>). A
  message is read and put into the channel, or the error that ends the goroutine is.
\<close>

inductive wsReadPump :: "bridge \<Rightarrow> ws_action \<Rightarrow> bridge \<Rightarrow> bool" where
  client_reads: "br_clientReader b \<Longrightarrow> length (br_clientCh b) < read_cap \<Longrightarrow>
    wsReadPump b ClientReads (b\<lparr>br_clientCh := br_clientCh b @ [Data m], br_read_client := br_read_client b @ [m]\<rparr>)"
| client_read_fails: "br_clientReader b \<Longrightarrow> length (br_clientCh b) < read_cap \<Longrightarrow> e = LocallyClosed \<longrightarrow> \<not> br_clientOpen b \<Longrightarrow>
    wsReadPump b (ClientReadFails e) (b\<lparr>br_clientCh := br_clientCh b @ [ReadErr e], br_clientReader := False\<rparr>)"
| backend_reads: "br_backendReader b \<Longrightarrow> length (br_backendCh b) < read_cap \<Longrightarrow>
    wsReadPump b BackendReads (b\<lparr>br_backendCh := br_backendCh b @ [Data m], br_read_backend := br_read_backend b @ [m]\<rparr>)"
| backend_read_fails: "br_backendReader b \<Longrightarrow> length (br_backendCh b) < read_cap \<Longrightarrow> e = LocallyClosed \<longrightarrow> \<not> br_open b \<Longrightarrow>
    wsReadPump b (BackendReadFails e) (b\<lparr>br_backendCh := br_backendCh b @ [ReadErr e], br_backendReader := False\<rparr>)"

text \<open>
  The write pumps (\<^verbatim>\<open>wsWritePump\<close>): a batch of what is waiting, at
  most 16 messages, is taken and written one by one; after an error the rest of the batch is
  dropped and the pump ends.
\<close>

inductive wsWritePump :: "bridge \<Rightarrow> ws_action \<Rightarrow> bridge \<Rightarrow> bool" where
  backend_pump_takes: "br_backendPump b \<Longrightarrow> br_backendBatch b = [] \<Longrightarrow> 0 < n \<Longrightarrow> n \<le> write_cap \<Longrightarrow> n \<le> length (br_backendWriteCh b) \<Longrightarrow>
    wsWritePump b BackendPumpTakes (b\<lparr>br_backendBatch := take n (br_backendWriteCh b), br_backendWriteCh := drop n (br_backendWriteCh b)\<rparr>)"
| backend_pump_writes: "br_backendPump b \<Longrightarrow> br_open b \<Longrightarrow> br_backendBatch b = m # ms \<Longrightarrow>
    wsWritePump b BackendPumpWrites (b\<lparr>br_backendBatch := ms, br_sent_backend := br_sent_backend b @ [(br_conn b, m)]\<rparr>)"
| backend_pump_fails: "br_backendPump b \<Longrightarrow> br_backendBatch b \<noteq> [] \<Longrightarrow> e = LocallyClosed \<longrightarrow> \<not> br_open b \<Longrightarrow>
    wsWritePump b (BackendPumpFails e) (b\<lparr>br_backendBatch := [], br_backendPump := False, br_backendWriteErr := True\<rparr>)"
| client_pump_takes: "br_clientPump b \<Longrightarrow> br_clientBatch b = [] \<Longrightarrow> 0 < n \<Longrightarrow> n \<le> write_cap \<Longrightarrow> n \<le> length (br_clientWriteCh b) \<Longrightarrow>
    wsWritePump b ClientPumpTakes (b\<lparr>br_clientBatch := take n (br_clientWriteCh b), br_clientWriteCh := drop n (br_clientWriteCh b)\<rparr>)"
| client_pump_writes: "br_clientPump b \<Longrightarrow> br_clientOpen b \<Longrightarrow> br_clientBatch b = m # ms \<Longrightarrow>
    wsWritePump b ClientPumpWrites (b\<lparr>br_clientBatch := ms, br_sent_client := br_sent_client b @ [m]\<rparr>)"
| client_pump_fails: "br_clientPump b \<Longrightarrow> br_clientBatch b \<noteq> [] \<Longrightarrow> e = LocallyClosed \<longrightarrow> \<not> br_clientOpen b \<Longrightarrow>
    wsWritePump b (ClientPumpFails e) (b\<lparr>br_clientBatch := [], br_clientPump := False, br_clientWriteErr := True\<rparr>)"

text \<open>
  The main loop of \<^verbatim>\<open>run\<close>, one rule for each case of its
  \<^verbatim>\<open>select\<close> and of the inner ones.
\<close>

inductive run_loop :: "bridge \<Rightarrow> ws_action \<Rightarrow> bridge \<Rightarrow> bool" where
  take_client: "br_phase b = Selecting \<Longrightarrow> br_clientCh b = Data m # q \<Longrightarrow>
    run_loop b TakeClient (b\<lparr>br_clientCh := q, br_phase := ToBackend m\<rparr>)"
| give_backend: "br_phase b = ToBackend m \<Longrightarrow> length (br_backendWriteCh b) < write_cap \<Longrightarrow>
    run_loop b GiveBackend (b\<lparr>br_backendWriteCh := br_backendWriteCh b @ [m], br_phase := Selecting\<rparr>)"
| give_backend_failed: "br_phase b = ToBackend m \<Longrightarrow> br_backendWriteErr b \<Longrightarrow>
    run_loop b (GiveBackendFailed d) (swap_or_return Broken d (b\<lparr>br_backendWriteErr := False\<rparr>))"
| take_backend: "br_phase b = Selecting \<Longrightarrow> br_backendCh b = Data m # q \<Longrightarrow>
    run_loop b TakeBackend (b\<lparr>br_backendCh := q, br_phase := ToClient m\<rparr>)"
| give_client: "br_phase b = ToClient m \<Longrightarrow> length (br_clientWriteCh b) < write_cap \<Longrightarrow>
    run_loop b GiveClient (b\<lparr>br_clientWriteCh := br_clientWriteCh b @ [m], br_phase := Selecting\<rparr>)"
| give_client_failed: "br_phase b = ToClient m \<Longrightarrow> br_clientWriteErr b \<Longrightarrow> run_loop b GiveClientFailed (run_return b)"
| client_gone: "br_phase b = Selecting \<Longrightarrow> br_clientCh b = ReadErr e # q \<Longrightarrow> run_loop b ClientGone (run_return b)"
| backend_gone: "br_phase b = Selecting \<Longrightarrow> br_backendCh b = ReadErr e # q \<Longrightarrow>
    run_loop b (BackendGone d) (swap_or_return e d b)"
| backend_write_failed: "br_phase b = Selecting \<Longrightarrow> br_backendWriteErr b \<Longrightarrow>
    run_loop b (BackendWriteFailed d) (swap_or_return Broken d (b\<lparr>br_backendWriteErr := False\<rparr>))"
| client_write_failed: "br_phase b = Selecting \<Longrightarrow> br_clientWriteErr b \<Longrightarrow> run_loop b ClientWriteFailed (run_return b)"
| swap_taken: "br_phase b = Selecting \<Longrightarrow> br_swapCh b = Some u \<Longrightarrow>
    run_loop b SwapTaken (b\<lparr>br_swapCh := None, br_open := False, br_phase := Draining\<rparr>)"
| swap_drained: "br_phase b = Draining \<Longrightarrow> br_backendCh b \<noteq> [] \<Longrightarrow> run_loop b (SwapDrained d) (doSwap LocallyClosed d b)"

text \<open>
  The forwarding loop of \<^verbatim>\<open>doSwap\<close>: what the client sent meanwhile
  goes to the new pump. A read error or a full channel makes
  \<^verbatim>\<open>doSwap\<close> fail, and \<^verbatim>\<open>run\<close> returns.
\<close>

inductive forward_loop :: "bridge \<Rightarrow> ws_action \<Rightarrow> bridge \<Rightarrow> bool" where
  forward: "br_phase b = Swapping \<Longrightarrow> br_clientCh b = Data m # q \<Longrightarrow> length (br_backendWriteCh b) < write_cap \<Longrightarrow>
    forward_loop b Forward (b\<lparr>br_clientCh := q, br_backendWriteCh := br_backendWriteCh b @ [m]\<rparr>)"
| forward_full: "br_phase b = Swapping \<Longrightarrow> br_clientCh b = Data m # q \<Longrightarrow> write_cap \<le> length (br_backendWriteCh b) \<Longrightarrow>
    forward_loop b ForwardFails (backend_closed (br_lost b) b)"
| forward_gone: "br_phase b = Swapping \<Longrightarrow> br_clientCh b = ReadErr e # q \<Longrightarrow>
    forward_loop b ForwardFails (backend_closed (br_lost b) b)"
| forward_over: "br_phase b = Swapping \<Longrightarrow> br_clientCh b = [] \<Longrightarrow>
    forward_loop b ForwardOver (startBackendReader (b\<lparr>br_phase := Selecting\<rparr>))"

text \<open>
  Calls from the drain and rebalance goroutines, at any time.
\<close>

inductive bridge_call :: "bridge \<Rightarrow> ws_action \<Rightarrow> bridge \<Rightarrow> bool" where
  swap_sent: "bridge_call b SwapSent (SwapBackend_send u b)"
| swap_closes: "0 < br_closing b \<Longrightarrow> bridge_call b SwapCloses (SwapBackend_close b)"
| close_called: "bridge_call b CloseCalled (WSBridge_Close b)"

text \<open>A step of the bridge is a step of one of them.\<close>

inductive ws_step :: "bridge \<Rightarrow> ws_action \<Rightarrow> bridge \<Rightarrow> bool" where
  reader: "wsReadPump b a b' \<Longrightarrow> ws_step b a b'"
| pump: "wsWritePump b a b' \<Longrightarrow> ws_step b a b'"
| main_loop: "run_loop b a b' \<Longrightarrow> ws_step b a b'"
| forwarding: "forward_loop b a b' \<Longrightarrow> ws_step b a b'"
| call: "bridge_call b a b' \<Longrightarrow> ws_step b a b'"

inductive_cases wsReadPumpE: "wsReadPump b a b'"
inductive_cases wsWritePumpE: "wsWritePump b a b'"
inductive_cases run_loopE: "run_loop b a b'"
inductive_cases forward_loopE: "forward_loop b a b'"
inductive_cases bridge_callE: "bridge_call b a b'"
inductive_cases ws_stepE: "ws_step b a b'"

lemmas goroutineE = wsReadPumpE wsWritePumpE run_loopE forward_loopE bridge_callE

lemmas ws_client_reads = ws_step.reader [OF wsReadPump.client_reads]
lemmas ws_client_read_fails = ws_step.reader [OF wsReadPump.client_read_fails]
lemmas ws_backend_reads = ws_step.reader [OF wsReadPump.backend_reads]
lemmas ws_backend_read_fails = ws_step.reader [OF wsReadPump.backend_read_fails]
lemmas ws_backend_pump_takes = ws_step.pump [OF wsWritePump.backend_pump_takes]
lemmas ws_backend_pump_writes = ws_step.pump [OF wsWritePump.backend_pump_writes]
lemmas ws_backend_pump_fails = ws_step.pump [OF wsWritePump.backend_pump_fails]
lemmas ws_client_pump_takes = ws_step.pump [OF wsWritePump.client_pump_takes]
lemmas ws_client_pump_writes = ws_step.pump [OF wsWritePump.client_pump_writes]
lemmas ws_client_pump_fails = ws_step.pump [OF wsWritePump.client_pump_fails]
lemmas ws_take_client = ws_step.main_loop [OF run_loop.take_client]
lemmas ws_give_backend = ws_step.main_loop [OF run_loop.give_backend]
lemmas ws_give_backend_failed = ws_step.main_loop [OF run_loop.give_backend_failed]
lemmas ws_take_backend = ws_step.main_loop [OF run_loop.take_backend]
lemmas ws_give_client = ws_step.main_loop [OF run_loop.give_client]
lemmas ws_give_client_failed = ws_step.main_loop [OF run_loop.give_client_failed]
lemmas ws_client_gone = ws_step.main_loop [OF run_loop.client_gone]
lemmas ws_backend_gone = ws_step.main_loop [OF run_loop.backend_gone]
lemmas ws_backend_write_failed = ws_step.main_loop [OF run_loop.backend_write_failed]
lemmas ws_client_write_failed = ws_step.main_loop [OF run_loop.client_write_failed]
lemmas ws_swap_taken = ws_step.main_loop [OF run_loop.swap_taken]
lemmas ws_swap_drained = ws_step.main_loop [OF run_loop.swap_drained]
lemmas ws_forward = ws_step.forwarding [OF forward_loop.forward]
lemmas ws_forward_full = ws_step.forwarding [OF forward_loop.forward_full]
lemmas ws_forward_gone = ws_step.forwarding [OF forward_loop.forward_gone]
lemmas ws_forward_over = ws_step.forwarding [OF forward_loop.forward_over]
lemmas ws_swap_sent = ws_step.call [OF bridge_call.swap_sent]
lemmas ws_swap_closes = ws_step.call [OF bridge_call.swap_closes]
lemmas ws_close_called = ws_step.call [OF bridge_call.close_called]

inductive ws_run :: "bridge \<Rightarrow> ws_action list \<Rightarrow> bridge \<Rightarrow> bool" where
  run_nil: "ws_run b [] b"
| run_step: "ws_run b as b1 \<Longrightarrow> ws_step b1 a b2 \<Longrightarrow> ws_run b (as @ [a]) b2"

section \<open>Opening a bridge\<close>

text \<open>
  \<^verbatim>\<open>proxyWebSocket\<close>: the backend is dialled first, then the client is upgraded; the bridge is tracked
  from then until it ends. \<open>parse\<close> is \<^verbatim>\<open>url.Parse\<close>, \<open>dial\<close> says whether the dialer connects; the
  headers are those of the request, empty where absent.
\<close>

record ws_url =
  url_scheme :: string
  url_host :: string
  url_path :: string
  url_query :: string

definition ws_target :: "string \<Rightarrow> string \<Rightarrow> ws_url \<Rightarrow> ws_url" where
  "ws_target path rawQuery u =
     u\<lparr>url_scheme := (if url_scheme u = ''https'' then ''wss'' else ''ws''), url_path := path, url_query := rawQuery\<rparr>"

definition forwarded_headers :: "(string \<Rightarrow> string) \<Rightarrow> (string \<times> string) list" where
  "forwarded_headers hdr = map (\<lambda>h. (h, hdr h)) (filter (\<lambda>h. hdr h \<noteq> []) [''Authorization'', ''Cookie'', ''Sec-WebSocket-Protocol''])"

text \<open>What a bridge keeps of the request for later dials.\<close>

record ws_session =
  ses_header :: "(string \<times> string) list"
  ses_path :: string
  ses_rawQuery :: string

definition dialBackend :: "(string \<Rightarrow> ws_url option) \<Rightarrow> (ws_url \<Rightarrow> (string \<times> string) list \<Rightarrow> bool) \<Rightarrow> ws_session \<Rightarrow> string \<Rightarrow> ws_url option" where
  "dialBackend parse dial ses backendURL =
     (case parse backendURL of
        None \<Rightarrow> None
      | Some u \<Rightarrow>
          let u = ws_target (ses_path ses) (ses_rawQuery ses) u
          in if dial u (ses_header ses) then Some u else None)"

datatype ws_outcome = BadAddress | BackendUnavailable | UpgradeFailed | Opened ws_session ws_url

definition proxyWebSocket_open ::
  "(string \<Rightarrow> ws_url option) \<Rightarrow> (ws_url \<Rightarrow> (string \<times> string) list \<Rightarrow> bool) \<Rightarrow> bool \<Rightarrow> (string \<Rightarrow> string) \<Rightarrow> string \<Rightarrow> string \<Rightarrow>
   string \<Rightarrow> string \<Rightarrow> bridge_id \<Rightarrow> conn_tracker \<Rightarrow> ws_outcome \<times> conn_tracker" where
  "proxyWebSocket_open parse dial upgraded hdr path rawQuery backend routingKey bridge ct =
     (case parse backend of
        None \<Rightarrow> (BadAddress, ct)
      | Some u \<Rightarrow>
          let u = ws_target path rawQuery u;
              reqHeader = forwarded_headers hdr
          in if \<not> dial u reqHeader then (BackendUnavailable, ct)
             else if \<not> upgraded then (UpgradeFailed, ct)
             else (Opened \<lparr>ses_header = reqHeader, ses_path = path, ses_rawQuery = rawQuery\<rparr> u,
                   ConnTracker_Add routingKey bridge ct))"

definition proxyWebSocket_done :: "string \<Rightarrow> bridge_id \<Rightarrow> conn_tracker \<Rightarrow> conn_tracker" where
  "proxyWebSocket_done routingKey bridge ct = ConnTracker_Remove routingKey bridge ct"

text \<open>Only a bridge that runs is tracked, and it is gone from the tracker when it has ended.\<close>

lemma proxyWebSocket_tracks:
  assumes "proxyWebSocket_open parse dial upgraded hdr path q backend k i ct = (outcome, ct')" and "(k, i) \<notin> registered ct"
  shows "(k, i) \<in> registered ct' \<longleftrightarrow> (\<exists>ses u. outcome = Opened ses u)"
    and "registered (proxyWebSocket_done k i ct') = registered ct"
  using assms by (auto simp: proxyWebSocket_open_def proxyWebSocket_done_def Let_def split: option.splits if_splits)

text \<open>
  A swap asks the new backend for what the client asked the first one for: the same path, query
  and headers. So swapping to the backend itself dials exactly the URL the bridge was opened
  with.
\<close>

lemma swap_dials_same_request:
  assumes "proxyWebSocket_open parse dial upgraded hdr path q backend k i ct = (Opened ses u, ct')"
  shows "dialBackend parse dial ses backend = Some u"
    and "dialBackend parse dial ses other = Some u' \<Longrightarrow> url_path u' = path \<and> url_query u' = q \<and> dial u' (forwarded_headers hdr)"
  using assms by (auto simp: proxyWebSocket_open_def dialBackend_def ws_target_def Let_def split: option.splits if_splits)

section \<open>Order and bounds\<close>

text \<open>What is on its way in each direction, oldest first.\<close>

definition held_backend :: "bridge \<Rightarrow> string list" where
  "held_backend b = (case br_phase b of ToBackend m \<Rightarrow> [m] | _ \<Rightarrow> [])"

definition held_client :: "bridge \<Rightarrow> string list" where
  "held_client b = (case br_phase b of ToClient m \<Rightarrow> [m] | _ \<Rightarrow> [])"

definition to_backend :: "bridge \<Rightarrow> string list" where
  "to_backend b = map snd (br_sent_backend b) @ br_backendBatch b @ br_backendWriteCh b @ held_backend b @ payloads (br_clientCh b)"

definition to_client :: "bridge \<Rightarrow> string list" where
  "to_client b = br_sent_client b @ br_clientBatch b @ br_clientWriteCh b @ held_client b @ payloads (br_backendCh b)"

definition bounded :: "bridge \<Rightarrow> bool" where
  "bounded b \<longleftrightarrow> length (br_clientCh b) \<le> read_cap \<and> length (br_backendCh b) \<le> read_cap \<and>
     length (br_backendWriteCh b) \<le> write_cap \<and> length (br_clientWriteCh b) \<le> write_cap \<and>
     length (br_backendBatch b) \<le> write_cap \<and> length (br_clientBatch b) \<le> write_cap"

lemma payloads_append [simp]: "payloads (xs @ ys) = payloads xs @ payloads ys"
  by (induction xs rule: payloads.induct) auto

lemmas flow_defs = to_backend_def to_client_def held_backend_def held_client_def bounded_def

lemmas pump_defs = stopBackendWritePump_def startBackendWritePump_def startBackendReader_def

lemma subseq_drop_middle: "subseq (xs @ zs) (xs @ ys @ zs)"
  by (induction xs) (simp_all add: list_emb_append2)

lemma subseq_drop_end: "subseq xs (xs @ ys)"
  using subseq_drop_middle [of xs "[]" ys] by simp

text \<open>
  How the bridge may change when it only drops messages: the logs stay, what is on its way
  becomes a subsequence.
\<close>

definition only_drops :: "bridge \<Rightarrow> bridge \<Rightarrow> bool" where
  "only_drops b b' \<longleftrightarrow> (bounded b \<longrightarrow> bounded b') \<and> subseq (to_backend b') (to_backend b) \<and> subseq (to_client b') (to_client b) \<and>
     br_read_client b' = br_read_client b \<and> br_read_backend b' = br_read_backend b \<and>
     br_sent_backend b' = br_sent_backend b \<and> br_conn b \<le> br_conn b'"

lemma only_drops_trans: "only_drops b b1 \<Longrightarrow> only_drops b1 b2 \<Longrightarrow> only_drops b b2"
  unfolding only_drops_def by (auto intro: subseq_order.order_trans)

lemma run_return_drops: "only_drops b (run_return b)"
  by (simp add: only_drops_def run_return_def pump_defs flow_defs subseq_drop_end)

lemma only_drops_frame:
  "only_drops b (b\<lparr>br_swapCh := x\<rparr>)" "only_drops b (b\<lparr>br_backendWriteErr := y\<rparr>)" "only_drops b (b\<lparr>br_close_frames := z\<rparr>)"
  by (simp_all add: only_drops_def flow_defs)

lemma backend_closed_drops: "only_drops b (backend_closed e b)"
  unfolding backend_closed_def using only_drops_trans [OF only_drops_frame(3) run_return_drops] run_return_drops by simp

lemma doSwap_drops: "only_drops b (doSwap e dialled b)"
proof (cases dialled)
  case False
  have "only_drops b (stopBackendWritePump (b\<lparr>br_backendReader := False, br_backendCh := []\<rparr>))"
    using subseq_drop_middle [of "map snd (br_sent_backend b)" "held_backend b @ payloads (br_clientCh b)" "br_backendBatch b @ br_backendWriteCh b"]
      subseq_drop_end [of "br_sent_client b @ br_clientBatch b @ br_clientWriteCh b @ held_client b" "payloads (br_backendCh b)"]
    by (simp add: only_drops_def pump_defs flow_defs)
  with False show ?thesis using only_drops_trans [OF _ backend_closed_drops] by (simp add: doSwap_def Let_def)
next
  case True
  then show ?thesis
    using subseq_drop_middle [of "map snd (br_sent_backend b)" "payloads (br_clientCh b)" "br_backendBatch b @ br_backendWriteCh b @ held_backend b"]
      subseq_drop_end [of "br_sent_client b @ br_clientBatch b @ br_clientWriteCh b" "held_client b @ payloads (br_backendCh b)"]
    by (simp add: only_drops_def doSwap_def Let_def pump_defs flow_defs)
qed

lemma swap_or_return_drops: "only_drops b (swap_or_return e dialled b)"
proof -
  have "only_drops b (snd (pendingSwap b))"
    by (simp add: pendingSwap_def only_drops_frame split: option.split) (simp add: only_drops_def)
  then show ?thesis
    unfolding swap_or_return_def using only_drops_trans backend_closed_drops doSwap_drops
    by (simp add: Let_def split: prod.split)
qed

text \<open>Every step keeps the queues bounded and the messages of each direction in order.\<close>

definition in_order :: "bridge \<Rightarrow> bool" where
  "in_order b \<longleftrightarrow> bounded b \<and> subseq (to_backend b) (br_read_client b) \<and> subseq (to_client b) (br_read_backend b) \<and>
     sorted (map fst (br_sent_backend b)) \<and> (\<forall>c \<in> fst ` set (br_sent_backend b). c \<le> br_conn b)"

lemma in_order_drops: "in_order b \<Longrightarrow> only_drops b b' \<Longrightarrow> in_order b'"
  unfolding in_order_def only_drops_def by (auto intro: subseq_order.order_trans)

lemma wsReadPump_in_order: "wsReadPump b a b' \<Longrightarrow> in_order b \<Longrightarrow> in_order b'"
  by (erule wsReadPumpE) (simp_all add: in_order_def flow_defs list_emb_append_mono flip: append_assoc)

lemma wsWritePump_in_order:
  assumes "wsWritePump b a b'" and o: "in_order b"
  shows "in_order b'"
  using assms(1)
proof (cases rule: wsWritePump.cases)
  case (backend_pump_takes n)
  with o show ?thesis by (auto simp: in_order_def flow_defs simp flip: append_assoc)
next
  case (client_pump_takes n)
  with o show ?thesis by (auto simp: in_order_def flow_defs simp flip: append_assoc)
next
  case (backend_pump_writes m ms)
  with o show ?thesis by (auto simp: in_order_def flow_defs sorted_append)
next
  case (client_pump_writes m ms)
  with o show ?thesis by (auto simp: in_order_def flow_defs)
next
  case (backend_pump_fails e)
  show ?thesis unfolding backend_pump_fails(2)
    by (rule in_order_drops [OF o]) (simp add: only_drops_def flow_defs subseq_drop_middle)
next
  case (client_pump_fails e)
  show ?thesis unfolding client_pump_fails(2)
    by (rule in_order_drops [OF o]) (simp add: only_drops_def flow_defs subseq_drop_middle)
qed

lemma run_loop_in_order:
  assumes "run_loop b a b'" and o: "in_order b"
  shows "in_order b'"
  using assms(1)
proof (cases rule: run_loop.cases)
  case (give_backend_failed m d)
  show ?thesis unfolding give_backend_failed(2)
    by (rule in_order_drops [OF o only_drops_trans [OF only_drops_frame(2) swap_or_return_drops]])
next
  case (backend_write_failed d)
  show ?thesis unfolding backend_write_failed(2)
    by (rule in_order_drops [OF o only_drops_trans [OF only_drops_frame(2) swap_or_return_drops]])
next
  case (backend_gone e q d)
  show ?thesis unfolding backend_gone(2) by (rule in_order_drops [OF o swap_or_return_drops])
next
  case (swap_drained d)
  show ?thesis unfolding swap_drained(2) by (rule in_order_drops [OF o doSwap_drops])
qed (use o in_order_drops [OF o run_return_drops] in \<open>simp_all add: in_order_def flow_defs\<close>)

lemma forward_loop_in_order:
  assumes "forward_loop b a b'" and o: "in_order b"
  shows "in_order b'"
  using assms(1)
proof (cases rule: forward_loop.cases)
  case (forward_over)
  show ?thesis unfolding forward_over(2)
    by (rule in_order_drops [OF o]) (simp add: only_drops_def flow_defs pump_defs forward_over subseq_drop_end flip: append_assoc)
qed (use o in_order_drops [OF o backend_closed_drops] in \<open>simp_all add: in_order_def flow_defs\<close>)

lemma bridge_call_in_order: "bridge_call b a b' \<Longrightarrow> in_order b \<Longrightarrow> in_order b'"
  by (erule bridge_callE) (simp_all add: in_order_def flow_defs SwapBackend_send_def SwapBackend_close_def WSBridge_Close_def)

lemma ws_step_in_order: "ws_step b a b' \<Longrightarrow> in_order b \<Longrightarrow> in_order b'"
  by (elim ws_stepE) (blast intro: wsReadPump_in_order wsWritePump_in_order run_loop_in_order forward_loop_in_order bridge_call_in_order)+

lemma ws_run_in_order: "ws_run b as b' \<Longrightarrow> in_order b \<Longrightarrow> in_order b'"
  by (induction rule: ws_run.induct) (auto dest: ws_step_in_order)

lemma new_bridge_in_order: "in_order newWSBridge"
  by (simp add: newWSBridge_def in_order_def flow_defs)

text \<open>The steps of a bridge on which nothing fails and nobody asks for a swap.\<close>

definition quiet :: "ws_action set" where
  "quiet = {ClientReads, BackendReads, BackendPumpTakes, BackendPumpWrites, ClientPumpTakes, ClientPumpWrites,
     TakeClient, GiveBackend, TakeBackend, GiveClient}"

definition lossless :: "bridge \<Rightarrow> bool" where
  "lossless b \<longleftrightarrow> to_backend b = br_read_client b \<and> to_client b = br_read_backend b"

lemma take_drop_append: "take n xs @ drop n xs @ ys = xs @ ys"
  by (simp flip: append_assoc)

lemma ws_step_quiet: "ws_step b a b' \<Longrightarrow> a \<in> quiet \<Longrightarrow> lossless b \<Longrightarrow> lossless b'"
  by (elim ws_stepE goroutineE) (auto simp: lossless_def quiet_def flow_defs take_drop_append)

lemma ws_run_quiet: "ws_run b as b' \<Longrightarrow> set as \<subseteq> quiet \<Longrightarrow> lossless b \<Longrightarrow> lossless b'"
  by (induction rule: ws_run.induct) (auto dest: ws_step_quiet)

section \<open>No goroutine is left behind\<close>

text \<open>
  What keeps the main loop from waiting for ever: each reader is running or its error is in its
  channel, each pump is running or has reported why not, and the connection of a backend that is
  being replaced is closed.
\<close>

definition gone :: "ws_msg list \<Rightarrow> bool" where
  "gone ch \<longleftrightarrow> (\<exists>e. ReadErr e \<in> set ch)"

definition supplied :: "bridge \<Rightarrow> bool" where
  "supplied b \<longleftrightarrow> br_phase b = Ended \<or>
     (br_clientReader b \<or> gone (br_clientCh b)) \<and>
     (br_phase b \<noteq> Swapping \<longrightarrow> br_backendReader b \<or> gone (br_backendCh b)) \<and>
     (br_backendPump b \<or> br_backendWriteErr b) \<and> (br_clientPump b \<or> br_clientWriteErr b) \<and>
     (br_phase b = Draining \<longrightarrow> \<not> br_open b)"

lemma run_return_ended [simp]: "br_phase (run_return b) = Ended"
  by (simp add: run_return_def)

lemma backend_closed_ended [simp]: "br_phase (backend_closed e b) = Ended"
  by (simp add: backend_closed_def)

lemma gone_simps [simp]:
  "\<not> gone []" "gone (Data m # q) \<longleftrightarrow> gone q" "gone (ReadErr e # q)" "gone (xs @ ys) \<longleftrightarrow> gone xs \<or> gone ys"
  by (auto simp: gone_def)

lemma supplied_ended: "br_phase b = Ended \<Longrightarrow> supplied b"
  by (simp add: supplied_def)

lemma supplied_doSwap:
  assumes "br_clientReader b \<or> gone (br_clientCh b)" and "br_clientPump b \<or> br_clientWriteErr b"
  shows "supplied (doSwap e dialled b)"
  using assms by (cases dialled) (simp_all add: supplied_ended doSwap_def Let_def, simp add: supplied_def pump_defs)

lemma supplied_swap_or_return:
  assumes "br_clientReader b \<or> gone (br_clientCh b)" and "br_clientPump b \<or> br_clientWriteErr b"
  shows "supplied (swap_or_return e dialled b)"
proof -
  have "supplied (doSwap e dialled (snd (pendingSwap b)))"
    using assms by (intro supplied_doSwap) (auto simp: pendingSwap_def split: option.split)
  then show ?thesis by (simp add: swap_or_return_def supplied_ended case_prod_beta)
qed

lemma run_loop_supplied:
  assumes "run_loop b a b'" and s: "supplied b"
  shows "supplied b'"
  using assms(1)
proof (cases rule: run_loop.cases)
  case (give_backend_failed m d)
  with s show ?thesis unfolding give_backend_failed(2) by (intro supplied_swap_or_return) (auto simp: supplied_def)
next
  case (backend_write_failed d)
  with s show ?thesis unfolding backend_write_failed(2) by (intro supplied_swap_or_return) (auto simp: supplied_def)
next
  case (backend_gone e q d)
  with s show ?thesis unfolding backend_gone(2) by (intro supplied_swap_or_return) (auto simp: supplied_def)
next
  case (swap_drained d)
  with s show ?thesis unfolding swap_drained(2) by (intro supplied_doSwap) (auto simp: supplied_def)
qed (use s in \<open>auto simp: supplied_ended supplied_def\<close>)

lemma ws_step_supplied: "ws_step b a b' \<Longrightarrow> supplied b \<Longrightarrow> supplied b'"
  by (elim ws_stepE wsReadPumpE wsWritePumpE forward_loopE bridge_callE, simp_all add: run_loop_supplied)
     (auto simp: supplied_def SwapBackend_send_def SwapBackend_close_def WSBridge_Close_def startBackendReader_def)

lemma new_bridge_supplied: "supplied newWSBridge"
  by (simp add: newWSBridge_def supplied_def)

text \<open>The client connection is never opened again.\<close>

lemma client_stays_closed:
  assumes "ws_step b a b'" and "\<not> br_clientOpen b"
  shows "\<not> br_clientOpen b'"
proof -
  have "\<not> br_clientOpen (run_return b)" "\<not> br_clientOpen (backend_closed e b)" for b e
    by (simp_all add: run_return_def backend_closed_def)
  moreover from this have "\<not> br_clientOpen b \<Longrightarrow> \<not> br_clientOpen (doSwap e d b)" for b d e
    by (simp add: doSwap_def Let_def pump_defs)
  moreover from calculation have "\<not> br_clientOpen b \<Longrightarrow> \<not> br_clientOpen (swap_or_return e d b)" for b d e
    by (simp add: swap_or_return_def pendingSwap_def split: option.split)
  ultimately show ?thesis using assms
    by (elim ws_stepE goroutineE) (simp_all add: startBackendReader_def SwapBackend_send_def SwapBackend_close_def WSBridge_Close_def)
qed

text \<open>
  The steps that the bridge's goroutines take when no more messages arrive, no connection fails of
  its own accord, every dial succeeds and nobody calls \<^verbatim>\<open>SwapBackend\<close> or \<^verbatim>\<open>Close\<close>.
\<close>

definition settling :: "ws_action set" where
  "settling = {ClientReadFails LocallyClosed, BackendReadFails LocallyClosed, BackendPumpTakes, BackendPumpWrites,
     BackendPumpFails LocallyClosed, ClientPumpTakes, ClientPumpFails LocallyClosed, TakeClient, GiveBackend, GiveBackendFailed True,
     GiveClient, GiveClientFailed, ClientGone, SwapDrained True, Forward, ForwardFails}"

definition can_end :: "bridge \<Rightarrow> bool" where
  "can_end b \<longleftrightarrow> (\<exists>as b'. ws_run b as b' \<and> set as \<subseteq> settling \<and> br_phase b' = Ended)"

definition closing :: "bridge \<Rightarrow> bool" where
  "closing b \<longleftrightarrow> supplied b \<and> in_order b \<and> \<not> br_clientOpen b"

lemma ws_run_Cons: "ws_run b1 as b2 \<Longrightarrow> ws_step b a b1 \<Longrightarrow> ws_run b (a # as) b2"
proof (induction rule: ws_run.induct)
  case (run_nil b1)
  show ?case using ws_run.run_step [OF ws_run.run_nil run_nil] by simp
next
  case (run_step b1 as b2 c b3)
  then show ?case using ws_run.run_step [of b "a # as" b2 c b3] by simp
qed

lemma ended_can_end: "br_phase b = Ended \<Longrightarrow> can_end b"
  unfolding can_end_def using run_nil by force

lemma can_end_step: "ws_step b a b1 \<Longrightarrow> a \<in> settling \<Longrightarrow> can_end b1 \<Longrightarrow> can_end b"
  unfolding can_end_def using ws_run_Cons by (metis insert_subset list.simps(15))

lemma closing_step: "ws_step b a b' \<Longrightarrow> closing b \<Longrightarrow> closing b'"
  unfolding closing_def using ws_step_supplied ws_step_in_order client_stays_closed by blast

text \<open>The last step: the loop finds the client's read error.\<close>

lemma client_error_ends:
  assumes "br_phase b \<in> {Selecting, Swapping}" and "br_clientCh b = ReadErr e # q"
  shows "can_end b"
proof -
  have "ws_step b (if br_phase b = Selecting then ClientGone else ForwardFails)
      (if br_phase b = Selecting then run_return b else backend_closed (br_lost b) b)"
    using assms ws_client_gone [of b e q] ws_forward_gone [of b e q] by auto
  then show ?thesis by (rule can_end_step) (simp_all add: settling_def ended_can_end)
qed

lemma empty_client_ends:
  assumes "closing b" and "br_phase b \<in> {Selecting, Swapping}" and "br_clientCh b = []"
  shows "can_end b"
proof -
  have "ws_step b (ClientReadFails LocallyClosed) (b\<lparr>br_clientCh := [ReadErr LocallyClosed], br_clientReader := False\<rparr>)"
    using assms ws_client_read_fails [of b LocallyClosed] by (auto simp: closing_def supplied_def read_cap_def)
  moreover have "can_end (b\<lparr>br_clientCh := [ReadErr LocallyClosed], br_clientReader := False\<rparr>)"
    using assms(2) by (intro client_error_ends) simp_all
  ultimately show ?thesis using can_end_step by (simp add: settling_def)
qed

lemma swapping_ends: "closing b \<Longrightarrow> br_phase b = Swapping \<Longrightarrow> can_end b"
proof (induction "length (br_clientCh b)" arbitrary: b rule: less_induct)
  case less
  show ?case
  proof (cases "br_clientCh b")
    case Nil
    then show ?thesis using less.prems by (intro empty_client_ends) simp_all
  next
    case (Cons x q)
    show ?thesis
    proof (cases x)
      case (ReadErr e)
      then show ?thesis using less.prems Cons by (intro client_error_ends) simp_all
    next
      case (Data m)
      show ?thesis
      proof (cases "length (br_backendWriteCh b) < write_cap")
        case True
        with Cons Data less.prems have s: "ws_step b Forward (b\<lparr>br_clientCh := q, br_backendWriteCh := br_backendWriteCh b @ [m]\<rparr>)"
          by (intro ws_forward) simp_all
        from less.hyps [OF _ closing_step [OF s]] less.prems Cons show ?thesis
          by (intro can_end_step [OF s]) (simp_all add: settling_def)
      next
        case False
        with Cons Data less.prems have "ws_step b ForwardFails (backend_closed (br_lost b) b)" by (intro ws_forward_full) simp_all
        then show ?thesis by (rule can_end_step) (simp_all add: settling_def ended_can_end)
      qed
    qed
  qed
qed

lemma lost_backend_ends:
  assumes "closing b" and "br_phase b = ToBackend m" and "br_backendWriteErr b"
  shows "can_end b"
proof -
  let ?b = "swap_or_return Broken True (b\<lparr>br_backendWriteErr := False\<rparr>)"
  have s: "ws_step b (GiveBackendFailed True) ?b" using assms by (intro ws_give_backend_failed) simp_all
  have "br_phase ?b \<in> {Ended, Swapping}"
    by (simp add: swap_or_return_def doSwap_def Let_def pump_defs split: prod.split)
  then have "can_end ?b" using swapping_ends [OF closing_step [OF s assms(1)]] ended_can_end by blast
  then show ?thesis using can_end_step [OF s] by (simp add: settling_def)
qed

text \<open>A message for the backend is always disposed of, and the loop selects again.\<close>

lemma held_backend_ends:
  assumes "closing b" and "br_phase b = ToBackend m"
    and "\<And>b'. closing b' \<Longrightarrow> br_phase b' = Selecting \<Longrightarrow> br_clientCh b' = br_clientCh b \<Longrightarrow> can_end b'"
  shows "can_end b"
  using assms
proof (induction "length (br_backendBatch b)" arbitrary: b rule: less_induct)
  case less
  have room: "can_end c" if "closing c" "br_phase c = ToBackend m" "br_clientCh c = br_clientCh b" "length (br_backendWriteCh c) < write_cap" for c
  proof -
    have s: "ws_step c GiveBackend (c\<lparr>br_backendWriteCh := br_backendWriteCh c @ [m], br_phase := Selecting\<rparr>)"
      using that by (intro ws_give_backend) simp_all
    show ?thesis using less.prems(3) [OF closing_step [OF s that(1)]] that(3) by (intro can_end_step [OF s]) (simp_all add: settling_def)
  qed
  show ?case
  proof (cases "br_backendWriteErr b \<or> length (br_backendWriteCh b) < write_cap")
    case True
    then show ?thesis using lost_backend_ends [OF less.prems(1,2)] room [OF less.prems(1,2)] by blast
  next
    case False
    with less.prems have pump: "br_backendPump b" and full: "write_cap \<le> length (br_backendWriteCh b)"
      by (auto simp: closing_def supplied_def)
    show ?thesis
    proof (cases "br_backendBatch b")
      case Nil
      let ?c = "b\<lparr>br_backendBatch := take write_cap (br_backendWriteCh b), br_backendWriteCh := drop write_cap (br_backendWriteCh b)\<rparr>"
      have s: "ws_step b BackendPumpTakes ?c"
        using pump full Nil by (intro ws_backend_pump_takes) (simp_all add: write_cap_def)
      have "length (br_backendWriteCh ?c) < write_cap"
        using less.prems(1) by (simp add: closing_def in_order_def bounded_def write_cap_def)
      then show ?thesis using room [OF closing_step [OF s less.prems(1)]] less.prems(2)
        by (intro can_end_step [OF s]) (simp_all add: settling_def)
    next
      case (Cons x xs)
      let ?a = "if br_open b then BackendPumpWrites else BackendPumpFails LocallyClosed"
      let ?c = "if br_open b then b\<lparr>br_backendBatch := xs, br_sent_backend := br_sent_backend b @ [(br_conn b, x)]\<rparr>
        else b\<lparr>br_backendBatch := [], br_backendPump := False, br_backendWriteErr := True\<rparr>"
      have s: "ws_step b ?a ?c"
        using pump Cons ws_backend_pump_writes [of b x xs] ws_backend_pump_fails [of b LocallyClosed] by auto
      have "can_end ?c"
        using Cons less.prems(2,3) by (intro less.hyps [OF _ closing_step [OF s less.prems(1)]]) (auto split: if_splits)
      then show ?thesis using can_end_step [OF s] by (simp add: settling_def)
    qed
  qed
qed

lemma selecting_ends: "closing b \<Longrightarrow> br_phase b = Selecting \<Longrightarrow> can_end b"
proof (induction "length (br_clientCh b)" arbitrary: b rule: less_induct)
  case less
  show ?case
  proof (cases "br_clientCh b")
    case Nil
    then show ?thesis using less.prems by (intro empty_client_ends) simp_all
  next
    case (Cons x q)
    show ?thesis
    proof (cases x)
      case (ReadErr e)
      then show ?thesis using less.prems Cons by (intro client_error_ends) simp_all
    next
      case (Data m)
      let ?c = "b\<lparr>br_clientCh := q, br_phase := ToBackend m\<rparr>"
      have s: "ws_step b TakeClient ?c" using Cons Data less.prems by (intro ws_take_client) simp_all
      have "can_end ?c"
        by (rule held_backend_ends [OF closing_step [OF s less.prems(1)], of m]) (use less.hyps Cons in simp_all)
      then show ?thesis using can_end_step [OF s] by (simp add: settling_def)
    qed
  qed
qed

lemma held_client_ends:
  assumes "closing b" and "br_phase b = ToClient m"
  shows "can_end b"
proof -
  have room: "can_end c" if "closing c" "br_phase c = ToClient m" "length (br_clientWriteCh c) < write_cap" for c
  proof -
    have s: "ws_step c GiveClient (c\<lparr>br_clientWriteCh := br_clientWriteCh c @ [m], br_phase := Selecting\<rparr>)"
      using that by (intro ws_give_client) simp_all
    show ?thesis using selecting_ends [OF closing_step [OF s that(1)]] by (intro can_end_step [OF s]) (simp_all add: settling_def)
  qed
  have failed: "can_end c" if "br_phase c = ToClient m" "br_clientWriteErr c" for c
    using ws_give_client_failed [OF that] by (rule can_end_step) (simp_all add: settling_def ended_can_end)
  show ?thesis
  proof (cases "br_clientWriteErr b \<or> length (br_clientWriteCh b) < write_cap")
    case True
    then show ?thesis using failed room assms by blast
  next
    case False
    with assms have pump: "br_clientPump b" and full: "write_cap \<le> length (br_clientWriteCh b)" by (auto simp: closing_def supplied_def)
    show ?thesis
    proof (cases "br_clientBatch b = []")
      case True
      let ?c = "b\<lparr>br_clientBatch := take write_cap (br_clientWriteCh b), br_clientWriteCh := drop write_cap (br_clientWriteCh b)\<rparr>"
      have s: "ws_step b ClientPumpTakes ?c" using pump full True by (intro ws_client_pump_takes) (simp_all add: write_cap_def)
      have "length (br_clientWriteCh ?c) < write_cap" using assms(1) by (simp add: closing_def in_order_def bounded_def write_cap_def)
      then show ?thesis using room [OF closing_step [OF s assms(1)]] assms(2) by (intro can_end_step [OF s]) (simp_all add: settling_def)
    next
      case False
      let ?c = "b\<lparr>br_clientBatch := [], br_clientPump := False, br_clientWriteErr := True\<rparr>"
      have "ws_step b (ClientPumpFails LocallyClosed) ?c" using pump False assms(1) by (intro ws_client_pump_fails) (simp_all add: closing_def)
      then show ?thesis by (rule can_end_step) (use failed [of ?c] assms(2) in \<open>simp_all add: settling_def\<close>)
    qed
  qed
qed

lemma draining_ends:
  assumes "closing b" and "br_phase b = Draining"
  shows "can_end b"
proof -
  have drained: "can_end c" if c: "closing c" "br_phase c = Draining" "br_backendCh c \<noteq> []" for c
  proof -
    have s: "ws_step c (SwapDrained True) (doSwap LocallyClosed True c)" using c by (intro ws_swap_drained) simp_all
    then show ?thesis using swapping_ends [OF closing_step [OF s c(1)]]
      by (intro can_end_step [OF s]) (simp_all add: settling_def doSwap_def Let_def pump_defs)
  qed
  show ?thesis
  proof (cases "br_backendCh b = []")
    case True
    let ?c = "b\<lparr>br_backendCh := [ReadErr LocallyClosed], br_backendReader := False\<rparr>"
    have s: "ws_step b (BackendReadFails LocallyClosed) ?c"
      using assms True ws_backend_read_fails [of b LocallyClosed] by (auto simp: closing_def supplied_def read_cap_def)
    then show ?thesis using drained [OF closing_step [OF s assms(1)]] assms(2) by (intro can_end_step [OF s]) (simp_all add: settling_def)
  qed (use drained assms in blast)
qed

lemma closing_ends:
  assumes "closing b"
  shows "can_end b"
proof (cases "br_phase b")
  case (ToBackend m)
  then show ?thesis using held_backend_ends [OF assms] selecting_ends by blast
qed (use assms selecting_ends swapping_ends held_client_ends draining_ends ended_can_end in blast)+

lemma ws_run_supplied: "ws_run b as b' \<Longrightarrow> supplied b \<Longrightarrow> supplied b'"
  by (induction rule: ws_run.induct) (auto dest: ws_step_supplied)

lemma ws_run_closed: "ws_run b as b' \<Longrightarrow> \<not> br_clientOpen b \<or> CloseCalled \<in> set as \<Longrightarrow> \<not> br_clientOpen b'"
proof (induction rule: ws_run.induct)
  case (run_step b as b1 a b2)
  show ?case
  proof (cases "a = CloseCalled")
    case True
    with run_step.hyps(2) show ?thesis by (auto elim!: ws_stepE goroutineE simp: WSBridge_Close_def)
  next
    case False
    with run_step show ?thesis using client_stays_closed by auto
  qed
qed simp

section \<open>Properties\<close>

text \<open>
  C24: The bridge never reorders, duplicates or invents a message, whatever fails and however
  often the backend is swapped. In every reachable state the messages written to the
  backends, one connection after the other, are a subsequence of those read from the client,
  the messages written to the client are a subsequence of those read from the backends, and the
  channels and batches are within their capacities. While nothing fails and no swap is
  requested nothing is lost either: every message has been delivered or is queued.
\<close>

theorem bridge_keeps_order:
  assumes "ws_run newWSBridge as b"
  shows "subseq (map snd (br_sent_backend b)) (br_read_client b) \<and> sorted (map fst (br_sent_backend b)) \<and>
    subseq (br_sent_client b) (br_read_backend b) \<and> bounded b \<and>
    (set as \<subseteq> quiet \<longrightarrow> to_backend b = br_read_client b \<and> to_client b = br_read_backend b)"
proof -
  have o: "in_order b" using ws_run_in_order [OF assms new_bridge_in_order] .
  have "subseq (map snd (br_sent_backend b)) (to_backend b)" "subseq (br_sent_client b) (to_client b)"
    unfolding to_backend_def to_client_def by (rule subseq_drop_end)+
  with o have "subseq (map snd (br_sent_backend b)) (br_read_client b)" "subseq (br_sent_client b) (br_read_backend b)"
    by (auto simp: in_order_def intro: subseq_order.order_trans)
  moreover have "lossless newWSBridge" by (simp add: newWSBridge_def lossless_def flow_defs)
  ultimately show ?thesis using o ws_run_quiet [OF assms] by (simp add: in_order_def lossless_def)
qed

text \<open>One message on its way, and the runs that lose it.\<close>

lemma one_message: "ws_run newWSBridge [ClientReads, TakeClient, GiveBackend]
  (newWSBridge\<lparr>br_backendWriteCh := [m], br_read_client := [m]\<rparr>)"
proof -
  let ?b = "newWSBridge\<lparr>br_clientCh := [Data m], br_read_client := [m]\<rparr>"
  let ?c = "newWSBridge\<lparr>br_read_client := [m], br_phase := ToBackend m\<rparr>"
  let ?d = "newWSBridge\<lparr>br_backendWriteCh := [m], br_read_client := [m]\<rparr>"
  have 1: "ws_step newWSBridge ClientReads ?b"
    using ws_client_reads [of newWSBridge m] by (simp add: newWSBridge_def read_cap_def)
  have 2: "ws_step ?b TakeClient ?c" using ws_take_client [of ?b m "[]"] by (simp add: newWSBridge_def)
  have 3: "ws_step ?c GiveBackend ?d" using ws_give_backend [of ?c m] by (simp add: newWSBridge_def write_cap_def)
  show ?thesis using ws_run_Cons [OF ws_run_Cons [OF ws_run_Cons [OF run_nil 3] 2] 1] .
qed

theorem bridge_keeps_order_witness:
  "\<exists>b. ws_run newWSBridge [ClientReads, TakeClient, GiveBackend] b \<and> to_backend b = [''hi''] \<and> bounded b"
  using bridge_keeps_order [OF one_message [of "''hi''"]] one_message [of "''hi''"] by (auto simp: quiet_def)

text \<open>
  C25: Closing a bridge always ends it. Once \<^verbatim>\<open>Close\<close> has been called, from whatever state the bridge
  is in then or later, with full channels or in the middle of a swap, its goroutines can go on
  by themselves until the main loop has returned: no further message, request or failure of
  the network is needed, so no goroutine is left waiting for ever.
\<close>

theorem close_ends_bridge:
  assumes "ws_run newWSBridge as b" and "CloseCalled \<in> set as"
  shows "\<exists>later b'. ws_run b later b' \<and> set later \<subseteq> settling \<and> br_phase b' = Ended"
  using closing_ends [of b] ws_run_in_order [OF assms(1) new_bridge_in_order] ws_run_supplied [OF assms(1) new_bridge_supplied]
    ws_run_closed [OF assms(1)] assms(2) by (simp add: closing_def can_end_def)

theorem close_ends_bridge_witness:
  "ws_run newWSBridge [CloseCalled] (WSBridge_Close newWSBridge) \<and>
   (\<exists>later b'. ws_run (WSBridge_Close newWSBridge) later b' \<and> set later \<subseteq> settling \<and> br_phase b' = Ended)"
proof -
  have "ws_run newWSBridge [CloseCalled] (WSBridge_Close newWSBridge)"
    using ws_run_Cons [OF run_nil ws_close_called [of newWSBridge]] .
  then show ?thesis using close_ends_bridge by simp
qed

text \<open>The runs in which something is lost.\<close>

lemma swap_drops_message:
  "\<exists>b. ws_run newWSBridge [ClientReads, TakeClient, GiveBackend, SwapSent, SwapCloses,
        BackendReadFails LocallyClosed, BackendGone True, ForwardOver] b \<and>
      br_phase b = Selecting \<and> br_clientOpen b \<and> br_read_client b = [m] \<and> to_backend b = []"
proof -
  define b1 where "b1 = newWSBridge\<lparr>br_backendWriteCh := [m], br_read_client := [m]\<rparr>"
  define b2 where "b2 = SwapBackend_send ''u'' b1"
  define b3 where "b3 = SwapBackend_close b2"
  define b4 where "b4 = b3\<lparr>br_backendCh := br_backendCh b3 @ [ReadErr LocallyClosed], br_backendReader := False\<rparr>"
  define b5 where "b5 = swap_or_return LocallyClosed True b4"
  define b6 where "b6 = startBackendReader (b5\<lparr>br_phase := Selecting\<rparr>)"
  note defs = b6_def b5_def b4_def b3_def b2_def b1_def newWSBridge_def SwapBackend_send_def SwapBackend_close_def
    swap_or_return_def pendingSwap_def doSwap_def pump_defs
  have 1: "ws_run newWSBridge [ClientReads, TakeClient, GiveBackend] b1" unfolding b1_def by (rule one_message)
  have 2: "ws_step b1 SwapSent b2" unfolding b2_def by (rule ws_swap_sent)
  have 3: "ws_step b2 SwapCloses b3" unfolding b3_def by (rule ws_swap_closes) (simp add: defs)
  have 4: "ws_step b3 (BackendReadFails LocallyClosed) b4"
    unfolding b4_def by (rule ws_backend_read_fails) (simp_all add: defs read_cap_def)
  have 5: "ws_step b4 (BackendGone True) b5"
    unfolding b5_def by (rule ws_backend_gone [where q = "[]"]) (simp_all add: defs)
  have 6: "ws_step b5 ForwardOver b6" unfolding b6_def by (rule ws_forward_over) (simp_all add: defs Let_def)
  have "ws_run newWSBridge [ClientReads, TakeClient, GiveBackend, SwapSent, SwapCloses,
      BackendReadFails LocallyClosed, BackendGone True, ForwardOver] b6"
    using run_step [OF run_step [OF run_step [OF run_step [OF run_step [OF 1 2] 3] 4] 5] 6] by simp
  moreover have "br_phase b6 = Selecting \<and> br_clientOpen b6 \<and> br_read_client b6 = [m] \<and> to_backend b6 = []"
    by (simp add: defs flow_defs Let_def)
  ultimately show ?thesis by blast
qed

lemma close_drops_message:
  "\<exists>b. ws_run newWSBridge [ClientReads, TakeClient, GiveBackend, ClientReadFails PeerClosed, ClientGone] b \<and>
      br_phase b = Ended \<and> br_read_client b = [m] \<and> br_sent_backend b = []"
proof -
  define b1 where "b1 = newWSBridge\<lparr>br_backendWriteCh := [m], br_read_client := [m]\<rparr>"
  define b2 where "b2 = b1\<lparr>br_clientCh := br_clientCh b1 @ [ReadErr PeerClosed], br_clientReader := False\<rparr>"
  note defs = b2_def b1_def newWSBridge_def
  have 1: "ws_run newWSBridge [ClientReads, TakeClient, GiveBackend] b1" unfolding b1_def by (rule one_message)
  have 2: "ws_step b1 (ClientReadFails PeerClosed) b2" unfolding b2_def by (rule ws_client_read_fails) (simp_all add: defs read_cap_def)
  have 3: "ws_step b2 ClientGone (run_return b2)" by (rule ws_client_gone [where q = "[]"]) (simp_all add: defs)
  have "ws_run newWSBridge [ClientReads, TakeClient, GiveBackend, ClientReadFails PeerClosed, ClientGone] (run_return b2)"
    using run_step [OF run_step [OF 1 2] 3] by simp
  then show ?thesis by (intro exI [of _ "run_return b2"]) (simp add: run_return_def pump_defs defs)
qed

lemma swap_closes_successor:
  "\<exists>b. ws_run newWSBridge [SwapSent, SwapTaken, BackendReadFails LocallyClosed, SwapDrained True, ForwardOver, SwapCloses,
        BackendReadFails LocallyClosed, BackendGone True] b \<and> br_phase b = Ended"
proof -
  define b1 where "b1 = SwapBackend_send ''u'' newWSBridge"
  define b2 where "b2 = b1\<lparr>br_swapCh := None, br_open := False, br_phase := Draining\<rparr>"
  define b3 where "b3 = b2\<lparr>br_backendCh := br_backendCh b2 @ [ReadErr LocallyClosed], br_backendReader := False\<rparr>"
  define b4 where "b4 = doSwap LocallyClosed True b3"
  define b5 where "b5 = startBackendReader (b4\<lparr>br_phase := Selecting\<rparr>)"
  define b6 where "b6 = SwapBackend_close b5"
  define b7 where "b7 = b6\<lparr>br_backendCh := br_backendCh b6 @ [ReadErr LocallyClosed], br_backendReader := False\<rparr>"
  define b8 where "b8 = swap_or_return LocallyClosed True b7"
  note defs = b7_def b6_def b5_def b4_def b3_def b2_def b1_def newWSBridge_def SwapBackend_send_def SwapBackend_close_def
    doSwap_def Let_def pump_defs
  have 1: "ws_step newWSBridge SwapSent b1" unfolding b1_def by (rule ws_swap_sent)
  have 2: "ws_step b1 SwapTaken b2" unfolding b2_def by (rule ws_swap_taken [where u = "''u''"]) (simp_all add: defs)
  have 3: "ws_step b2 (BackendReadFails LocallyClosed) b3"
    unfolding b3_def by (rule ws_backend_read_fails) (simp_all add: defs read_cap_def)
  have 4: "ws_step b3 (SwapDrained True) b4" unfolding b4_def by (rule ws_swap_drained) (simp_all add: defs)
  have 5: "ws_step b4 ForwardOver b5" unfolding b5_def by (rule ws_forward_over) (simp_all add: defs)
  have 6: "ws_step b5 SwapCloses b6" unfolding b6_def by (rule ws_swap_closes) (simp add: defs)
  have 7: "ws_step b6 (BackendReadFails LocallyClosed) b7"
    unfolding b7_def by (rule ws_backend_read_fails) (simp_all add: defs read_cap_def)
  have 8: "ws_step b7 (BackendGone True) b8" unfolding b8_def by (rule ws_backend_gone [where q = "[]"]) (simp_all add: defs)
  have "br_phase b8 = Ended" by (simp add: b8_def swap_or_return_def pendingSwap_def defs)
  then show ?thesis
    using ws_run_Cons [OF ws_run_Cons [OF ws_run_Cons [OF ws_run_Cons [OF ws_run_Cons [OF ws_run_Cons
      [OF ws_run_Cons [OF ws_run_Cons [OF run_nil 8] 7] 6] 5] 4] 3] 2] 1] by blast
qed

text \<open>
  C40: Messages and connections can be lost although no connection fails and every dial succeeds.
  A swap throws away what is still in the old write pump, although the client is connected
  throughout. A client that sends a message and then closes may have that message dropped,
  because the bridge stops without waiting for its backend pump. And a swap can end the bridge:
  \<^verbatim>\<open>SwapBackend\<close> closes the backend connection after it has handed over the URL, and by then that
  connection may already be the new one.
\<close>

theorem bridge_drops_messages:
  "(\<exists>b. ws_run newWSBridge [ClientReads, TakeClient, GiveBackend, SwapSent, SwapCloses,
        BackendReadFails LocallyClosed, BackendGone True, ForwardOver] b \<and>
      br_phase b = Selecting \<and> br_clientOpen b \<and> br_read_client b = [m] \<and> to_backend b = []) \<and>
   (\<exists>b. ws_run newWSBridge [ClientReads, TakeClient, GiveBackend, ClientReadFails PeerClosed, ClientGone] b \<and>
      br_phase b = Ended \<and> br_read_client b = [m] \<and> br_sent_backend b = []) \<and>
   (\<exists>b. ws_run newWSBridge [SwapSent, SwapTaken, BackendReadFails LocallyClosed, SwapDrained True, ForwardOver, SwapCloses,
        BackendReadFails LocallyClosed, BackendGone True] b \<and> br_phase b = Ended)"
  using swap_drops_message [of m] close_drops_message [of m] swap_closes_successor by blast

end
