(* ===== verification/Ownership_Checker.thy ===== *)
theory Ownership_Checker
  imports Redis_Sticky
begin

text \<open>
  The ownership checker that backends use (pkg/ownership/checker.go): a pass reads the
  \<^verbatim>\<open>sticky:\<close> key of every tracked user, in batches, and evicts the users whose key is missing or
  names another backend. \<^verbatim>\<open>MGET\<close> is one call for a batch that may fail as a whole. Evicted users
  are collected in the order of the callbacks.
\<close>

record checker =
  ck_myAddr :: string
  ck_batchSize :: nat
  ck_users :: "string list"

definition Checker_New :: "string \<Rightarrow> checker" where
  "Checker_New myAddr = \<lparr>ck_myAddr = myAddr, ck_batchSize = 1000, ck_users = []\<rparr>"

definition Track :: "string \<Rightarrow> checker \<Rightarrow> checker" where
  "Track userID c = c\<lparr>ck_users := List.insert userID (ck_users c)\<rparr>"

definition Untrack :: "string \<Rightarrow> checker \<Rightarrow> checker" where
  "Untrack userID c = c\<lparr>ck_users := removeAll userID (ck_users c)\<rparr>"

definition TrackedCount :: "checker \<Rightarrow> nat" where
  "TrackedCount c = length (ck_users c)"

definition owned :: "string \<Rightarrow> string option \<Rightarrow> bool" where
  "owned myAddr val \<longleftrightarrow> (case val of None \<Rightarrow> [] | Some owner \<Rightarrow> owner) = myAddr"

definition checkBatch ::
  "'s redis_server \<Rightarrow> 's network \<Rightarrow> string list \<Rightarrow> 's \<Rightarrow> checker \<Rightarrow> string list \<times> checker \<times> 's" where
  "checkBatch R net userIDs s c =
     (case call net (\<lambda>s. (map (\<lambda>uid. GET R (sticky_key uid) s) userIDs, s)) s of
        (None, s) \<Rightarrow> ([], c, s)
      | (Some vals, s) \<Rightarrow>
          let lost = map fst (filter (\<lambda>(uid, val). \<not> owned (ck_myAddr c) val) (zip userIDs vals))
          in (lost, fold Untrack lost c, s))"

function check_batches ::
  "'s redis_server \<Rightarrow> 's network \<Rightarrow> nat \<Rightarrow> string list \<Rightarrow> 's \<Rightarrow> checker \<Rightarrow> string list \<times> checker \<times> 's" where
  "check_batches R net n userIDs s c =
     (if userIDs = [] \<or> n = 0 then ([], c, s)
      else
        let (lost, c, s) = checkBatch R net (take n userIDs) s c;
            (more, c, s) = check_batches R net n (drop n userIDs) s c
        in (lost @ more, c, s))"
  by pat_completeness auto
termination by (relation "measure (\<lambda>(R, net, n, us, s, c). length us)") auto

declare check_batches.simps [simp del]

definition check :: "'s redis_server \<Rightarrow> 's network \<Rightarrow> 's \<Rightarrow> checker \<Rightarrow> string list \<times> checker \<times> 's" where
  "check R net s c = check_batches R net (ck_batchSize c) (ck_users c) s c"

section \<open>A pass\<close>

lemma fold_Untrack:
  "ck_users (fold Untrack us c) = filter (\<lambda>u. u \<notin> set us) (ck_users c)"
  "ck_myAddr (fold Untrack us c) = ck_myAddr c" "ck_batchSize (fold Untrack us c) = ck_batchSize c"
proof -
  show "ck_users (fold Untrack us c) = filter (\<lambda>u. u \<notin> set us) (ck_users c)"
    by (induction us arbitrary: c) (auto simp: Untrack_def removeAll_filter_not_eq intro: filter_cong)
  show "ck_myAddr (fold Untrack us c) = ck_myAddr c" "ck_batchSize (fold Untrack us c) = ck_batchSize c"
    by (induction us arbitrary: c) (simp_all add: Untrack_def)
qed

lemma checkBatch_effect:
  assumes "reliable net"
  shows "checkBatch R net us s c =
    (let lost = filter (\<lambda>u. \<not> owned (ck_myAddr c) (GET R (sticky_key u) s)) us in (lost, fold Untrack lost c, s))"
proof -
  have "map fst (filter (\<lambda>(uid, val). \<not> P val) (zip us (map f us))) = filter (\<lambda>u. \<not> P (f u)) us" for P :: "string option \<Rightarrow> bool" and f
    by (induction us) auto
  with assms show ?thesis by (simp add: checkBatch_def Let_def)
qed

lemma check_batches_effect:
  assumes "reliable net" and "0 < n"
  shows "check_batches R net n us s c =
    (let lost = filter (\<lambda>u. \<not> owned (ck_myAddr c) (GET R (sticky_key u) s)) us in (lost, fold Untrack lost c, s))"
proof (induction "length us" arbitrary: us c rule: less_induct)
  case less
  show ?case
  proof (cases "us = []")
    case False
    let ?bad = "\<lambda>u. \<not> owned (ck_myAddr c) (GET R (sticky_key u) s)"
    let ?a = "filter ?bad (take n us)" and ?b = "filter ?bad (drop n us)"
    have ab: "?a @ ?b = filter ?bad us" by (metis append_take_drop_id filter_append)
    have "check_batches R net n (drop n us) s (fold Untrack ?a c) = (?b, fold Untrack ?b (fold Untrack ?a c), s)"
      using less [of "drop n us" "fold Untrack ?a c"] False assms(2) by (simp add: Let_def fold_Untrack)
    then have "check_batches R net n us s c = (?a @ ?b, fold Untrack (?a @ ?b) c, s)"
      using False assms(2) checkBatch_effect [OF assms(1), of R "take n us" s c]
      by (subst check_batches.simps) (simp add: Let_def)
    then show ?thesis unfolding ab Let_def .
  qed (subst check_batches.simps, simp)
qed

text \<open>
  Without any assumption on the connection: the users that stay are the tracked ones that
  were not reported, and nobody is reported who was not in the list.
\<close>

lemma checkBatch_any:
  assumes "checkBatch R net us s c = (lost, c', s')"
  shows "set lost \<subseteq> set us" and "c' = fold Untrack lost c"
proof -
  obtain r s1 where c: "call net (\<lambda>s. (map (\<lambda>uid. GET R (sticky_key uid) s) us, s)) s = (r, s1)"
    by (cases "call net (\<lambda>s. (map (\<lambda>uid. GET R (sticky_key uid) s) us, s)) s")
  have "set lost \<subseteq> set us \<and> c' = fold Untrack lost c"
    using assms c by (cases r) (auto simp: checkBatch_def Let_def in_set_zip)
  then show "set lost \<subseteq> set us" and "c' = fold Untrack lost c" by simp_all
qed

lemma check_batches_any:
  assumes "check_batches R net n us s c = (lost, c', s')"
  shows "set lost \<subseteq> set us \<and> c' = fold Untrack lost c"
  using assms
proof (induction "length us" arbitrary: us s c lost c' s' rule: less_induct)
  case less
  show ?case
  proof (cases "us = [] \<or> n = 0")
    case True
    with less.prems show ?thesis by (subst (asm) check_batches.simps) auto
  next
    case False
    obtain l1 c1 s1 where 1: "checkBatch R net (take n us) s c = (l1, c1, s1)" by (cases "checkBatch R net (take n us) s c")
    obtain l2 c2 s2 where 2: "check_batches R net n (drop n us) s1 c1 = (l2, c2, s2)"
      by (cases "check_batches R net n (drop n us) s1 c1")
    have lost: "lost = l1 @ l2" "c' = c2" using less.prems 1 2 False by (subst (asm) check_batches.simps, simp)+
    have "set l2 \<subseteq> set (drop n us) \<and> c2 = fold Untrack l2 c1" using less.hyps [OF _ 2] False by simp
    then show ?thesis
      using lost checkBatch_any [OF 1] by (auto dest: in_set_takeD in_set_dropD)
  qed
qed

lemma check_exact:
  assumes "check R net s c = (lost, c', s')"
  shows "set lost \<subseteq> set (ck_users c) \<and> ck_users c' = filter (\<lambda>u. u \<notin> set lost) (ck_users c) \<and>
    (reliable net \<longrightarrow> 0 < ck_batchSize c \<longrightarrow> ck_myAddr c \<noteq> [] \<longrightarrow>
      lost = filter (\<lambda>u. GET R (sticky_key u) s \<noteq> Some (ck_myAddr c)) (ck_users c))"
proof -
  have "lost = filter (\<lambda>u. GET R (sticky_key u) s \<noteq> Some (ck_myAddr c)) (ck_users c)"
    if "reliable net" "0 < ck_batchSize c" "ck_myAddr c \<noteq> []"
  proof -
    have "(\<not> owned (ck_myAddr c) x) = (x \<noteq> Some (ck_myAddr c))" for x
      using that(3) by (auto simp: owned_def split: option.split)
    with check_batches_effect [OF that(1, 2), of R "ck_users c" s c] assms show ?thesis by (auto simp: check_def Let_def)
  qed
  with check_batches_any [OF assms [unfolded check_def]] show ?thesis by (simp add: fold_Untrack)
qed

text \<open>
  C33: A pass of the ownership checker is exact. Whatever the connection does, it untracks
  exactly the users it reports, and reports only users it tracked. On an undisturbed server
  it reports, in one call per batch and in the order of the snapshot, precisely the tracked
  users whose sticky key is missing or names another backend.
\<close>

theorem ownership_check_exact:
  assumes "check R net s c = (lost, c', s')"
  shows "set lost \<subseteq> set (ck_users c) \<and> ck_users c' = filter (\<lambda>u. u \<notin> set lost) (ck_users c) \<and>
    (reliable net \<longrightarrow> 0 < ck_batchSize c \<longrightarrow> ck_myAddr c \<noteq> [] \<longrightarrow>
      lost = filter (\<lambda>u. GET R (sticky_key u) s \<noteq> Some (ck_myAddr c)) (ck_users c))"
  using assms by (rule check_exact)

definition demo_checker_state :: checker where
  "demo_checker_state = Track ''v'' (Track ''u'' (Checker_New ''http://b1:80''))"

theorem ownership_check_exact_witness:
  "fst (check plain_server demo_net (snd (SETNX_EX plain_server (sticky_key ''u'') ''http://b1:80'' 60 plain_empty))
     demo_checker_state) = [''v'']"
proof -
  let ?s = "snd (SETNX_EX plain_server (sticky_key ''u'') ''http://b1:80'' 60 plain_empty)" and ?c = demo_checker_state
  obtain lost c' s' where c: "check plain_server demo_net ?s ?c = (lost, c', s')"
    by (cases "check plain_server demo_net ?s ?c")
  have "lost = filter (\<lambda>u. GET plain_server (sticky_key u) ?s \<noteq> Some (ck_myAddr ?c)) (ck_users ?c)"
    using ownership_check_exact [OF c] demo_ok(1) by (simp add: demo_checker_state_def Track_def Checker_New_def)
  also have "\<dots> = [''v'']" by code_simp
  finally show ?thesis by (simp add: c)
qed

end
