(* ===== verification/Backend_Server.thy ===== *)
theory Backend_Server
  imports Ownership_Checker Config
begin

text \<open>
  The sample backend (cmd/backend/main.go): registration in Redis, the assign and unassign
  hooks and the request handlers that feed the ownership checker, the login endpoint that
  answers with a sticky routing key, and the message loop of its WebSocket endpoint. A JSON
  body is given as what decoding it yields, \<^const>\<open>None\<close> for a body that does not decode.
\<close>

record backend_server =
  bs_name :: string
  bs_checker :: "checker option"
  bs_accounts :: "(string, int) gomap option"

definition backend_addr :: "string \<Rightarrow> string \<Rightarrow> string" where
  "backend_addr name port = ''http://'' @ name @ '':'' @ port"

section \<open>Registration\<close>

text \<open>
  \<^verbatim>\<open>SADD\<close> is tried until a reply comes; \<open>net i\<close> is the connection during attempt \<open>i\<close>.
\<close>

partial_function (option) register_loop :: "'s redis_server \<Rightarrow> (nat \<Rightarrow> 's network) \<Rightarrow> string \<Rightarrow> nat \<Rightarrow> 's \<Rightarrow> 's option" where
  "register_loop R net addr i s =
     (case call (net i) (\<lambda>s. ((), SADD R active_key addr s)) s of
        (None, s) \<Rightarrow> register_loop R net addr (Suc i) s
      | (Some _, s) \<Rightarrow> Some s)"

definition deregister :: "'s redis_server \<Rightarrow> 's network \<Rightarrow> string \<Rightarrow> 's \<Rightarrow> 's" where
  "deregister R net addr s = snd (call net (\<lambda>s. ((), SREM R active_key addr s)) s)"

section \<open>Handlers\<close>

definition on_checker :: "(checker \<Rightarrow> checker) \<Rightarrow> backend_server \<Rightarrow> backend_server" where
  "on_checker f srv = srv\<lparr>bs_checker := map_option f (bs_checker srv)\<rparr>"

definition hook_assign :: "string list option \<Rightarrow> backend_server \<Rightarrow> nat \<times> backend_server" where
  "hook_assign payload srv =
     (case payload of None \<Rightarrow> (400, srv) | Some users \<Rightarrow> (200, on_checker (fold Track users) srv))"

definition hook_unassign :: "string list option \<Rightarrow> backend_server \<Rightarrow> nat \<times> backend_server" where
  "hook_unassign payload srv =
     (case payload of None \<Rightarrow> (400, srv) | Some users \<Rightarrow> (200, on_checker (fold Untrack users) srv))"

text \<open>
  \<open>stored\<close> says whether the \<^verbatim>\<open>INSERT\<close> succeeds. The second component of the result is the
  routing key in the response header.
\<close>

definition login :: "(string \<times> int) option \<Rightarrow> bool \<Rightarrow> backend_server \<Rightarrow> (nat \<times> string) \<times> backend_server" where
  "login payload stored srv =
     (case payload of
        None \<Rightarrow> ((400, []), srv)
      | Some (userID, weight) \<Rightarrow>
          if userID = [] then ((400, []), srv)
          else
            case bs_accounts srv of
              None \<Rightarrow> ((200, userID), srv)
            | Some accounts \<Rightarrow>
                if \<not> stored then ((500, []), srv)
                else ((200, userID), srv\<lparr>bs_accounts := Some (if map_of accounts userID = None
                        then put userID (norm_weight weight) accounts else accounts)\<rparr>))"

definition serve_user :: "string \<Rightarrow> backend_server \<Rightarrow> backend_server" where
  "serve_user userID srv = (if userID = [] then srv else on_checker (Track userID) srv)"

definition check_pass :: "'s redis_server \<Rightarrow> 's network \<Rightarrow> 's \<Rightarrow> backend_server \<Rightarrow> backend_server" where
  "check_pass R net s srv = on_checker (\<lambda>c. fst (snd (check R net s c))) srv"

section \<open>WebSocket endpoint\<close>

datatype ws_reply = Subscribed int | Pong | Echo string

text \<open>
  One message: \<open>decode\<close> is the JSON command in it, if there is one; the state is the rate of
  the push goroutine, if it was started.
\<close>

definition ws_message :: "(string \<Rightarrow> (string \<times> int) option) \<Rightarrow> string \<Rightarrow> string \<Rightarrow> int option \<Rightarrow> ws_reply option \<times> int option" where
  "ws_message decode name message broker =
     (case decode message of
        Some (ty, rate) \<Rightarrow>
          if ty = ''subscribe'' \<and> 0 < rate
          then (case broker of Some _ \<Rightarrow> (None, broker) | None \<Rightarrow> (Some (Subscribed rate), Some rate))
          else if message = ''ping'' then (Some Pong, broker)
          else (Some (Echo (name @ '' echo: '' @ message)), broker)
      | None \<Rightarrow>
          if message = ''ping'' then (Some Pong, broker)
          else (Some (Echo (name @ '' echo: '' @ message)), broker))"

text \<open>
  The loop over the messages read before the connection ends. The flag of a message says
  whether the reply to it can be written; only a failed echo ends the loop.
\<close>

fun ws_loop :: "(string \<Rightarrow> (string \<times> int) option) \<Rightarrow> string \<Rightarrow> (string \<times> bool) list \<Rightarrow> int option \<Rightarrow> ws_reply list \<times> int option" where
  "ws_loop decode name [] broker = ([], broker)"
| "ws_loop decode name ((message, ok) # ms) broker =
     (case ws_message decode name message broker of
        (None, broker) \<Rightarrow> ws_loop decode name ms broker
      | (Some (Echo e), broker) \<Rightarrow>
          if ok then (let (rs, broker) = ws_loop decode name ms broker in (Echo e # rs, broker)) else ([], broker)
      | (Some r, broker) \<Rightarrow>
          let (rs, broker) = ws_loop decode name ms broker in (if ok then r # rs else rs, broker))"

definition push_interval :: "int \<Rightarrow> duration" where
  "push_interval rate = second div rate"

record push_msg =
  pm_seq :: nat
  pm_ts :: instant
  pm_backend :: string

text \<open>The ticks of the push goroutine, each with its time and whether the write succeeds.\<close>

fun brokerPush :: "string \<Rightarrow> nat \<Rightarrow> (instant \<times> bool) list \<Rightarrow> push_msg list" where
  "brokerPush name seq [] = []"
| "brokerPush name seq ((t, ok) # ticks) =
     (if ok then \<lparr>pm_seq = Suc seq, pm_ts = t, pm_backend = name\<rparr> # brokerPush name (Suc seq) ticks else [])"

section \<open>Registration ends\<close>

lemma call_reply_last:
  "net s = (Suc n, True, s1) \<Longrightarrow>
     call net f s = (Some (fst (f (((\<lambda>s. snd (f s)) ^^ n) s1))), snd (f (((\<lambda>s. snd (f s)) ^^ n) s1)))"
  by (simp add: call_def Let_def split: prod.split)

text \<open>
  As soon as one attempt is answered the loop returns, and the backend is in the registry,
  however often the command ran and whatever others did in the meantime.
\<close>

lemma register_loop_returns:
  assumes doc: "redis_documented R" and ans: "\<And>s. \<exists>n s1. net k s = (Suc n, True, s1)" and "i \<le> k"
  shows "\<exists>s'. register_loop R net addr i s = Some s' \<and> addr \<in> actv R s'"
  using assms(3)
proof (induction "k - i" arbitrary: i s)
  case 0
  then obtain n s1 where "net i s = (Suc n, True, s1)" using ans [of s] by auto
  from call_reply_last [where net = "net i" and f = "\<lambda>s. ((), SADD R active_key addr s)", OF this] obtain s2 where
    "call (net i) (\<lambda>s. ((), SADD R active_key addr s)) s = (Some (), SADD R active_key addr s2)" by force
  moreover have "addr \<in> actv R (SADD R active_key addr s2)" using doc by (simp add: redis_documented_def)
  ultimately show ?case by (subst register_loop.simps) simp
next
  case (Suc d)
  obtain r s1 where c: "call (net i) (\<lambda>s. ((), SADD R active_key addr s)) s = (r, s1)"
    by (cases "call (net i) (\<lambda>s. ((), SADD R active_key addr s)) s")
  show ?case
  proof (cases r)
    case None
    with Suc.hyps(1) [of "Suc i" s1] Suc.hyps(2) c show ?thesis by (subst register_loop.simps) simp
  next
    case (Some u)
    have "\<exists>s2. s1 = SADD R active_key addr s2" if "r = Some u"
      using c that by (auto simp: call_def Let_def split: prod.splits if_splits)
    with Some obtain s2 where "s1 = SADD R active_key addr s2" by blast
    moreover have "addr \<in> actv R (SADD R active_key addr s2)" using doc by (simp add: redis_documented_def)
    ultimately show ?thesis using c Some by (subst register_loop.simps) simp
  qed
qed

section \<open>Who is tracked\<close>

datatype 's backend_event =
    HookAssigned "string list option"
  | HookUnassigned "string list option"
  | Requested string
  | LoggedIn "(string \<times> int) option" bool
  | Checked 's

fun backend_step :: "'s redis_server \<Rightarrow> 's network \<Rightarrow> 's backend_event \<Rightarrow> backend_server \<Rightarrow> backend_server" where
  "backend_step R net (HookAssigned payload) srv = snd (hook_assign payload srv)"
| "backend_step R net (HookUnassigned payload) srv = snd (hook_unassign payload srv)"
| "backend_step R net (Requested userID) srv = serve_user userID srv"
| "backend_step R net (LoggedIn payload stored) srv = snd (login payload stored srv)"
| "backend_step R net (Checked s) srv = check_pass R net s srv"

definition tracked :: "backend_server \<Rightarrow> string set" where
  "tracked srv = (case bs_checker srv of None \<Rightarrow> {} | Some c \<Rightarrow> set (ck_users c))"

text \<open>What the events mean for the set of users, without lists, batches and callbacks.\<close>

fun track_spec :: "'s redis_server \<Rightarrow> string \<Rightarrow> 's backend_event \<Rightarrow> string set \<Rightarrow> string set" where
  "track_spec R addr (HookAssigned payload) T = (case payload of None \<Rightarrow> T | Some us \<Rightarrow> T \<union> set us)"
| "track_spec R addr (HookUnassigned payload) T = (case payload of None \<Rightarrow> T | Some us \<Rightarrow> T - set us)"
| "track_spec R addr (Requested u) T = (if u = [] then T else insert u T)"
| "track_spec R addr (LoggedIn payload stored) T = T"
| "track_spec R addr (Checked s) T = {u \<in> T. GET R (sticky_key u) s = Some addr}"

lemma fold_Track:
  "set (ck_users (fold Track us c)) = set (ck_users c) \<union> set us"
  "ck_myAddr (fold Track us c) = ck_myAddr c" "ck_batchSize (fold Track us c) = ck_batchSize c"
  by (induction us arbitrary: c) (auto simp: Track_def)

definition checks_for :: "string \<Rightarrow> backend_server \<Rightarrow> bool" where
  "checks_for addr srv \<longleftrightarrow> (\<exists>c. bs_checker srv = Some c \<and> ck_myAddr c = addr \<and> 0 < ck_batchSize c)"

lemma check_fields:
  assumes "check R net s c = (lost, c', s')"
  shows "ck_myAddr c' = ck_myAddr c" and "ck_batchSize c' = ck_batchSize c"
  using check_batches_any [OF assms [unfolded check_def]] by (simp_all add: fold_Untrack)

lemma backend_step_tracks:
  assumes "reliable net" and "addr \<noteq> []" and "checks_for addr srv"
  shows "checks_for addr (backend_step R net ev srv) \<and> tracked (backend_step R net ev srv) = track_spec R addr ev (tracked srv)"
proof (cases ev)
  case (Checked s)
  obtain c where c: "bs_checker srv = Some c" "ck_myAddr c = addr" "0 < ck_batchSize c"
    using assms(3) by (auto simp: checks_for_def)
  obtain lost c' s' where r: "check R net s c = (lost, c', s')" by (cases "check R net s c")
  have "lost = filter (\<lambda>u. GET R (sticky_key u) s \<noteq> Some addr) (ck_users c)"
    "ck_users c' = filter (\<lambda>u. u \<notin> set lost) (ck_users c)"
    using check_exact [OF r] assms c by simp_all
  then have "set (ck_users c') = {u \<in> set (ck_users c). GET R (sticky_key u) s = Some addr}" by auto
  with c r check_fields [OF r] Checked show ?thesis
    by (simp add: check_pass_def on_checker_def checks_for_def tracked_def)
qed (use assms(3) in \<open>auto simp: hook_assign_def hook_unassign_def serve_user_def on_checker_def checks_for_def tracked_def
    login_def fold_Track fold_Untrack Track_def split: option.split\<close>)

text \<open>
  C34: The backend tracks the users it was told about and still owns. Over any history of
  hooks (undecodable ones included), requests, logins and ownership passes, the tracked users
  are given by the events alone: an assign hook or a request adds, an unassign hook removes,
  and a pass keeps those whose sticky key names this backend. Where no sticky key is stored
  a pass leaves nobody.
\<close>

theorem tracking_refines_set:
  assumes "reliable net" and "addr \<noteq> []" and "checks_for addr srv"
  shows "tracked (fold (backend_step R net) evs srv) = fold (track_spec R addr) evs (tracked srv) \<and>
    ((\<forall>u. GET R (sticky_key u) s = None) \<longrightarrow> tracked (fold (backend_step R net) (evs @ [Checked s]) srv) = {})"
proof -
  have "checks_for addr (fold (backend_step R net) evs srv) \<and>
      tracked (fold (backend_step R net) evs srv) = fold (track_spec R addr) evs (tracked srv)" for evs
    using assms(3)
  proof (induction evs arbitrary: srv)
    case (Cons ev evs)
    then show ?case using backend_step_tracks [OF assms(1, 2) Cons.prems, of R ev] by simp
  qed simp
  from this [of evs] this [of "evs @ [Checked s]"] show ?thesis by simp
qed

definition demo_backend :: backend_server where
  "demo_backend = \<lparr>bs_name = ''b1'', bs_checker = Some (Checker_New ''http://b1:80''), bs_accounts = None\<rparr>"

theorem tracking_refines_set_witness:
  "tracked (fold (backend_step plain_server demo_net)
     [HookAssigned (Some [''u'', ''v'']), HookUnassigned (Some [''u'']), Checked plain_empty] demo_backend) = {}"
proof -
  have "checks_for ''http://b1:80'' demo_backend"
    by (simp add: checks_for_def demo_backend_def Checker_New_def)
  from tracking_refines_set [OF demo_ok(1) _ this, of plain_server
      "[HookAssigned (Some [''u'', ''v'']), HookUnassigned (Some [''u''])]" plain_empty]
  show ?thesis by (simp add: plain_server_def plain_empty_def)
qed

section \<open>Login\<close>

text \<open>An account keeps the weight it was first registered with.\<close>

lemma login_first_weight:
  assumes "bs_accounts srv = Some acc" and "u \<noteq> []"
  obtains acc' where "login (Some (u, w)) True srv = ((200, u), srv\<lparr>bs_accounts := Some acc'\<rparr>)"
    and "map_of acc' = (map_of acc)(u \<mapsto> (case map_of acc u of None \<Rightarrow> norm_weight w | Some w0 \<Rightarrow> w0))"
  by (rule that [of "if map_of acc u = None then put u (norm_weight w) acc else acc"])
     (use assms in \<open>auto simp: login_def gomap_simps fun_eq_iff\<close>)

section \<open>Pushing\<close>

text \<open>Messages of a connection are numbered from one, without gaps, up to the first failed write.\<close>

lemma brokerPush_seq: "map pm_seq (brokerPush name n ticks) = [Suc n..<Suc n + length (takeWhile snd ticks)]"
  proof (induction ticks arbitrary: n)
  case (Cons x ticks)
  then show ?case by (cases x) (simp add: upt_conv_Cons del: upt_Suc)
qed simp

text \<open>The first subscription fixes the rate.\<close>

lemma ws_loop_keeps_rate: "snd (ws_loop decode name ms (Some r)) = Some r"
  by (induction ms)
     (auto simp: ws_message_def split: option.splits prod.splits ws_reply.splits if_splits)

text \<open>
  A subscription with more than a billion messages per second makes the interval zero, on
  which the ticker of the push goroutine panics; an unrecovered panic ends the process.
\<close>

lemma subscribe_rate_panics:
  assumes "decode m = Some (''subscribe'', rate)" and "0 < rate"
  shows "snd (ws_loop decode name [(m, ok)] None) = Some rate"
    and "NewTicker_panics (push_interval rate) \<longleftrightarrow> second < rate"
proof -
  show "snd (ws_loop decode name [(m, ok)] None) = Some rate" using assms by (simp add: ws_message_def)
  have "0 < second div rate \<longleftrightarrow> rate \<le> second" using assms(2) by (simp add: pos_imp_zdiv_pos_iff)
  then show "NewTicker_panics (push_interval rate) \<longleftrightarrow> second < rate"
    by (simp add: NewTicker_panics_def push_interval_def not_less flip: not_less)
qed

end
