(* ===== verification/Postgres_Store.thy ===== *)
theory Postgres_Store
  imports Redis_Store
begin

text \<open>
  The PostgreSQL store (store_postgres.go). The state is the three tables the store creates;
  each SQL statement is a function on them, and a transaction, which takes effect as a whole
  or not at all, is one call of the database. The order of the rows of a table is the order in
  which a query without \<^verbatim>\<open>ORDER BY\<close> returns them and in which ties are resolved. What the
  server and its driver contribute is a parameter, \<open>pg_env\<close>: the connection, the rows of
  \<^verbatim>\<open>assignment_counts\<close> that concurrent transactions have locked, and the number of
  parameters a statement may have. The microsecond resolution of the timestamp column is not
  modelled.
\<close>

record pg =
  pg_backends :: "(string, bool) gomap"
  pg_assignments :: table
  pg_counts :: "(string, int) gomap"

record pg_env =
  pv_net :: "pg network"
  pv_locked :: "pg \<Rightarrow> string list"
  pv_maxParams :: nat

text \<open>A statement with \<open>n\<close> parameters.\<close>

definition exec :: "pg_env \<Rightarrow> nat \<Rightarrow> (pg \<Rightarrow> 'a \<times> pg) \<Rightarrow> pg \<Rightarrow> 'a option \<times> pg" where
  "exec E n f s = (if pv_maxParams E < n then (None, s) else call (pv_net E) f s)"

section \<open>Statements\<close>

definition healthy :: "pg \<Rightarrow> string \<Rightarrow> bool" where
  "healthy s b \<longleftrightarrow> map_of (pg_backends s) b = Some True"

definition sum_weight :: "table \<Rightarrow> string \<Rightarrow> int" where
  "sum_weight asg b = sum_list (map (\<lambda>(k, a). if Backend a = b then Weight a else 0) asg)"

definition bump :: "string \<Rightarrow> int \<Rightarrow> (string, int) gomap \<Rightarrow> (string, int) gomap" where
  "bump b d counts = map (\<lambda>(c, w). (c, if c = b then w + d else w)) counts"

definition rebuild_counts :: "pg \<Rightarrow> pg" where
  "rebuild_counts s = s\<lparr>pg_counts :=
     fold (\<lambda>(b, up) m. if up then put b (sum_weight (pg_assignments s) b) m else m) (pg_backends s) (pg_counts s)\<rparr>"

text \<open>\<^verbatim>\<open>ORDER BY total_weight ASC LIMIT 1\<close>\<close>

fun least_row :: "(string \<times> int) list \<Rightarrow> string option" where
  "least_row [] = None"
| "least_row ((b, w) # rows) = (if \<forall>(c, v) \<in> set rows. w \<le> v then Some b else least_row rows)"

text \<open>\<^verbatim>\<open>FOR UPDATE SKIP LOCKED\<close>, and without it when every row was skipped.\<close>

definition select_backend :: "string list \<Rightarrow> pg \<Rightarrow> string option" where
  "select_backend locked s =
     (let rows = filter (\<lambda>(b, w). healthy s b) (pg_counts s)
      in case least_row (filter (\<lambda>(b, w). b \<notin> set locked) rows) of
           None \<Rightarrow> least_row rows
         | Some b \<Rightarrow> Some b)"

datatype assign_result = NoRows | AlreadyAssigned | Inserted assignment

definition assign_tx :: "pg_env \<Rightarrow> instant \<Rightarrow> string \<Rightarrow> pg \<Rightarrow> assign_result \<times> pg" where
  "assign_tx E now key s =
     (case select_backend (pv_locked E s) s of
        None \<Rightarrow> (NoRows, s)
      | Some b \<Rightarrow>
          if map_of (pg_assignments s) key \<noteq> None then (AlreadyAssigned, s)
          else let a = new_assignment now b 1
               in (Inserted a, s\<lparr>pg_assignments := pg_assignments s @ [(key, a)], pg_counts := bump b 1 (pg_counts s)\<rparr>))"

definition bulk_assign_tx :: "instant \<Rightarrow> bulk_entries \<Rightarrow> pg \<Rightarrow> (string, string) gomap \<times> pg" where
  "bulk_assign_tx now es s =
     (let fresh = filter (\<lambda>i. map_of (pg_assignments s) (fst i) = None) (bulk_items es);
          deltas = add_counts (map snd fresh)
      in (map (\<lambda>(k, b, w). (k, b)) fresh,
          s\<lparr>pg_assignments := pg_assignments s @ map (new_entry now) fresh,
            pg_counts := fold (\<lambda>(b, d). bump b d) deltas (pg_counts s)\<rparr>))"

definition bulk_delete_tx :: "string list \<Rightarrow> pg \<Rightarrow> unit \<times> pg" where
  "bulk_delete_tx ks s =
     (let gone = filter (\<lambda>(k, a). k \<in> set ks) (pg_assignments s);
          deltas = add_counts (map (\<lambda>(k, a). (Backend a, Weight a)) gone)
      in ((), s\<lparr>pg_assignments := filter (\<lambda>(k, a). k \<notin> set ks) (pg_assignments s),
                pg_counts := fold (\<lambda>(b, d). bump b (- d)) deltas (pg_counts s)\<rparr>))"

definition upsert_backend :: "string \<Rightarrow> pg \<Rightarrow> unit \<times> pg" where
  "upsert_backend b s = ((), s\<lparr>pg_backends := put b True (pg_backends s)\<rparr>)"

definition insert_count :: "string \<Rightarrow> pg \<Rightarrow> unit \<times> pg" where
  "insert_count b s = ((), if map_of (pg_counts s) b = None then s\<lparr>pg_counts := put b 0 (pg_counts s)\<rparr> else s)"

definition set_unhealthy :: "string \<Rightarrow> pg \<Rightarrow> unit \<times> pg" where
  "set_unhealthy b s = ((), s\<lparr>pg_backends := map (\<lambda>(c, up). (c, if c = b then False else up)) (pg_backends s)\<rparr>)"

lemmas registry_statements = upsert_backend_def insert_count_def set_unhealthy_def

section \<open>Operations\<close>

definition migrate :: "pg_env \<Rightarrow> pg \<Rightarrow> store_error option \<times> pg" where
  "migrate E s = status_of (exec E 0 (\<lambda>s. ((), rebuild_counts s)) s)"

definition Postgres_GetAssignment :: "pg_env \<Rightarrow> string \<Rightarrow> pg \<Rightarrow> (store_error + assignment) \<times> pg" where
  "Postgres_GetAssignment E key s =
     (case exec E 1 (\<lambda>s. (map_of (pg_assignments s) key, s)) s of
        (None, s) \<Rightarrow> (Inl ErrUnavailable, s)
      | (Some None, s) \<Rightarrow> (Inl ErrNil, s)
      | (Some (Some a), s) \<Rightarrow> (Inr a, s))"

definition Postgres_AssignLeastLoaded :: "pg_env \<Rightarrow> instant \<Rightarrow> string \<Rightarrow> pg \<Rightarrow> (store_error + assignment) \<times> pg" where
  "Postgres_AssignLeastLoaded E now key s =
     (case exec E 2 (assign_tx E now key) s of
        (None, s) \<Rightarrow> (Inl ErrUnavailable, s)
      | (Some NoRows, s) \<Rightarrow> (Inl ErrNil, s)
      | (Some AlreadyAssigned, s) \<Rightarrow> Postgres_GetAssignment E key s
      | (Some (Inserted a), s) \<Rightarrow> (Inr a, s))"

definition Postgres_GetAllAssignments :: "pg_env \<Rightarrow> pg \<Rightarrow> (store_error + table) \<times> pg" where
  "Postgres_GetAllAssignments E s =
     (case exec E 0 (\<lambda>s. (pg_assignments s, s)) s of
        (None, s) \<Rightarrow> (Inl ErrUnavailable, s)
      | (Some rows, s) \<Rightarrow> (Inr (fold (\<lambda>(k, a). put k a) rows []), s))"

definition Postgres_GetBackendUsers :: "pg_env \<Rightarrow> string \<Rightarrow> pg \<Rightarrow> ((store_error + string list) \<times> pg) option" where
  "Postgres_GetBackendUsers E backend s =
     Some (case exec E 1 (\<lambda>s. (map fst (filter (\<lambda>(k, a). Backend a = backend) (pg_assignments s)), s)) s of
        (None, s) \<Rightarrow> (Inl ErrUnavailable, s)
      | (Some us, s) \<Rightarrow> (Inr us, s))"

definition Postgres_BulkAssign ::
  "pg_env \<Rightarrow> instant \<Rightarrow> bulk_entries \<Rightarrow> pg \<Rightarrow> ((string, string) gomap \<times> store_error option) \<times> pg" where
  "Postgres_BulkAssign E now es s =
     (if es = [] then (([], None), s)
      else case exec E (1 + 3 * length es) (bulk_assign_tx now es) s of
             (None, s) \<Rightarrow> (([], Some ErrUnavailable), s)
           | (Some assigned, s) \<Rightarrow> ((assigned, None), s))"

definition Postgres_BulkDeleteAssignments :: "pg_env \<Rightarrow> string list \<Rightarrow> pg \<Rightarrow> store_error option \<times> pg" where
  "Postgres_BulkDeleteAssignments E ks s =
     (if ks = [] then (None, s) else status_of (exec E (length ks) (bulk_delete_tx ks) s))"

definition Postgres_ActiveBackends :: "pg_env \<Rightarrow> pg \<Rightarrow> (store_error + string list) \<times> pg" where
  "Postgres_ActiveBackends E s =
     (case exec E 0 (\<lambda>s. (map fst (filter snd (pg_backends s)), s)) s of
        (None, s) \<Rightarrow> (Inl ErrUnavailable, s)
      | (Some bs, s) \<Rightarrow> (Inr bs, s))"

text \<open>Two statements, each its own transaction.\<close>

definition Postgres_AddBackend :: "pg_env \<Rightarrow> string \<Rightarrow> pg \<Rightarrow> store_error option \<times> pg" where
  "Postgres_AddBackend E b s =
     (case exec E 1 (upsert_backend b) s of
        (None, s) \<Rightarrow> (Some ErrUnavailable, s)
      | (Some _, s) \<Rightarrow> status_of (exec E 1 (insert_count b) s))"

definition Postgres_RemoveBackend :: "pg_env \<Rightarrow> string \<Rightarrow> pg \<Rightarrow> store_error option \<times> pg" where
  "Postgres_RemoveBackend E b s = status_of (exec E 1 (set_unhealthy b) s)"

definition Postgres_Ping :: "pg_env \<Rightarrow> pg \<Rightarrow> store_error option \<times> pg" where
  "Postgres_Ping E s = status_of (exec E 0 (\<lambda>s. ((), s)) s)"

definition postgres_store :: "pg_env \<Rightarrow> pg store_ops" where
  "postgres_store E =
     \<lparr>AssignLeastLoaded = Postgres_AssignLeastLoaded E,
      GetAssignment = Postgres_GetAssignment E,
      GetAllAssignments = Postgres_GetAllAssignments E,
      GetBackendUsers = Postgres_GetBackendUsers E,
      BulkAssign = Postgres_BulkAssign E,
      BulkDeleteAssignments = Postgres_BulkDeleteAssignments E,
      ActiveBackends = Postgres_ActiveBackends E,
      AddBackend = Postgres_AddBackend E,
      RemoveBackend = Postgres_RemoveBackend E,
      Ping = Postgres_Ping E\<rparr>"

section \<open>The store contract\<close>

text \<open>
  The connection may fail before a statement, or lose the reply of one that was executed; it
  executes nothing twice, and in between nobody else changes the tables. Keys are primary keys.
\<close>

definition once :: "'s network \<Rightarrow> bool" where
  "once net \<longleftrightarrow> (\<forall>s. fst (net s) \<le> 1 \<and> snd (snd (net s)) = s)"

definition pg_wf :: "pg \<Rightarrow> bool" where
  "pg_wf s \<longleftrightarrow> wf_map (pg_backends s) \<and> wf_map (pg_assignments s) \<and> wf_map (pg_counts s)"

definition pg_inv :: "pg_env \<Rightarrow> pg \<Rightarrow> bool" where
  "pg_inv E s \<longleftrightarrow> once (pv_net E) \<and> pg_wf s"

abbreviation pg_tab :: "pg \<Rightarrow> string \<rightharpoonup> assignment" where
  "pg_tab s \<equiv> map_of (pg_assignments s)"

abbreviation pg_act :: "pg \<Rightarrow> string set" where
  "pg_act s \<equiv> {b. healthy s b}"

text \<open>A call is a refusal without effect, or one execution whose reply may be lost.\<close>

lemma exec_once:
  assumes "once (pv_net E)"
  obtains (refused) "exec E n f s = (None, s)"
  | (unheard) "exec E n f s = (None, snd (f s))"
  | (executed) "exec E n f s = (Some (fst (f s)), snd (f s))"
proof -
  obtain m reply s1 where net: "pv_net E s = (m, reply, s1)" by (cases "pv_net E s")
  with assms have "m \<le> 1" "s1 = s" by (metis fst_conv snd_conv once_def)+
  then have "m = 0 \<or> m = 1" by linarith
  then show thesis
  proof
    assume "m = 0"
    with net \<open>s1 = s\<close> show thesis by (intro refused) (simp add: exec_def call_def)
  next
    assume "m = 1"
    with net \<open>s1 = s\<close> refused unheard executed show thesis
      by (cases "pv_maxParams E < n"; cases reply) (auto simp: exec_def call_def Let_def split: prod.splits)
  qed
qed

lemma exec_reads:
  assumes "once (pv_net E)" and "exec E n (\<lambda>s. (g s, s)) s = (r, s')"
  shows "s' = s" and "r = None \<or> r = Some (g s)"
  using assms(2) by (cases rule: exec_once [OF assms(1), of n "\<lambda>s. (g s, s)" s]; auto)+

section \<open>Effect of the statements\<close>

lemma map_of_bump: "map_of (bump b d m) c = map_option (\<lambda>w. if c = b then w + d else w) (map_of m c)"
  unfolding bump_def by (rule map_of_map_snd)

lemma keys_bump [simp]: "map fst (bump b d m) = map fst m"
  by (simp add: bump_def comp_def split_def)

lemma wf_fold_bump: "wf_map (fold (\<lambda>(b, d). bump b (g d)) deltas m) \<longleftrightarrow> wf_map m"
  by (induction deltas arbitrary: m) (simp_all add: split_def)

lemma fold_bump:
  "wf_map deltas \<Longrightarrow> map_of (fold (\<lambda>(b, d). bump b (g d)) deltas m) c =
     map_option (\<lambda>w. w + (case map_of deltas c of None \<Rightarrow> 0 | Some d \<Rightarrow> g d)) (map_of m c)"
proof (induction deltas arbitrary: m)
  case (Cons x deltas)
  obtain b d where x: "x = (b, d)" by (cases x)
  have n: "map_of deltas b = None" using Cons.prems x by (simp add: map_of_eq_None_iff)
  have "map_of (fold (\<lambda>(b, d). bump b (g d)) (x # deltas) m) c =
      map_option (\<lambda>w. w + (case map_of deltas c of None \<Rightarrow> 0 | Some d \<Rightarrow> g d)) (map_of (bump b (g d) m) c)"
    using Cons.IH [of "bump b (g d) m"] Cons.prems by (simp add: x)
  then show ?case
    by (cases "map_of m c"; cases "c = b") (simp_all add: x n map_of_bump)
qed (simp add: option.map_ident)

lemma add_counts_fold:
  "map_of (fold (\<lambda>(b, d). bump b d) (add_counts xs) m) c = map_option (\<lambda>w. w + count_in (add_counts xs) c) (map_of m c)"
  "map_of (fold (\<lambda>(b, d). bump b (- d)) (add_counts xs) m) c = map_option (\<lambda>w. w - count_in (add_counts xs) c) (map_of m c)"
  "wf_map (fold (\<lambda>(b, d). bump b d) (add_counts xs) m) \<longleftrightarrow> wf_map m"
  "wf_map (fold (\<lambda>(b, d). bump b (- d)) (add_counts xs) m) \<longleftrightarrow> wf_map m"
proof -
  note f = fold_bump [OF add_counts_wf [of xs]] and w = wf_fold_bump [where deltas = "add_counts xs"]
  show "map_of (fold (\<lambda>(b, d). bump b d) (add_counts xs) m) c = map_option (\<lambda>w. w + count_in (add_counts xs) c) (map_of m c)"
    using f [of "\<lambda>d. d"] by (simp add: count_in_def)
  show "map_of (fold (\<lambda>(b, d). bump b (- d)) (add_counts xs) m) c = map_option (\<lambda>w. w - count_in (add_counts xs) c) (map_of m c)"
    using f [of uminus] by (cases "map_of (add_counts xs) c") (simp_all add: count_in_def)
  show "wf_map (fold (\<lambda>(b, d). bump b d) (add_counts xs) m) \<longleftrightarrow> wf_map m"
    "wf_map (fold (\<lambda>(b, d). bump b (- d)) (add_counts xs) m) \<longleftrightarrow> wf_map m"
    using w [of "\<lambda>d. d"] w [of uminus] by simp_all
qed

lemma bulk_assign_tx_effect:
  assumes "pg_wf s" and "wf_map es" and "bulk_assign_tx now es s = (m, s')"
  shows "pg_wf s'" and "pg_backends s' = pg_backends s"
    and "pg_tab s' k = (case pg_tab s k of Some a \<Rightarrow> Some a | None \<Rightarrow>
       map_option (\<lambda>e. new_assignment now (EntryBackend e) (norm_weight (EntryWeight e))) (map_of es k))"
    and "map_of m k = (if pg_tab s k = None then map_option EntryBackend (map_of es k) else None)"
proof -
  let ?fresh = "filter (\<lambda>i. pg_tab s (fst i) = None) (bulk_items es)"
  have s': "s' = s\<lparr>pg_assignments := pg_assignments s @ map (new_entry now) ?fresh,
      pg_counts := fold (\<lambda>(b, d). bump b d) (add_counts (map snd ?fresh)) (pg_counts s)\<rparr>"
    and m: "m = map (\<lambda>(k, b, w). (k, b)) ?fresh"
    using assms(3) by (simp_all add: bulk_assign_tx_def Let_def)
  have ks: "map fst (map (new_entry now) ?fresh) = map fst ?fresh"
    by (simp add: new_entry_def comp_def split_def)
  have "distinct (map fst ?fresh)" using assms(2) bulk_items_keys [of es] by (simp add: distinct_map_filter)
  moreover have "set (keys (pg_assignments s)) \<inter> set (map fst ?fresh) = {}" by (force simp: map_of_eq_None_iff)
  ultimately show "pg_wf s'" using assms(1) s' ks by (simp add: pg_wf_def add_counts_fold del: map_map)
  show "pg_backends s' = pg_backends s" using s' by simp
  show "pg_tab s' k = (case pg_tab s k of Some a \<Rightarrow> Some a | None \<Rightarrow>
       map_option (\<lambda>e. new_assignment now (EntryBackend e) (norm_weight (EntryWeight e))) (map_of es k))"
    using s' bulk_new_entries [of now "\<lambda>k. pg_tab s k = None" es k] by (simp add: map_add_def split: option.split)
  show "map_of m k = (if pg_tab s k = None then map_option EntryBackend (map_of es k) else None)"
    using m bulk_assigned [of "\<lambda>k. pg_tab s k = None" es k] by simp
qed

lemma bulk_delete_tx_effect:
  assumes "pg_wf s" and "bulk_delete_tx ks s = (u, s')"
  shows "pg_wf s'" and "pg_backends s' = pg_backends s" and "pg_tab s' = pg_tab s |` (- set ks)"
  using assms
  by (auto simp: bulk_delete_tx_def Let_def pg_wf_def add_counts_fold map_of_filter_wf restrict_map_def fun_eq_iff split: option.split)

lemma least_row_min:
  "least_row rows = None \<longleftrightarrow> rows = []"
  "least_row rows = Some b \<Longrightarrow> \<exists>w. (b, w) \<in> set rows \<and> (\<forall>(c, v) \<in> set rows. w \<le> v)"
proof -
  show "least_row rows = None \<longleftrightarrow> rows = []"
    by (induction rows) auto
  show "least_row rows = Some b \<Longrightarrow> \<exists>w. (b, w) \<in> set rows \<and> (\<forall>(c, v) \<in> set rows. w \<le> v)"
  proof (induction rows rule: least_row.induct)
    case (2 c w rows)
    show ?case
    proof (cases "\<forall>(c, v) \<in> set rows. w \<le> v")
      case True
      with 2 show ?thesis by auto
    next
      case False
      with 2 obtain v where v: "(b, v) \<in> set rows" "\<forall>(c, x) \<in> set rows. v \<le> x" by auto
      with False have "v \<le> w" by fastforce
      with v show ?thesis by auto
    qed
  qed simp
qed

lemma least_row_in: "least_row rows = Some b \<Longrightarrow> b \<in> fst ` set rows"
  using least_row_min(2) by force

lemma select_backend_healthy: "select_backend locked s = Some b \<Longrightarrow> healthy s b"
proof -
  let ?rows = "filter (\<lambda>(b, w). healthy s b) (pg_counts s)"
  assume "select_backend locked s = Some b"
  then have "b \<in> fst ` set ?rows \<or> b \<in> fst ` set (filter (\<lambda>(b, w). b \<notin> set locked) ?rows)"
    using least_row_in [of ?rows b] least_row_in [of "filter (\<lambda>(b, w). b \<notin> set locked) ?rows" b]
    unfolding select_backend_def Let_def by (cases "least_row (filter (\<lambda>(b, w). b \<notin> set locked) ?rows)") simp_all
  then show ?thesis by auto
qed

lemma assign_tx_cases:
  assumes "assign_tx E now k s = (r, s')"
  obtains (none) "r = NoRows" "s' = s"
  | (kept) "pg_tab s k \<noteq> None" "r = AlreadyAssigned" "s' = s"
  | (new) b where "select_backend (pv_locked E s) s = Some b" "pg_tab s k = None" "r = Inserted (new_assignment now b 1)"
      "s' = s\<lparr>pg_assignments := pg_assignments s @ [(k, new_assignment now b 1)], pg_counts := bump b 1 (pg_counts s)\<rparr>"
proof (cases "select_backend (pv_locked E s) s")
  case None
  with assms show thesis by (intro none) (simp_all add: assign_tx_def)
next
  case (Some b)
  show thesis
  proof (cases "pg_tab s k")
    case None
    with Some assms show thesis by (intro new [OF Some None]) (simp_all add: assign_tx_def Let_def)
  next
    case (Some a)
    with \<open>select_backend (pv_locked E s) s = Some b\<close> assms show thesis by (intro kept) (simp_all add: assign_tx_def)
  qed
qed

lemma assign_tx_effect:
  assumes "pg_wf s" and "assign_tx E now k s = (r, s')"
  shows "pg_wf s'" and "pg_backends s' = pg_backends s"
    and "r = NoRows \<Longrightarrow> s' = s" and "r = AlreadyAssigned \<Longrightarrow> s' = s \<and> pg_tab s k \<noteq> None"
    and "r = Inserted a \<Longrightarrow> pg_tab s k = None \<and> pg_tab s' = (pg_tab s)(k \<mapsto> a) \<and> healthy s (Backend a)"
proof -
  show "pg_wf s'"
  proof (cases rule: assign_tx_cases [OF assms(2), case_names none kept new])
    case (new b)
    then have "k \<notin> fst ` set (pg_assignments s)" by (simp add: map_of_eq_None_iff)
    with new(4) assms(1) show ?thesis by (simp add: pg_wf_def)
  qed (use assms(1) in simp_all)
  show "pg_backends s' = pg_backends s" by (cases rule: assign_tx_cases [OF assms(2), case_names none kept new]) simp_all
  show "s' = s" if "r = NoRows" by (cases rule: assign_tx_cases [OF assms(2), case_names none kept new]) (use that in simp_all)
  show "s' = s \<and> pg_tab s k \<noteq> None" if "r = AlreadyAssigned" by (cases rule: assign_tx_cases [OF assms(2), case_names none kept new]) (use that in simp_all)
  show "pg_tab s k = None \<and> pg_tab s' = (pg_tab s)(k \<mapsto> a) \<and> healthy s (Backend a)" if "r = Inserted a"
  proof (cases rule: assign_tx_cases [OF assms(2), case_names none kept new])
    case (new b)
    with that select_backend_healthy [OF new(1)] show ?thesis
      by (auto simp: fun_eq_iff map_add_def split: option.split)
  qed (use that in simp_all)
qed

section \<open>The operations honour the contract\<close>

lemma exec_keeps:
  assumes "once (pv_net E)" and "P s" and "P (snd (f s))"
  shows "P (snd (exec E n f s))"
  by (cases rule: exec_once [OF assms(1), of n f s]) (use assms(2, 3) in simp_all)

lemma exec_Some:
  assumes "once (pv_net E)" and "exec E n f s = (Some x, s')"
  shows "f s = (x, s')"
  by (cases rule: exec_once [OF assms(1), of n f s]) (use assms(2) in auto)

lemma status_of_exec:
  assumes "once (pv_net E)" and "status_of (exec E n f s) = (None, s')"
  shows "s' = snd (f s)"
  by (cases rule: exec_once [OF assms(1), of n f s]) (use assms(2) in \<open>auto simp: status_of_def\<close>)

lemma status_of_snd [simp]: "snd (status_of r) = snd r"
  by (cases r) (auto simp: status_of_def split: option.split)

lemma fold_put_rows: "wf_map rows \<Longrightarrow> map_of (fold (\<lambda>(k, a). put k a) rows m) = map_of m ++ map_of rows"
proof (induction rows arbitrary: m)
  case (Cons x rows)
  obtain k a where x: "x = (k, a)" by (cases x)
  have "map_of rows k = None" using Cons.prems x by (simp add: map_of_eq_None_iff)
  with Cons x show ?case by (auto simp: gomap_simps fun_eq_iff map_add_def split: option.split)
qed simp

lemma wf_fold_put: "wf_map m \<Longrightarrow> wf_map (fold (\<lambda>(k, a). put k a) rows m)"
  by (induction rows arbitrary: m) (simp_all add: split_def)

lemma pg_act_set: "wf_map bs \<Longrightarrow> fst ` set (filter snd bs) = {b. map_of bs b = Some True}"
  by (force simp: map_of_eq_Some_wf)

lemma map_of_remove:
  "map_of (map (\<lambda>(c, up). (c, if c = b then False else up)) bs) c = map_option (\<lambda>up. if c = b then False else up) (map_of bs c)"
  by (rule map_of_map_snd)

lemma keys_remove [simp]: "map fst (map (\<lambda>(c, up). (c, if c = b then False else up)) bs) = map fst bs"
  by (simp add: comp_def split_def)

lemma Postgres_reads:
  assumes inv: "pg_inv E s"
  shows "Postgres_GetAssignment E k s = (Inr a, s') \<Longrightarrow> s' = s \<and> pg_tab s k = Some a"
    and "Postgres_GetAllAssignments E s = (Inr asg, s') \<Longrightarrow> s' = s \<and> wf_map asg \<and> map_of asg = pg_tab s"
    and "Postgres_GetBackendUsers E b s = Some (Inr us, s') \<Longrightarrow> s' = s \<and> set us = {k. \<exists>a. pg_tab s k = Some a \<and> Backend a = b}"
    and "Postgres_ActiveBackends E s = (Inr bs, s') \<Longrightarrow> s' = s \<and> set bs = pg_act s \<and> distinct bs"
    and "Postgres_ActiveBackends E s = (r, s') \<Longrightarrow> s' = s"
proof -
  have o: "once (pv_net E)" and wf: "pg_wf s" using inv by (simp_all add: pg_inv_def)
  show "s' = s \<and> pg_tab s k = Some a" if "Postgres_GetAssignment E k s = (Inr a, s')"
    using that exec_Some [OF o, of 1 "\<lambda>s. (pg_tab s k, s)" s]
    by (auto simp: Postgres_GetAssignment_def split: prod.splits option.splits)
  show "s' = s \<and> wf_map asg \<and> map_of asg = pg_tab s" if "Postgres_GetAllAssignments E s = (Inr asg, s')"
    using that exec_Some [OF o, of 0 "\<lambda>s. (pg_assignments s, s)" s] wf
    by (auto simp: Postgres_GetAllAssignments_def fold_put_rows wf_fold_put pg_wf_def split: prod.splits option.splits)
  show "s' = s \<and> set us = {k. \<exists>a. pg_tab s k = Some a \<and> Backend a = b}" if "Postgres_GetBackendUsers E b s = Some (Inr us, s')"
  proof -
    have "s' = s" "us = map fst (filter (\<lambda>(k, a). Backend a = b) (pg_assignments s))"
      using that exec_Some [OF o, of 1 "\<lambda>s. (map fst (filter (\<lambda>(k, a). Backend a = b) (pg_assignments s)), s)" s]
      by (auto simp: Postgres_GetBackendUsers_def split: prod.splits option.splits)
    then show ?thesis using filter_keys_wf [of "pg_assignments s" "\<lambda>(k, a). Backend a = b"] wf by (simp add: pg_wf_def)
  qed
  show "s' = s \<and> set bs = pg_act s \<and> distinct bs" if "Postgres_ActiveBackends E s = (Inr bs, s')"
  proof -
    have "s' = s" "bs = map fst (filter snd (pg_backends s))"
      using that exec_Some [OF o, of 0 "\<lambda>s. (map fst (filter snd (pg_backends s)), s)" s]
      by (auto simp: Postgres_ActiveBackends_def split: prod.splits option.splits)
    then show ?thesis using wf pg_act_set [of "pg_backends s"] by (simp add: pg_wf_def healthy_def distinct_map_filter)
  qed
  show "s' = s" if "Postgres_ActiveBackends E s = (r, s')"
    using that exec_reads(1) [OF o, of 0 "\<lambda>s. map fst (filter snd (pg_backends s))" s]
    by (auto simp: Postgres_ActiveBackends_def split: prod.splits option.splits)
qed

lemma AddBackend_cases:
  obtains "Postgres_AddBackend E b s = (Some ErrUnavailable, snd (exec E 1 (upsert_backend b) s))"
  | u s1 where "exec E 1 (upsert_backend b) s = (Some u, s1)"
      "Postgres_AddBackend E b s = status_of (exec E 1 (insert_count b) s1)"
proof -
  obtain r s1 where c: "exec E 1 (upsert_backend b) s = (r, s1)" by (cases "exec E 1 (upsert_backend b) s")
  show thesis
  proof (cases r)
    case None
    with c show thesis by (intro that(1)) (simp add: Postgres_AddBackend_def)
  next
    case (Some u)
    with c show thesis by (intro that(2) [of u s1]) (simp_all add: Postgres_AddBackend_def)
  qed
qed

lemma Postgres_registry:
  assumes inv: "pg_inv E s"
  shows "Postgres_AddBackend E b s = (None, s') \<Longrightarrow> pg_inv E s' \<and> pg_act s' = insert b (pg_act s)"
    and "Postgres_AddBackend E b s = (r, s') \<Longrightarrow> pg_assignments s' = pg_assignments s"
    and "Postgres_RemoveBackend E b s = (None, s') \<Longrightarrow> pg_inv E s' \<and> pg_act s' = pg_act s - {b}"
    and "Postgres_RemoveBackend E b s = (r, s') \<Longrightarrow> pg_assignments s' = pg_assignments s"
proof -
  have o: "once (pv_net E)" and wf: "pg_wf s" using inv by (simp_all add: pg_inv_def)
  have keep: "pg_assignments (snd (exec E n f t)) = pg_assignments t"
    if "\<And>t. pg_assignments (snd (f t)) = pg_assignments t" for n and f :: "pg \<Rightarrow> unit \<times> pg" and t
    by (rule exec_keeps [OF o]) (simp_all add: that)
  have a: "pg_assignments (snd (exec E 1 (upsert_backend b) t)) = pg_assignments t"
    "pg_assignments (snd (exec E 1 (insert_count b) t)) = pg_assignments t"
    "pg_assignments (snd (exec E 1 (set_unhealthy b) t)) = pg_assignments t" for t
    by (rule keep; simp add: registry_statements)+
  show "pg_inv E s' \<and> pg_act s' = insert b (pg_act s)" if "Postgres_AddBackend E b s = (None, s')"
  proof (cases rule: AddBackend_cases [of E b s])
    case (2 u s1)
    have "s1 = snd (upsert_backend b s)" "s' = snd (insert_count b s1)"
      using exec_Some [OF o 2(1)] status_of_exec [OF o, of 1 "insert_count b" s1 s'] 2(2) that by simp_all
    then show ?thesis using wf o by (auto simp: pg_inv_def pg_wf_def healthy_def gomap_simps registry_statements)
  qed (use that in simp)
  show "pg_assignments s' = pg_assignments s" if "Postgres_AddBackend E b s = (r, s')"
  proof (cases rule: AddBackend_cases [of E b s])
    case 1
    with that a(1) [of s] show ?thesis by simp
  next
    case (2 u s1)
    with that a(1) [of s] a(2) [of s1] status_of_snd [of "exec E 1 (insert_count b) s1"] show ?thesis by simp
  qed
  show "pg_inv E s' \<and> pg_act s' = pg_act s - {b}" if "Postgres_RemoveBackend E b s = (None, s')"
    using status_of_exec [OF o that [unfolded Postgres_RemoveBackend_def]] wf o
    by (auto simp: pg_inv_def pg_wf_def healthy_def map_of_remove registry_statements split: if_splits simp del: map_map)
  show "pg_assignments s' = pg_assignments s" if "Postgres_RemoveBackend E b s = (r, s')"
    using that a(3) [of s] status_of_snd [of "exec E 1 (set_unhealthy b) s"] by (simp add: Postgres_RemoveBackend_def)
qed

lemma Postgres_assign:
  assumes inv: "pg_inv E s" and r: "Postgres_AssignLeastLoaded E now k s = (Inr a, s')"
  shows "pg_inv E s' \<and> pg_act s' = pg_act s \<and> pg_tab s' = (pg_tab s)(k \<mapsto> a) \<and> (healthy s (Backend a) \<or> pg_tab s k = Some a)"
    and "pg_tab s k = Some a0 \<Longrightarrow> a = a0 \<and> s' = s"
proof -
  have o: "once (pv_net E)" and wf: "pg_wf s" using inv by (simp_all add: pg_inv_def)
  obtain res s1 where c: "exec E 2 (assign_tx E now k) s = (Some res, s1)"
    using r by (cases "exec E 2 (assign_tx E now k) s"; cases "fst (exec E 2 (assign_tx E now k) s)")
      (auto simp: Postgres_AssignLeastLoaded_def)
  note e = assign_tx_effect [OF wf exec_Some [OF o c]]
  have "pg_inv E s' \<and> pg_act s' = pg_act s \<and> pg_tab s' = (pg_tab s)(k \<mapsto> a) \<and>
      (healthy s (Backend a) \<or> pg_tab s k = Some a) \<and> (pg_tab s k = Some a0 \<longrightarrow> a = a0 \<and> s' = s)"
  proof (cases res)
    case NoRows
    with r c show ?thesis by (simp add: Postgres_AssignLeastLoaded_def)
  next
    case AlreadyAssigned
    with e(4) have "s1 = s" by simp
    with AlreadyAssigned r c Postgres_reads(1) [OF inv, of k a s'] inv show ?thesis
      by (simp add: Postgres_AssignLeastLoaded_def fun_eq_iff)
  next
    case (Inserted a')
    with r c have "a' = a" "s' = s1" by (simp_all add: Postgres_AssignLeastLoaded_def)
    with Inserted e(1, 2) e(5) [of a] o show ?thesis by (simp add: pg_inv_def healthy_def)
  qed
  then show "pg_inv E s' \<and> pg_act s' = pg_act s \<and> pg_tab s' = (pg_tab s)(k \<mapsto> a) \<and> (healthy s (Backend a) \<or> pg_tab s k = Some a)"
    and "pg_tab s k = Some a0 \<Longrightarrow> a = a0 \<and> s' = s" by simp_all
qed

lemma BulkAssign_pg:
  assumes inv: "pg_inv E s" and wf: "wf_map es" and r: "Postgres_BulkAssign E now es s = ((m, None), s')"
  shows "pg_inv E s' \<and> pg_act s' = pg_act s \<and>
    (\<forall>k. pg_tab s' k = (case pg_tab s k of Some a \<Rightarrow> Some a | None \<Rightarrow>
       map_option (\<lambda>e. new_assignment now (EntryBackend e) (norm_weight (EntryWeight e))) (map_of es k))) \<and>
    (\<forall>k. map_of m k = (if pg_tab s k = None then map_option EntryBackend (map_of es k) else None))"
proof (cases "es = []")
  case True
  with r inv show ?thesis by (auto simp: Postgres_BulkAssign_def split: option.split)
next
  case False
  have o: "once (pv_net E)" and "pg_wf s" using inv by (simp_all add: pg_inv_def)
  let ?n = "1 + 3 * length es"
  have "exec E ?n (bulk_assign_tx now es) s = (Some m, s')"
    using r False by (cases "exec E ?n (bulk_assign_tx now es) s"; cases "fst (exec E ?n (bulk_assign_tx now es) s)")
      (auto simp: Postgres_BulkAssign_def)
  from bulk_assign_tx_effect [OF \<open>pg_wf s\<close> wf exec_Some [OF o this]] o show ?thesis
    by (simp add: pg_inv_def healthy_def)
qed

lemma BulkDelete_pg:
  assumes inv: "pg_inv E s" and r: "Postgres_BulkDeleteAssignments E ks s = (None, s')"
  shows "pg_inv E s' \<and> pg_act s' = pg_act s \<and> pg_tab s' = pg_tab s |` (- set ks)"
proof (cases "ks = []")
  case True
  with r inv show ?thesis by (simp add: Postgres_BulkDeleteAssignments_def restrict_map_def)
next
  case False
  have o: "once (pv_net E)" and "pg_wf s" using inv by (simp_all add: pg_inv_def)
  have "bulk_delete_tx ks s = ((), s')"
    using r False status_of_exec [OF o, of "length ks" "bulk_delete_tx ks" s s']
    by (cases "bulk_delete_tx ks s") (simp add: Postgres_BulkDeleteAssignments_def)
  from bulk_delete_tx_effect [OF \<open>pg_wf s\<close> this] o show ?thesis by (simp add: pg_inv_def healthy_def)
qed

interpretation pstore: assignment_store "postgres_store E" "pg_inv E" pg_act pg_tab for E
proof unfold_locales
  fix s s' bs b r q now k a a' asg us es m ks
  assume inv: "pg_inv E s"
  then have o: "once (pv_net E)" and wf: "pg_wf s" by (simp_all add: pg_inv_def)
  note reads = Postgres_reads [OF inv] and reg = Postgres_registry [OF inv] and asg = Postgres_assign [OF inv]
  show "ActiveBackends (postgres_store E) s = (Inr bs, s') \<Longrightarrow> set bs = pg_act s \<and> distinct bs \<and> pg_inv E s' \<and> pg_act s' = pg_act s"
    using reads(4) [of bs s'] inv by (simp add: postgres_store_def)
  show "AddBackend (postgres_store E) b s = (None, s') \<Longrightarrow> pg_inv E s' \<and> pg_act s' = insert b (pg_act s)"
    using reg(1) [of b s'] by (simp add: postgres_store_def)
  show "RemoveBackend (postgres_store E) b s = (None, s') \<Longrightarrow> pg_inv E s' \<and> pg_act s' = pg_act s - {b}"
    using reg(3) [of b s'] by (simp add: postgres_store_def)
  show "AddBackend (postgres_store E) b s = (r, s') \<Longrightarrow> pg_tab s' = pg_tab s"
    using reg(2) [of b r s'] by (simp add: postgres_store_def)
  show "RemoveBackend (postgres_store E) b s = (r, s') \<Longrightarrow> pg_tab s' = pg_tab s"
    using reg(4) [of b r s'] by (simp add: postgres_store_def)
  show "ActiveBackends (postgres_store E) s = (q, s') \<Longrightarrow> pg_tab s' = pg_tab s"
    using reads(5) [of q s'] by (simp add: postgres_store_def)
  show "AssignLeastLoaded (postgres_store E) now k s = (Inr a, s') \<Longrightarrow>
      pg_inv E s' \<and> pg_act s' = pg_act s \<and> pg_tab s' = (pg_tab s)(k \<mapsto> a) \<and> (Backend a \<in> pg_act s \<or> pg_tab s k = Some a)"
    using asg(1) [of now k a s'] by (simp add: postgres_store_def)
  show "pg_tab s k = Some a \<Longrightarrow> Backend a \<in> pg_act s \<Longrightarrow> AssignLeastLoaded (postgres_store E) now k s = (Inr a', s') \<Longrightarrow> a' = a"
    using asg(2) [of now k a' s' a] by (simp add: postgres_store_def)
  show "GetAllAssignments (postgres_store E) s = (Inr asg, s') \<Longrightarrow>
      wf_map asg \<and> map_of asg = pg_tab s \<and> pg_inv E s' \<and> pg_act s' = pg_act s \<and> pg_tab s' = pg_tab s"
    using reads(2) [of asg s'] inv by (simp add: postgres_store_def)
  show "GetBackendUsers (postgres_store E) b s = Some (Inr us, s') \<Longrightarrow>
      set us = {k. \<exists>a. pg_tab s k = Some a \<and> Backend a = b} \<and> pg_inv E s' \<and> pg_act s' = pg_act s \<and> pg_tab s' = pg_tab s"
    using reads(3) [of b us s'] inv by (simp add: postgres_store_def)
  show "wf_map es \<Longrightarrow> BulkAssign (postgres_store E) now es s = ((m, None), s') \<Longrightarrow>
      pg_inv E s' \<and> pg_act s' = pg_act s \<and>
      (\<forall>k. pg_tab s' k = (case pg_tab s k of Some a \<Rightarrow> Some a | None \<Rightarrow>
         map_option (\<lambda>e. new_assignment now (EntryBackend e) (norm_weight (EntryWeight e))) (map_of es k))) \<and>
      (\<forall>k. map_of m k = (if pg_tab s k = None then map_option EntryBackend (map_of es k) else None))"
    by (rule BulkAssign_pg [OF inv]) (simp_all add: postgres_store_def)
  show "BulkDeleteAssignments (postgres_store E) ks s = (None, s') \<Longrightarrow>
      pg_inv E s' \<and> pg_act s' = pg_act s \<and> pg_tab s' = pg_tab s |` (- set ks)"
    by (rule BulkDelete_pg [OF inv]) (simp_all add: postgres_store_def)
qed

end
