(* ===== verification/Postgres_Counts.thy ===== *)
theory Postgres_Counts
  imports Postgres_Store
begin

text \<open>
  What the PostgreSQL store guarantees about loads: the counters in \<^verbatim>\<open>assignment_counts\<close> agree
  with the table over any history of operations, whatever the connection does to each of them,
  and the choice of a backend is least loaded. Where the guarantees end is stated too.
\<close>

section \<open>Counters and the table\<close>

definition pg_ok :: "pg \<Rightarrow> bool" where
  "pg_ok s \<longleftrightarrow> pg_wf s \<and>
     (\<forall>k a. pg_tab s k = Some a \<longrightarrow> 0 < Weight a \<and> map_of (pg_counts s) (Backend a) \<noteq> None) \<and>
     (\<forall>b w. map_of (pg_counts s) b = Some w \<longrightarrow> w = load (pg_assignments s) b)"

datatype pg_event =
    PgAssign instant string
  | PgBulkAssign instant bulk_entries
  | PgBulkDelete "string list"
  | PgAdd string
  | PgRemove string
  | PgMigrate

fun pg_step :: "pg_env \<times> pg_event \<Rightarrow> pg \<Rightarrow> pg" where
  "pg_step (E, PgAssign now k) s = snd (Postgres_AssignLeastLoaded E now k s)"
| "pg_step (E, PgBulkAssign now es) s = snd (Postgres_BulkAssign E now es s)"
| "pg_step (E, PgBulkDelete ks) s = snd (Postgres_BulkDeleteAssignments E ks s)"
| "pg_step (E, PgAdd b) s = snd (Postgres_AddBackend E b s)"
| "pg_step (E, PgRemove b) s = snd (Postgres_RemoveBackend E b s)"
| "pg_step (E, PgMigrate) s = snd (migrate E s)"

text \<open>
  Bulk assignments name backends that have a counter, as the callers see to: they take the
  targets from the registry.
\<close>

fun pg_guard :: "pg_env \<times> pg_event \<Rightarrow> pg \<Rightarrow> bool" where
  "pg_guard (E, PgBulkAssign now es) s \<longleftrightarrow> once (pv_net E) \<and> wf_map es \<and>
     (\<forall>(k, e) \<in> set es. map_of (pg_counts s) (EntryBackend e) \<noteq> None)"
| "pg_guard (E, ev) s \<longleftrightarrow> once (pv_net E)"

fun pg_guarded :: "(pg_env \<times> pg_event) list \<Rightarrow> pg \<Rightarrow> bool" where
  "pg_guarded [] s \<longleftrightarrow> True"
| "pg_guarded (x # xs) s \<longleftrightarrow> pg_guard x s \<and> pg_guarded xs (pg_step x s)"

lemma load_none: "\<forall>(k, a) \<in> set asg. Backend a \<noteq> b \<Longrightarrow> load asg b = 0"
  by (induction asg) (auto simp: load_def)

lemma load_filter: "load (filter P asg) b + load (filter (\<lambda>x. \<not> P x) asg) b = load asg b"
  by (induction asg) (auto simp: load_def)

lemma sum_weight_load:
  assumes "\<forall>(k, a) \<in> set asg. 0 < Weight a"
  shows "sum_weight asg b = load asg b"
  unfolding sum_weight_def load_def
  by (rule arg_cong [where f = sum_list], rule map_cong) (use assms in \<open>auto simp: EffectiveWeight_def\<close>)

lemma count_weights:
  assumes "\<forall>(k, a) \<in> set asg. 0 < Weight a"
  shows "count_in (add_counts (map (\<lambda>(k, a). (Backend a, Weight a)) asg)) b = load asg b"
proof -
  have "map (\<lambda>(k, a). (Backend a, Weight a)) asg = map (\<lambda>(k, a). (Backend a, EffectiveWeight a)) asg"
    using assms by (auto simp: EffectiveWeight_def)
  then show ?thesis by (simp only: add_counts_load)
qed

lemma pg_okD:
  assumes "pg_ok s"
  shows "pg_wf s" and "(k, a) \<in> set (pg_assignments s) \<Longrightarrow> 0 < Weight a"
    and "(k, a) \<in> set (pg_assignments s) \<Longrightarrow> map_of (pg_counts s) (Backend a) \<noteq> None"
    and "map_of (pg_counts s) b = Some w \<Longrightarrow> w = load (pg_assignments s) b"
  using assms by (auto simp: pg_ok_def pg_wf_def map_of_eq_Some_wf)

lemma pg_okI:
  assumes "pg_wf s" and "\<And>k a. (k, a) \<in> set (pg_assignments s) \<Longrightarrow> 0 < Weight a \<and> map_of (pg_counts s) (Backend a) \<noteq> None"
    and "\<And>b w. map_of (pg_counts s) b = Some w \<Longrightarrow> w = load (pg_assignments s) b"
  shows "pg_ok s"
  using assms by (auto simp: pg_ok_def pg_wf_def map_of_eq_Some_wf)

lemma select_backend_row: "select_backend locked s = Some b \<Longrightarrow> map_of (pg_counts s) b \<noteq> None"
proof -
  let ?rows = "filter (\<lambda>(b, w). healthy s b) (pg_counts s)"
  assume "select_backend locked s = Some b"
  then have "b \<in> fst ` set ?rows \<or> b \<in> fst ` set (filter (\<lambda>(b, w). b \<notin> set locked) ?rows)"
    using least_row_in [of ?rows b] least_row_in [of "filter (\<lambda>(b, w). b \<notin> set locked) ?rows" b]
    unfolding select_backend_def Let_def by (cases "least_row (filter (\<lambda>(b, w). b \<notin> set locked) ?rows)") simp_all
  then have "b \<in> fst ` set (pg_counts s)" by auto
  then show ?thesis by (simp add: map_of_eq_None_iff)
qed

section \<open>Every statement keeps them in step\<close>

lemma assign_tx_ok:
  assumes ok: "pg_ok s"
  shows "pg_ok (snd (assign_tx E now k s))"
proof -
  obtain r s' where c: "assign_tx E now k s = (r, s')" by (cases "assign_tx E now k s")
  note okD = pg_okD [OF ok]
  show ?thesis
  proof (cases rule: assign_tx_cases [OF c, case_names none kept new])
    case (new b)
    have "pg_ok s'"
    proof (rule pg_okI)
      show "pg_wf s'" by (rule assign_tx_effect(1) [OF okD(1) c])
      show "0 < Weight a \<and> map_of (pg_counts s') (Backend a) \<noteq> None" if "(u, a) \<in> set (pg_assignments s')" for u a
        using that okD(2, 3) select_backend_row [OF new(1)] new(4) by (auto simp: map_of_bump new_assignment_def)
      show "w = load (pg_assignments s') c" if "map_of (pg_counts s') c = Some w" for c w
        using that okD(4) new(4)
        by (auto simp: map_of_bump load_append split: if_splits) (auto simp: load_def norm_weight_def)
    qed
    with c show ?thesis by simp
  qed (use ok c in simp_all)
qed

lemma bulk_assign_tx_ok:
  assumes ok: "pg_ok s" and wf: "wf_map es" and rows: "\<forall>(k, e) \<in> set es. map_of (pg_counts s) (EntryBackend e) \<noteq> None"
  shows "pg_ok (snd (bulk_assign_tx now es s))"
proof -
  let ?fresh = "filter (\<lambda>i. pg_tab s (fst i) = None) (bulk_items es)"
  note okD = pg_okD [OF ok]
  obtain m s' where c: "bulk_assign_tx now es s = (m, s')" by (cases "bulk_assign_tx now es s")
  have s': "s' = s\<lparr>pg_assignments := pg_assignments s @ map (new_entry now) ?fresh,
      pg_counts := fold (\<lambda>(b, d). bump b d) (add_counts (map snd ?fresh)) (pg_counts s)\<rparr>"
    using c by (simp add: bulk_assign_tx_def Let_def)
  have new: "0 < Weight a \<and> map_of (pg_counts s) (Backend a) \<noteq> None" if "(k, a) \<in> set (map (new_entry now) ?fresh)" for k a
    using that rows by (force simp: new_entry_def bulk_items_def new_assignment_def)
  have "pg_ok s'"
  proof (rule pg_okI)
    show "pg_wf s'" by (rule bulk_assign_tx_effect(1) [OF okD(1) wf c])
    show "0 < Weight a \<and> map_of (pg_counts s') (Backend a) \<noteq> None" if "(k, a) \<in> set (pg_assignments s')" for k a
      using that okD(2, 3) new unfolding s' by (auto simp: add_counts_fold simp del: set_map)
    show "w = load (pg_assignments s') b" if "map_of (pg_counts s') b = Some w" for b w
      using that okD(4) unfolding s' by (auto simp: add_counts_fold load_append load_new_entries)
  qed
  with c show ?thesis by simp
qed

lemma bulk_delete_tx_ok:
  assumes ok: "pg_ok s"
  shows "pg_ok (snd (bulk_delete_tx ks s))"
proof -
  let ?gone = "filter (\<lambda>(k, a). k \<in> set ks) (pg_assignments s)" and ?kept = "filter (\<lambda>(k, a). k \<notin> set ks) (pg_assignments s)"
  note okD = pg_okD [OF ok]
  obtain u s' where c: "bulk_delete_tx ks s = (u, s')" by (cases "bulk_delete_tx ks s")
  have s': "s' = s\<lparr>pg_assignments := ?kept,
      pg_counts := fold (\<lambda>(b, d). bump b (- d)) (add_counts (map (\<lambda>(k, a). (Backend a, Weight a)) ?gone)) (pg_counts s)\<rparr>"
    using c by (simp add: bulk_delete_tx_def Let_def)
  have gone: "count_in (add_counts (map (\<lambda>(k, a). (Backend a, Weight a)) ?gone)) b = load ?gone b" for b
    by (rule count_weights) (use okD(2) in auto)
  have split: "load ?gone b + load ?kept b = load (pg_assignments s) b" for b
    using load_filter [of "\<lambda>(k, a). k \<in> set ks" "pg_assignments s" b] by (simp add: split_def)
  have "pg_ok s'"
  proof (rule pg_okI)
    show "pg_wf s'" by (rule bulk_delete_tx_effect(1) [OF okD(1) c])
    show "0 < Weight a \<and> map_of (pg_counts s') (Backend a) \<noteq> None" if "(k, a) \<in> set (pg_assignments s')" for k a
      using that okD(2, 3) unfolding s' by (auto simp: add_counts_fold)
    show "w = load (pg_assignments s') b" if "map_of (pg_counts s') b = Some w" for b w
      using that okD(4) split [of b] unfolding s' by (auto simp: add_counts_fold gone)
  qed
  with c show ?thesis by simp
qed

lemma registry_ok:
  assumes ok: "pg_ok s"
  shows "pg_ok (snd (upsert_backend b s))" and "pg_ok (snd (insert_count b s))" and "pg_ok (snd (set_unhealthy b s))"
proof -
  note okD = pg_okD [OF ok]
  have none: "load (pg_assignments s) b = 0" if "map_of (pg_counts s) b = None"
    by (rule load_none) (use okD(3) that in force)
  show "pg_ok (snd (upsert_backend b s))"
    by (rule pg_okI) (use okD in \<open>auto simp: registry_statements pg_wf_def\<close>)
  show "pg_ok (snd (set_unhealthy b s))"
    by (rule pg_okI) (use okD in \<open>auto simp: registry_statements pg_wf_def simp del: map_map\<close>)
  show "pg_ok (snd (insert_count b s))"
    by (rule pg_okI) (use okD none in \<open>auto simp: registry_statements pg_wf_def gomap_simps split: if_splits\<close>)
qed

lemma rebuild_fold:
  "map_of (fold (\<lambda>(b, up) m. if up then put b (f b) m else m) bs m) c =
     (if (c, True) \<in> set bs then Some (f c) else map_of m c)"
proof (induction bs arbitrary: m)
  case (Cons x bs)
  obtain b up where "x = (b, up)" by (cases x)
  with Cons show ?case by (cases up) (auto simp: gomap_simps)
qed simp

lemma rebuild_wf: "wf_map m \<Longrightarrow> wf_map (fold (\<lambda>(b, up) m. if up then put b (f b) m else m) bs m)"
  by (induction bs arbitrary: m) (simp_all add: split_def)

lemma rebuild_counts_ok:
  assumes ok: "pg_ok s"
  shows "pg_ok (rebuild_counts s)"
proof -
  note okD = pg_okD [OF ok]
  have "sum_weight (pg_assignments s) b = load (pg_assignments s) b" for b
    by (rule sum_weight_load) (use okD(2) in auto)
  then show ?thesis
    by (intro pg_okI) (use okD in \<open>auto simp: rebuild_counts_def rebuild_fold rebuild_wf pg_wf_def split: if_splits\<close>)
qed

lemma exec_ok:
  "once (pv_net E) \<Longrightarrow> pg_ok s \<Longrightarrow> pg_ok (snd (f s)) \<Longrightarrow> pg_ok (snd (exec E n f s))"
  by (rule exec_keeps)

lemma pg_step_ok:
  assumes ok: "pg_ok s" and g: "pg_guard (E, ev) s"
  shows "pg_ok (pg_step (E, ev) s)"
proof -
  have o: "once (pv_net E)" using g by (cases ev) simp_all
  show ?thesis
  proof (cases ev)
    case (PgAssign now k)
    obtain r s1 where c: "exec E 2 (assign_tx E now k) s = (r, s1)" by (cases "exec E 2 (assign_tx E now k) s")
    have s1: "pg_ok s1" using exec_ok [OF o ok, of "assign_tx E now k" 2] assign_tx_ok [OF ok] c by simp
    have "snd (Postgres_GetAssignment E k s1) = s1"
      using exec_reads(1) [OF o, of 1 "\<lambda>s. pg_tab s k" s1]
      by (auto simp: Postgres_GetAssignment_def split: prod.splits option.splits)
    with s1 c PgAssign show ?thesis
      by (simp add: Postgres_AssignLeastLoaded_def split: option.split assign_result.split)
  next
    case (PgBulkAssign now es)
    let ?n = "1 + 3 * length es"
    have "pg_ok (snd (exec E ?n (bulk_assign_tx now es) s))"
      by (rule exec_ok [OF o ok]) (rule bulk_assign_tx_ok [OF ok], use g PgBulkAssign in simp_all)
    with PgBulkAssign ok show ?thesis
      by (cases "exec E ?n (bulk_assign_tx now es) s") (simp add: Postgres_BulkAssign_def split: option.split)
  next
    case (PgBulkDelete ks)
    have "pg_ok (snd (exec E (length ks) (bulk_delete_tx ks) s))"
      by (rule exec_ok [OF o ok]) (rule bulk_delete_tx_ok [OF ok])
    with PgBulkDelete ok show ?thesis by (simp add: Postgres_BulkDeleteAssignments_def)
  next
    case (PgAdd b)
    show ?thesis
    proof (cases rule: AddBackend_cases [of E b s])
      case 1
      have "pg_ok (snd (exec E 1 (upsert_backend b) s))" by (rule exec_ok [OF o ok]) (rule registry_ok(1) [OF ok])
      with PgAdd 1 show ?thesis by simp
    next
      case (2 u s1)
      have "pg_ok (snd (exec E 1 (upsert_backend b) s))" by (rule exec_ok [OF o ok]) (rule registry_ok(1) [OF ok])
      with 2(1) have s1: "pg_ok s1" by simp
      have "pg_ok (snd (exec E 1 (insert_count b) s1))" by (rule exec_ok [OF o s1]) (rule registry_ok(2) [OF s1])
      with PgAdd 2(2) show ?thesis by simp
    qed
  next
    case (PgRemove b)
    have "pg_ok (snd (exec E 1 (set_unhealthy b) s))" by (rule exec_ok [OF o ok]) (rule registry_ok(3) [OF ok])
    with PgRemove show ?thesis by (simp add: Postgres_RemoveBackend_def)
  next
    case PgMigrate
    have "pg_ok (snd (exec E 0 (\<lambda>s. ((), rebuild_counts s)) s))"
      by (rule exec_ok [OF o ok]) (simp add: rebuild_counts_ok [OF ok])
    with PgMigrate show ?thesis by (simp add: migrate_def)
  qed
qed

text \<open>
  C7: The weight counters of the PostgreSQL store do not drift as long as backends get their
  counters. From a state in which they agree with the table, over any history of
  assignments, bulk assignments that only name backends with a counter, bulk deletions (also of repeated keys), registrations, removals and
  migrations, each of them refused, executed, or executed with its reply lost, every counter
  is the total effective weight of the assignments that name its backend, and every
  assigned backend has one. A bulk assignment to a backend whose registration stopped half way
  is the case that is excluded (\<open>postgres_half_added_drifts\<close>).
\<close>

theorem postgres_counts_never_drift:
  assumes "pg_ok s" and "pg_guarded evs s"
  shows "pg_ok (fold pg_step evs s)"
  using assms
proof (induction evs arbitrary: s)
  case (Cons x evs)
  obtain E ev where x: "x = (E, ev)" by (cases x)
  have "pg_ok (pg_step x s)" unfolding x by (rule pg_step_ok) (use Cons.prems x in simp_all)
  with Cons show ?case by simp
qed simp

text \<open>A database with two backends and one user; a connection that works and one that loses every reply.\<close>

definition demo_pg :: pg where
  "demo_pg = \<lparr>pg_backends = [(''b1'', True), (''b2'', True)], pg_assignments = [(''u'', new_assignment 0 ''b1'' 3)],
     pg_counts = [(''b1'', 3), (''b2'', 0)]\<rparr>"

definition good_env :: pg_env where
  "good_env = \<lparr>pv_net = (\<lambda>s. (1, True, s)), pv_locked = (\<lambda>_. []), pv_maxParams = 65535\<rparr>"

definition deaf_env :: pg_env where
  "deaf_env = \<lparr>pv_net = (\<lambda>s. (1, False, s)), pv_locked = (\<lambda>_. [''b2'']), pv_maxParams = 65535\<rparr>"

lemma demo_pg_ok: "pg_ok demo_pg" "once (pv_net good_env)" "once (pv_net deaf_env)" "pg_inv good_env demo_pg"
proof -
  show "pg_ok demo_pg"
    by (rule pg_okI) (auto simp: demo_pg_def pg_wf_def new_assignment_def load_def EffectiveWeight_def split: if_splits)
  then show "pg_inv good_env demo_pg" by (simp add: pg_ok_def pg_inv_def once_def good_env_def)
qed (simp_all add: once_def good_env_def deaf_env_def)

theorem postgres_counts_never_drift_witness:
  "pg_ok (fold pg_step [(good_env, PgAssign 5 ''v''), (deaf_env, PgBulkDelete [''u'', ''u'']), (deaf_env, PgAdd ''b3'')] demo_pg)"
  by (rule postgres_counts_never_drift [OF demo_pg_ok(1)]) (simp add: demo_pg_ok)

section \<open>Choosing a backend\<close>

text \<open>The rows that take part: all healthy ones that nobody has locked, or all healthy ones if there is none.\<close>

definition eligible :: "string list \<Rightarrow> pg \<Rightarrow> string set" where
  "eligible locked s =
     (let rows = {b. healthy s b \<and> map_of (pg_counts s) b \<noteq> None}
      in if rows \<subseteq> set locked then rows else rows - set locked)"

lemma select_backend_least:
  assumes ok: "pg_ok s" and sel: "select_backend locked s = Some b"
  shows "b \<in> eligible locked s" and "c \<in> eligible locked s \<Longrightarrow> load (pg_assignments s) b \<le> load (pg_assignments s) c"
proof -
  let ?rows = "filter (\<lambda>(b, w). healthy s b) (pg_counts s)"
  let ?free = "filter (\<lambda>(b, w). b \<notin> set locked) ?rows"
  have wf: "wf_map (pg_counts s)" using pg_okD(1) [OF ok] by (simp add: pg_wf_def)
  define rows where "rows = (if ?free = [] then ?rows else ?free)"
  have l: "least_row rows = Some b"
    using sel least_row_min(1) [of ?free] by (auto simp: select_backend_def Let_def rows_def split: option.splits)
  have free: "?free = [] \<longleftrightarrow> {b. healthy s b \<and> map_of (pg_counts s) b \<noteq> None} \<subseteq> set locked"
    using map_of_eq_Some_wf [OF wf] by (fastforce simp: filter_empty_conv)
  have el: "c \<in> eligible locked s \<longleftrightarrow> (\<exists>w. (c, w) \<in> set rows)" for c
    unfolding eligible_def Let_def free [symmetric] rows_def
    by (auto simp: map_of_eq_Some_wf [OF wf])
  have w: "w = load (pg_assignments s) c" if "(c, w) \<in> set rows" for c w
    using that pg_okD(4) [OF ok, of c w] map_of_eq_Some_wf [OF wf, of c w] by (auto simp: rows_def split: if_splits)
  obtain v where v: "(b, v) \<in> set rows" "\<forall>(c, x) \<in> set rows. v \<le> x" using least_row_min(2) [OF l] by blast
  show "b \<in> eligible locked s" using el v(1) by blast
  show "load (pg_assignments s) b \<le> load (pg_assignments s) c" if "c \<in> eligible locked s"
    using that el v w by fastforce
qed

lemma pg_assign_answer:
  assumes "\<And>s. pv_net E s = (1, True, s)" and "2 \<le> pv_maxParams E" and "eligible (pv_locked E s) s \<noteq> {}" and "pg_ok s"
  shows "\<exists>a s'. Postgres_AssignLeastLoaded E now k s = (Inr a, s')"
proof -
  let ?rows = "filter (\<lambda>(b, w). healthy s b) (pg_counts s)"
  have ex: "exec E n f t = (Some (fst (f t)), snd (f t))" if "n \<le> 2" for n t and f :: "pg \<Rightarrow> 'a \<times> pg"
    using that assms(1, 2) by (simp add: exec_def call_def Let_def split_def)
  have ex': "exec E n f t = (Some (fst (f t)), snd (f t))" if "n \<le> 2" for n t and f :: "pg \<Rightarrow> assignment option \<times> pg"
    using that assms(1, 2) by (simp add: exec_def call_def Let_def split_def)
  have "?rows \<noteq> []"
    using assms(3, 4) map_of_eq_Some_wf [of "pg_counts s"]
    by (fastforce simp: eligible_def Let_def filter_empty_conv pg_ok_def pg_wf_def split: if_splits)
  then have "select_backend (pv_locked E s) s \<noteq> None"
    using least_row_min(1) [of ?rows]
    by (cases "least_row (filter (\<lambda>(b, w). b \<notin> set (pv_locked E s)) ?rows)") (simp_all add: select_backend_def Let_def)
  then obtain b where "select_backend (pv_locked E s) s = Some b" by blast
  then show ?thesis
    using ex [of 2 "assign_tx E now k" s] ex' [of 1 "\<lambda>s. (pg_tab s k, s)"]
    by (cases "pg_tab s k") (simp_all add: Postgres_AssignLeastLoaded_def Postgres_GetAssignment_def assign_tx_def Let_def)
qed

text \<open>
  C8: An assignment through PostgreSQL is least loaded and permanent. A routing key without
  assignment gets, with weight one, a registered backend of minimal load among those whose
  counter no concurrent transaction has locked (among all if all are locked), and nothing
  else in the table changes. A key that has an assignment gets the same answer as before,
  and no table changes, even if its backend has been removed from the registry.
\<close>

theorem postgres_assign_least_loaded:
  assumes "pg_ok s" and "once (pv_net E)" and "Postgres_AssignLeastLoaded E now k s = (Inr a, s')"
  shows "case pg_tab s k of
      Some a0 \<Rightarrow> a = a0 \<and> s' = s
    | None \<Rightarrow> a = new_assignment now (Backend a) 1 \<and> Backend a \<in> eligible (pv_locked E s) s \<and>
        (\<forall>c \<in> eligible (pv_locked E s) s. load (pg_assignments s) (Backend a) \<le> load (pg_assignments s) c) \<and>
        pg_tab s' = (pg_tab s)(k \<mapsto> a) \<and> pg_backends s' = pg_backends s \<and> pg_ok s'"
proof (cases "pg_tab s k")
  case (Some a0)
  have "pg_inv E s" using assms(1, 2) by (simp add: pg_inv_def pg_ok_def)
  from Postgres_assign(2) [OF this assms(3) Some] Some show ?thesis by simp
next
  case None
  obtain r s1 where c: "exec E 2 (assign_tx E now k) s = (Some r, s1)"
    using assms(3) by (cases "exec E 2 (assign_tx E now k) s"; cases "fst (exec E 2 (assign_tx E now k) s)")
      (auto simp: Postgres_AssignLeastLoaded_def)
  note tx = exec_Some [OF assms(2) c]
  show ?thesis
  proof (cases rule: assign_tx_cases [OF tx, case_names none kept new])
    case (new b)
    have "a = new_assignment now b 1" "s' = s1"
      using assms(3) c new(3) by (simp_all add: Postgres_AssignLeastLoaded_def)
    moreover have "pg_ok s1" using assign_tx_ok [OF assms(1), of E now k] tx by simp
    ultimately show ?thesis
      using None select_backend_least [OF assms(1) new(1)] new
        assign_tx_effect(2) [OF pg_okD(1) [OF assms(1)] tx] assign_tx_effect(5) [OF pg_okD(1) [OF assms(1)] tx, of a] by simp
  next
    case kept
    with None show ?thesis by simp
  next
    case none
    with c assms(3) show ?thesis by (simp add: Postgres_AssignLeastLoaded_def)
  qed
qed

theorem postgres_assign_least_loaded_witness:
  "case Postgres_AssignLeastLoaded good_env 5 ''v'' demo_pg of
     (Inr a, s') \<Rightarrow> Backend a = ''b2'' \<and> load (pg_assignments demo_pg) ''b2'' \<le> load (pg_assignments demo_pg) ''b1'' | _ \<Rightarrow> False"
proof -
  have r: "Postgres_AssignLeastLoaded good_env 5 ''v'' demo_pg = (Inr (new_assignment 5 ''b2'' 1),
      snd (Postgres_AssignLeastLoaded good_env 5 ''v'' demo_pg))"
    by (simp add: Postgres_AssignLeastLoaded_def exec_def call_def good_env_def demo_pg_def assign_tx_def
        select_backend_def healthy_def new_assignment_def Let_def)
  have "''b1'' \<in> eligible (pv_locked good_env demo_pg) demo_pg" "pg_tab demo_pg ''v'' = None"
    by (auto simp: eligible_def healthy_def good_env_def demo_pg_def Let_def)
  with postgres_assign_least_loaded [OF demo_pg_ok(1, 2) r] show ?thesis by (subst r) simp
qed

section \<open>Where the guarantees end\<close>

text \<open>
  Registering a backend is two statements. When the second one fails the backend is active
  without a counter: it never takes part in the choice above, a bulk assignment to it is not
  counted, and a later registration starts its counter at zero.
\<close>

lemma postgres_half_added_drifts:
  assumes fresh: "map_of (pg_counts s) b = None" "pg_tab s u = None" "load (pg_assignments s) b = 0"
    and E: "pv_net E s = (1, True, s)" "pv_net E (snd (upsert_backend b s)) = (0, False, snd (upsert_backend b s))" "1 \<le> pv_maxParams E"
    and G: "\<And>s. pv_net G s = (1, True, s)" "4 \<le> pv_maxParams G"
  obtains s1 s2 s3 where "Postgres_AddBackend E b s = (Some ErrUnavailable, s1)" and "healthy s1 b"
    and "Postgres_BulkAssign G now [(u, \<lparr>EntryBackend = b, EntryWeight = w\<rparr>)] s1 = (([(u, b)], None), s2)"
    and "Postgres_AddBackend G b s2 = (None, s3)"
    and "map_of (pg_counts s3) b = Some 0" and "load (pg_assignments s3) b = norm_weight w"
proof -
  let ?s1 = "snd (upsert_backend b s)" and ?es = "[(u, \<lparr>EntryBackend = b, EntryWeight = w\<rparr>)]"
  let ?s2 = "snd (bulk_assign_tx now ?es ?s1)"
  have good: "exec G n f t = (Some (fst (f t)), snd (f t))" if "n \<le> 4" for n t and f :: "pg \<Rightarrow> unit \<times> pg"
    using that G by (simp add: exec_def call_def Let_def split_def)
  have 1: "Postgres_AddBackend E b s = (Some ErrUnavailable, ?s1)"
    using E by (simp add: Postgres_AddBackend_def exec_def call_def upsert_backend_def status_of_def)
  have 2: "Postgres_BulkAssign G now ?es ?s1 = (([(u, b)], None), ?s2)"
    using G fresh(2) by (simp add: Postgres_BulkAssign_def exec_def call_def bulk_assign_tx_def bulk_items_def upsert_backend_def Let_def)
  have 3: "Postgres_AddBackend G b ?s2 = (None, snd (insert_count b (snd (upsert_backend b ?s2))))"
    by (simp add: Postgres_AddBackend_def good status_of_def)
  have s2: "pg_counts ?s2 = fold (\<lambda>(b, d). bump b d) (add_counts [(b, norm_weight w)]) (pg_counts s)"
    "pg_assignments ?s2 = pg_assignments s @ [(u, new_assignment now b (norm_weight w))]"
    using fresh(2) by (simp_all add: bulk_assign_tx_def bulk_items_def upsert_backend_def new_entry_def Let_def)
  show thesis
  proof (rule that [OF 1 _ 2 3])
    show "healthy ?s1 b" by (simp add: healthy_def upsert_backend_def gomap_simps)
    show "map_of (pg_counts (snd (insert_count b (snd (upsert_backend b ?s2))))) b = Some 0"
      using s2(1) fresh(1) by (simp add: registry_statements gomap_simps add_counts_fold)
    show "load (pg_assignments (snd (insert_count b (snd (upsert_backend b ?s2))))) b = norm_weight w"
      using s2(2) fresh(3) by (simp add: registry_statements load_append) (simp add: load_def)
  qed
qed

text \<open>A bulk assignment has three parameters per entry; past the limit it fails as a whole.\<close>

lemma postgres_bulk_limit:
  assumes "pv_maxParams E \<le> 3 * length es" and "es \<noteq> []"
  shows "Postgres_BulkAssign E now es s = (([], Some ErrUnavailable), s)"
  using assms by (simp add: Postgres_BulkAssign_def exec_def)

end
