(* ===== verification/Postgres_Transitions.thy ===== *)
theory Postgres_Transitions
  imports Postgres_Counts Drain_Manager
begin

text \<open>
  Drains on the PostgreSQL store, through the contract that it shares with Redis, and the
  locker built on advisory locks (store_postgres.go, \<^verbatim>\<open>PostgresDistributedLocker\<close>).
\<close>

section \<open>A drain that works\<close>

definition good_net :: "pg_env \<Rightarrow> bool" where
  "good_net E \<longleftrightarrow> (\<forall>s. pv_net E s = (1, True, s))"

lemma good_once: "good_net E \<Longrightarrow> once (pv_net E)"
  by (simp add: good_net_def once_def)

lemma exec_good: "good_net E \<Longrightarrow> n \<le> pv_maxParams E \<Longrightarrow> exec E n f s = (Some (fst (f s)), snd (f s))"
  by (simp add: good_net_def exec_def call_def Let_def split_def)

lemma exec_limit: "pv_maxParams E < n \<Longrightarrow> exec E n f s = (None, s)"
  by (simp add: exec_def)

text \<open>What a drain with a working connection asks of the database.\<close>

lemma good_drain_calls:
  fixes b :: string and s :: pg
  assumes "good_net E" and "1 \<le> pv_maxParams E"
  defines "us \<equiv> map fst (filter (\<lambda>(k, a). Backend a = b) (pg_assignments s))"
  shows "GetBackendUsers (postgres_store E) b s = Some (Inr us, s)"
    and "us \<noteq> [] \<Longrightarrow> BulkDeleteAssignments (postgres_store E) us s =
      (if length us \<le> pv_maxParams E then (None, snd (bulk_delete_tx us s)) else (Some ErrUnavailable, s))"
    and "RemoveBackend (postgres_store E) b t = (None, snd (set_unhealthy b t))"
  using assms(1, 2)
  by (simp_all add: postgres_store_def Postgres_GetBackendUsers_def Postgres_BulkDeleteAssignments_def
      Postgres_RemoveBackend_def exec_good exec_limit status_of_def us_def)

lemma postgres_drain:
  fixes b :: string
  assumes E: "good_net E" "1 \<le> pv_maxParams E" and ok: "pg_wf (w_store w)"
    and dp: "d_store dp = postgres_store E" "d_routingMode dp = ''assignment''"
    and few: "length (filter (\<lambda>(k, a). Backend a = b) (pg_assignments (w_store w))) \<le> pv_maxParams E"
  obtains w' where "drain_body dp now b w = Some w'" and "pg_act (w_store w') = pg_act (w_store w) - {b}"
    and "\<And>k. pg_tab (w_store w') k =
      (case pg_tab (w_store w) k of None \<Rightarrow> None | Some a \<Rightarrow> if Backend a = b then None else Some a)"
proof -
  let ?s = "w_store w"
  let ?us = "map fst (filter (\<lambda>(k, a). Backend a = b) (pg_assignments ?s))"
  let ?s2 = "if ?us = [] then ?s else snd (bulk_delete_tx ?us ?s)"
  have inv: "pg_inv E ?s" using ok good_once [OF E(1)] by (simp add: pg_inv_def)
  note c = good_drain_calls(1) [OF E, of b ?s] good_drain_calls(2) [OF E, of b ?s] good_drain_calls(3) [OF E, of b ?s2]
  have del: "BulkDeleteAssignments (postgres_store E) ?us ?s = (None, ?s2)" if "?us \<noteq> []"
    using c(2) [OF that] few that by simp
  have nodel: "?us = [] \<Longrightarrow> ?s2 = ?s" by simp
  note d = assignment_store.drain_body_result [OF pstore.assignment_store_axioms dp inv c(1) del nodel c(3)]
  let ?w = "drain_remove dp b ?us (drain_users dp b ?us (w\<lparr>w_store := ?s\<rparr>))" and ?s3 = "snd (set_unhealthy b ?s2)"
  have "drain_body dp now b w = Some ?w" by (rule d(1))
  moreover have "w_store ?w = ?s3" by (rule d(2))
  moreover have "pg_act ?s3 = pg_act ?s - {b}" by (rule d(4))
  moreover have "pg_tab ?s3 k = (case pg_tab ?s k of None \<Rightarrow> None | Some a \<Rightarrow> if Backend a = b then None else Some a)" for k
    by (rule d(5))
  ultimately show thesis using that [of ?w] by presburger
qed

section \<open>A drain that strands its users\<close>

text \<open>Assignments are permanent: requests of any user leave the binding of a user alone.\<close>

lemma binding_kept:
  assumes "good_net E" and "2 \<le> pv_maxParams E" and "pg_ok s" and "pg_tab s u = Some a"
    and "eligible (pv_locked E s) s \<noteq> {}"
  shows "Postgres_AssignLeastLoaded E now u s = (Inr a, s)"
proof -
  obtain a' s' where r: "Postgres_AssignLeastLoaded E now u s = (Inr a', s')"
    using pg_assign_answer [of E s now u] assms by (auto simp: good_net_def)
  have "pg_inv E s" using assms(1, 3) good_once by (simp add: pg_inv_def pg_ok_def)
  from Postgres_assign(2) [OF this r assms(4)] r show ?thesis by simp
qed

text \<open>
  C37: A drain of a large backend strands its users. With more users on a backend than a
  statement may have parameters the bulk deletion fails, the drain goes on and takes the
  backend out of the registry, and every later request of each of these users is still
  assigned to the removed backend, as long as some other backend is up.
\<close>

theorem postgres_drain_strands_users:
  fixes b :: string
  assumes "good_net E" and "2 \<le> pv_maxParams E" and "pg_ok (w_store w)"
    and "d_store dp = postgres_store E" and "d_routingMode dp = ''assignment''"
    and "pv_maxParams E < length (filter (\<lambda>(k, a). Backend a = b) (pg_assignments (w_store w)))"
    and "eligible (pv_locked E (snd (set_unhealthy b (w_store w)))) (snd (set_unhealthy b (w_store w))) \<noteq> {}"
  shows "\<exists>w'. drain_body dp now b w = Some w' \<and> b \<notin> pg_act (w_store w') \<and>
    (\<forall>u a. pg_tab (w_store w) u = Some a \<longrightarrow> Backend a = b \<longrightarrow>
       Postgres_AssignLeastLoaded E later u (w_store w') = (Inr a, w_store w'))"
proof -
  let ?s = "w_store w"
  let ?us = "map fst (filter (\<lambda>(k, a). Backend a = b) (pg_assignments ?s))"
  let ?w = "drain_remove dp b ?us (drain_users dp b ?us (w\<lparr>w_store := ?s\<rparr>))"
  have E: "good_net E" "1 \<le> pv_maxParams E" using assms(1, 2) by simp_all
  note c = good_drain_calls(1) [OF E, of b ?s] good_drain_calls(2) [OF E, of b ?s] good_drain_calls(3) [OF E, of b]
  have ne: "?us \<noteq> []" and long: "\<not> length ?us \<le> pv_maxParams E" using assms(6) by auto
  have d: "BulkDeleteAssignments (postgres_store E) ?us ?s = (Some ErrUnavailable, ?s)" using c(2) [OF ne] long by simp
  have body: "drain_body dp now b w = Some ?w"
    using assms(4, 5) c(1) by (simp add: drain_body_def affected_users_def)
  have s': "w_store ?w = snd (set_unhealthy b ?s)"
    using drain_store [OF assms(5), of b ?us "w\<lparr>w_store := ?s\<rparr>"] d ne c(3) [of ?s] assms(4) by simp
  have ok': "pg_ok (snd (set_unhealthy b ?s))" by (rule registry_ok(3) [OF assms(3)])
  have gone: "b \<notin> pg_act (snd (set_unhealthy b ?s))"
    by (simp add: healthy_def registry_statements map_of_remove del: map_map)
  have "Postgres_AssignLeastLoaded E later u (snd (set_unhealthy b ?s)) = (Inr a, snd (set_unhealthy b ?s))"
    if "pg_tab ?s u = Some a" for u a
    by (rule binding_kept [OF assms(1, 2) ok' _ assms(7)]) (use that in \<open>simp add: set_unhealthy_def\<close>)
  with body s' gone show ?thesis by simp
qed

definition small_env :: pg_env where
  "small_env = \<lparr>pv_net = (\<lambda>s. (1, True, s)), pv_locked = (\<lambda>_. []), pv_maxParams = 2\<rparr>"

definition crowded_pg :: pg where
  "crowded_pg = \<lparr>pg_backends = [(''b1'', True), (''b2'', True)],
     pg_assignments = [(''u'', new_assignment 0 ''b1'' 1), (''v'', new_assignment 0 ''b1'' 1), (''x'', new_assignment 0 ''b1'' 1)],
     pg_counts = [(''b1'', 3), (''b2'', 0)]\<rparr>"

definition crowded_deps :: "pg deps" where
  "crowded_deps = \<lparr>d_store = postgres_store small_env, d_redis = None, d_routingMode = ''assignment'',
     d_hooks = True, d_connTracker = True, d_holdMgr = True, d_notifier = True, d_wsSwap = True\<rparr>"

definition crowded_world :: "pg world" where
  "crowded_world = \<lparr>w_store = crowded_pg, w_cache = NewUserCache 60, w_holds = NewHoldManager 5, w_conns = NewConnTracker,
     w_hooks = [], w_published = [], w_closed = [], w_swapped = []\<rparr>"

theorem postgres_drain_strands_users_witness:
  "\<exists>w'. drain_body crowded_deps 3 ''b1'' crowded_world = Some w' \<and> ''b1'' \<notin> pg_act (w_store w') \<and>
     Postgres_AssignLeastLoaded small_env 9 ''u'' (w_store w') = (Inr (new_assignment 0 ''b1'' 1), w_store w')"
proof -
  have "pg_ok crowded_pg"
    by (rule pg_okI) (auto simp: crowded_pg_def pg_wf_def new_assignment_def load_def EffectiveWeight_def split: if_splits)
  moreover have "''b2'' \<in> eligible (pv_locked small_env (snd (set_unhealthy ''b1'' crowded_pg))) (snd (set_unhealthy ''b1'' crowded_pg))"
    by (auto simp: eligible_def healthy_def small_env_def crowded_pg_def set_unhealthy_def Let_def)
  ultimately have "\<exists>w'. drain_body crowded_deps 3 ''b1'' crowded_world = Some w' \<and> ''b1'' \<notin> pg_act (w_store w') \<and>
    (\<forall>u a. pg_tab (w_store crowded_world) u = Some a \<longrightarrow> Backend a = ''b1'' \<longrightarrow>
       Postgres_AssignLeastLoaded small_env 9 u (w_store w') = (Inr a, w_store w'))"
    by (intro postgres_drain_strands_users)
       (auto simp: good_net_def small_env_def crowded_deps_def crowded_world_def crowded_pg_def)
  moreover have "pg_tab (w_store crowded_world) ''u'' = Some (new_assignment 0 ''b1'' 1)"
    by (simp add: crowded_world_def crowded_pg_def)
  ultimately show ?thesis by auto
qed

section \<open>The advisory locker\<close>

text \<open>
  The lock belongs to a database session and counts how often that session took it; \<open>pl_conn\<close>
  is the connection the locker keeps while it holds the lock. A statement fails without
  effect or is executed; \<open>conn\<close> is the connection the pool hands out, if it can.
\<close>

record pg_lock =
  pl_owner :: "(nat \<times> nat) option"
  pl_conn :: "nat option"

definition PG_TryLock :: "nat option \<Rightarrow> bool \<Rightarrow> pg_lock \<Rightarrow> (store_error + bool) \<times> pg_lock" where
  "PG_TryLock conn ok l =
     (case conn of
        None \<Rightarrow> (Inl ErrUnavailable, l)
      | Some c \<Rightarrow>
          if \<not> ok then (Inl ErrUnavailable, l)
          else (case pl_owner l of
                  None \<Rightarrow> (Inr True, l\<lparr>pl_owner := Some (c, 1), pl_conn := Some c\<rparr>)
                | Some (d, n) \<Rightarrow>
                    if d = c then (Inr True, l\<lparr>pl_owner := Some (c, Suc n), pl_conn := Some c\<rparr>)
                    else (Inr False, l)))"

definition PG_Unlock :: "bool \<Rightarrow> pg_lock \<Rightarrow> store_error option \<times> pg_lock" where
  "PG_Unlock ok l =
     (case pl_conn l of
        None \<Rightarrow> (None, l)
      | Some c \<Rightarrow>
          if \<not> ok then (Some ErrUnavailable, l\<lparr>pl_conn := None\<rparr>)
          else (None, l\<lparr>pl_conn := None, pl_owner := (case pl_owner l of
                  Some (d, Suc n) \<Rightarrow> if d = c then (if n = 0 then None else Some (d, n)) else Some (d, Suc n)
                | x \<Rightarrow> x)\<rparr>))"

lemma PG_lock_roundtrip:
  assumes "pl_owner l = None"
  shows "fst (PG_TryLock (Some c) True l) = Inr True"
    and "pl_owner (snd (PG_Unlock True (snd (PG_TryLock (Some c) True l)))) = None"
  using assms by (simp_all add: PG_TryLock_def PG_Unlock_def)

datatype lock_attempt = TryOn "nat option" bool | Release bool

fun attempt :: "lock_attempt \<Rightarrow> pg_lock \<Rightarrow> pg_lock" where
  "attempt (TryOn conn ok) l = snd (PG_TryLock conn ok l)"
| "attempt (Release ok) l = snd (PG_Unlock ok l)"

text \<open>
  A failed release leaks the lock. The locker forgets the connection, which goes back to the
  pool with the lock still taken: no release reaches it any more, and until the pool happens
  to hand out that very connection every attempt is refused.
\<close>

lemma advisory_lock_leaks:
  assumes "pl_conn l = Some c" and "pl_owner l = Some (c, n)"
    and "\<forall>x \<in> set xs. x \<noteq> TryOn (Some c) True"
  shows "pl_owner (fold attempt xs (snd (PG_Unlock False l))) = Some (c, n) \<and>
    (d \<noteq> c \<longrightarrow> fst (PG_TryLock (Some d) True (fold attempt xs (snd (PG_Unlock False l)))) = Inr False)"
proof -
  have "pl_owner (fold attempt xs m) = Some (c, n) \<and> pl_conn (fold attempt xs m) = None"
    if "pl_owner m = Some (c, n)" "pl_conn m = None" for m
    using assms(3) that
  proof (induction xs arbitrary: m)
    case (Cons x xs)
    have "pl_owner (attempt x m) = Some (c, n) \<and> pl_conn (attempt x m) = None"
      using Cons.prems by (cases x) (auto simp: PG_TryLock_def PG_Unlock_def split: option.split)
    with Cons show ?case by simp
  qed simp
  from this [of "snd (PG_Unlock False l)"] assms(1, 2) show ?thesis
    by (simp add: PG_Unlock_def PG_TryLock_def)
qed

end
