(* ===== verification/Cache_Notifier.thy ===== *)
theory Cache_Notifier
  imports Proxy_World
begin

text \<open>
  Invalidation events between replicas (cache_notifier.go, cache_notifier_postgres.go). The
  subscriber's callback puts an event into a buffer of 64; the loop of
  \<^verbatim>\<open>subscribeDebouncedNotifier\<close> collects the backends of a window and then invalidates them in
  the local cache. The three cases of its \<^verbatim>\<open>select\<close> and the callback are the events of a run;
  which of the enabled ones happens next is open. What the rest of the proxy does to the cache
  in between is an event too. \<^verbatim>\<open>publishNotification\<close> is in theory \<^verbatim>\<open>Proxy_World\<close>.
\<close>

record notifier =
  nf_ch :: "string list"
  nf_pending :: "(string, instant) gomap"
  nf_timer :: "instant option"
  nf_cache :: user_cache

definition event_buffer :: nat where
  "event_buffer = 64"

definition new_notifier :: "user_cache \<Rightarrow> notifier" where
  "new_notifier c = \<lparr>nf_ch = [], nf_pending = [], nf_timer = None, nf_cache = c\<rparr>"

text \<open>The callback: a full buffer drops the event.\<close>

definition onInvalidate :: "string \<Rightarrow> notifier \<Rightarrow> notifier" where
  "onInvalidate backend n =
     (if length (nf_ch n) < event_buffer then n\<lparr>nf_ch := nf_ch n @ [backend]\<rparr> else n)"

text \<open>
  The cases of the \<^verbatim>\<open>select\<close>, \<^const>\<open>None\<close> where a case is not ready. The pending set also
  records when each backend was collected.
\<close>

definition take_event :: "duration \<Rightarrow> instant \<Rightarrow> notifier \<Rightarrow> notifier option" where
  "take_event window now n =
     (case nf_ch n of
        [] \<Rightarrow> None
      | backend # rest \<Rightarrow>
          Some (n\<lparr>nf_ch := rest,
            nf_pending := (if map_of (nf_pending n) backend = None then put backend now (nf_pending n) else nf_pending n),
            nf_timer := (case nf_timer n of None \<Rightarrow> Some (now + window) | Some d \<Rightarrow> Some d)\<rparr>))"

definition fire_timer :: "instant \<Rightarrow> notifier \<Rightarrow> notifier option" where
  "fire_timer now n =
     (case nf_timer n of
        None \<Rightarrow> None
      | Some d \<Rightarrow>
          if d \<le> now
          then Some (n\<lparr>nf_cache := fold InvalidateBackend (keys (nf_pending n)) (nf_cache n), nf_pending := [], nf_timer := None\<rparr>)
          else None)"

datatype notifier_event = Notified string | TakeEvent | Fire | Elsewhere user_cache

fun nf_step :: "duration \<Rightarrow> instant \<times> notifier_event \<Rightarrow> notifier \<Rightarrow> notifier option" where
  "nf_step window (t, Notified b) n = Some (onInvalidate b n)"
| "nf_step window (t, TakeEvent) n = take_event window t n"
| "nf_step window (t, Fire) n = fire_timer t n"
| "nf_step window (t, Elsewhere c) n = (if uc_wf c then Some (n\<lparr>nf_cache := c\<rparr>) else None)"

fun nf_run :: "duration \<Rightarrow> (instant \<times> notifier_event) list \<Rightarrow> notifier \<Rightarrow> notifier option" where
  "nf_run window [] n = Some n"
| "nf_run window (e # es) n = (case nf_step window e n of None \<Rightarrow> None | Some n \<Rightarrow> nf_run window es n)"

section \<open>Sources of events\<close>

text \<open>
  The Redis subscriber hands every message of its channel to the callback. The PostgreSQL
  subscriber listens in sessions, one after the other: a session that cannot connect or
  listen delivers nothing, one that is lost delivers what came before.
\<close>

definition Redis_Subscribe :: "string list \<Rightarrow> notifier \<Rightarrow> notifier" where
  "Redis_Subscribe payloads n = fold onInvalidate payloads n"

record pg_session =
  ps_connected :: bool
  ps_listening :: bool
  ps_notifications :: "string list"

definition PG_listen :: "pg_session \<Rightarrow> notifier \<Rightarrow> notifier" where
  "PG_listen x n = (if ps_connected x \<and> ps_listening x then fold onInvalidate (ps_notifications x) n else n)"

definition PG_Subscribe :: "pg_session list \<Rightarrow> notifier \<Rightarrow> notifier" where
  "PG_Subscribe xs n = fold PG_listen xs n"

lemma buffer_bounded:
  assumes "length (nf_ch n) \<le> event_buffer"
  shows "length (nf_ch (fold onInvalidate bs n)) \<le> event_buffer"
    and "nf_ch (fold onInvalidate bs n) = nf_ch n @ take (event_buffer - length (nf_ch n)) bs"
proof -
  show "length (nf_ch (fold onInvalidate bs n)) \<le> event_buffer"
    using assms by (induction bs arbitrary: n) (simp_all add: onInvalidate_def)
  show "nf_ch (fold onInvalidate bs n) = nf_ch n @ take (event_buffer - length (nf_ch n)) bs"
    using assms
  proof (induction bs arbitrary: n)
    case (Cons b bs)
    show ?case
    proof (cases "length (nf_ch n) < event_buffer")
      case True
      with Cons.IH [of "onInvalidate b n"] show ?thesis
        by (simp add: onInvalidate_def take_Cons split: nat.split) (metis Suc_diff_Suc Suc_inject)
    next
      case False
      with Cons.IH [of n] Cons.prems show ?thesis by (simp add: onInvalidate_def)
    qed
  qed simp
qed

section \<open>The loop\<close>

text \<open>
  The timer of a window runs out at the latest one window from now, and one window after each
  pending backend was collected.
\<close>

definition nf_inv :: "duration \<Rightarrow> instant \<Rightarrow> notifier \<Rightarrow> bool" where
  "nf_inv window now n \<longleftrightarrow> length (nf_ch n) \<le> event_buffer \<and> wf_map (nf_pending n) \<and> uc_wf (nf_cache n) \<and>
     (\<forall>d. nf_timer n = Some d \<longrightarrow> d \<le> now + window) \<and>
     (\<forall>(b, t) \<in> set (nf_pending n). \<exists>d. nf_timer n = Some d \<and> d \<le> t + window)"

lemma nf_inv_init: "uc_wf c \<Longrightarrow> nf_inv window now (new_notifier c)"
  by (simp add: nf_inv_def new_notifier_def)

lemma uc_wf_fold_Invalidate [simp]: "uc_wf c \<Longrightarrow> uc_wf (fold InvalidateBackend bs c)"
  by (induction bs arbitrary: c) simp_all

lemma cached_fold_InvalidateBackend:
  "uc_wf c \<Longrightarrow> cached (fold InvalidateBackend bs c) t u =
     (case cached c t u of None \<Rightarrow> None | Some b \<Rightarrow> if b \<in> set bs then None else Some b)"
proof (induction bs arbitrary: c)
  case (Cons b bs)
  then show ?case by (simp add: cached_InvalidateBackend split: option.split)
qed (simp split: option.split)

lemma set_put_fresh: "map_of m k = None \<Longrightarrow> set (put k v m) = insert (k, v) (set m)"
  by (induction m) auto

lemma nf_step_inv:
  assumes "nf_inv window now n" and "now \<le> t" and "nf_step window (t, e) n = Some n'"
  shows "nf_inv window t n'"
proof -
  have later: "nf_inv window t n" using assms(1, 2) by (auto simp: nf_inv_def)
  show ?thesis
  proof (cases e)
    case TakeEvent
    obtain b rest where ch: "nf_ch n = b # rest" using TakeEvent assms(3) by (auto simp: take_event_def split: list.splits)
    have none: "nf_timer n = None \<Longrightarrow> nf_pending n = []"
      using later by (cases "nf_pending n") (auto simp: nf_inv_def)
    show ?thesis
      using later TakeEvent assms(3) ch none
      by (auto simp: nf_inv_def take_event_def set_put_fresh split: option.splits if_splits)
  qed (use later assms(3) in \<open>auto simp: nf_inv_def onInvalidate_def fire_timer_def split: option.splits if_splits\<close>)
qed

lemma nf_step_keeps_event:
  assumes "nf_step window (t, e) n = Some n'" and "b \<in> set (nf_ch n) \<or> map_of (nf_pending n) b \<noteq> None"
  shows "(b \<in> set (nf_ch n') \<or> map_of (nf_pending n') b \<noteq> None) \<or> e = Fire \<and> map_of (nf_pending n) b \<noteq> None"
proof (cases e)
  case TakeEvent
  with assms show ?thesis by (cases "nf_ch n") (auto simp: take_event_def gomap_simps split: if_splits)
next
  case Fire
  with assms show ?thesis by (auto simp: fire_timer_def split: option.splits if_splits)
qed (use assms in \<open>auto simp: onInvalidate_def split: if_splits\<close>)

lemma nf_run_keeps_event:
  assumes "nf_run window es n = Some n'" and "b \<in> set (nf_ch n) \<or> map_of (nf_pending n) b \<noteq> None"
  shows "(b \<in> set (nf_ch n') \<or> map_of (nf_pending n') b \<noteq> None) \<or>
    (\<exists>es1 t es2 m. es = es1 @ (t, Fire) # es2 \<and> nf_run window es1 n = Some m \<and> map_of (nf_pending m) b \<noteq> None)"
  using assms
proof (induction es arbitrary: n)
  case (Cons e es)
  obtain t ev where e: "e = (t, ev)" by (cases e)
  obtain n1 where n1: "nf_step window (t, ev) n = Some n1" "nf_run window es n1 = Some n'"
    using Cons.prems(1) e by (auto split: option.splits)
  from nf_step_keeps_event [OF n1(1) Cons.prems(2)]
  show ?case
  proof
    assume "b \<in> set (nf_ch n1) \<or> map_of (nf_pending n1) b \<noteq> None"
    from Cons.IH [OF n1(2) this] show ?thesis
    proof
      assume "\<exists>es1 t es2 m. es = es1 @ (t, Fire) # es2 \<and> nf_run window es1 n1 = Some m \<and> map_of (nf_pending m) b \<noteq> None"
      then obtain es1 t' es2 m where "es = es1 @ (t', Fire) # es2" "nf_run window es1 n1 = Some m" "map_of (nf_pending m) b \<noteq> None"
        by blast
      then have "e # es = (e # es1) @ (t', Fire) # es2" "nf_run window (e # es1) n = Some m" "map_of (nf_pending m) b \<noteq> None"
        using n1(1) e by simp_all
      then show ?thesis by blast
    qed simp
  next
    assume "ev = Fire \<and> map_of (nf_pending n) b \<noteq> None"
    then have "e # es = [] @ (t, Fire) # es" "nf_run window [] n = Some n" "map_of (nf_pending n) b \<noteq> None" using e by simp_all
    then show ?thesis by blast
  qed
qed simp

lemma nf_run_inv:
  assumes "nf_inv window now n" and "nf_run window es n = Some n'" and "sorted (now # map fst es)"
  shows "nf_inv window (last (now # map fst es)) n'"
  using assms
proof (induction es arbitrary: n now)
  case (Cons e es)
  obtain t ev where e: "e = (t, ev)" by (cases e)
  obtain n1 where n1: "nf_step window (t, ev) n = Some n1" "nf_run window es n1 = Some n'"
    using Cons.prems(2) e by (auto split: option.splits)
  have "nf_inv window t n1" using nf_step_inv [OF Cons.prems(1) _ n1(1)] Cons.prems(3) e by simp
  from Cons.IH [OF this n1(2)] Cons.prems(3) e show ?case by simp
qed simp

lemma fire_effect:
  assumes "nf_inv window now n" and "nf_step window (t, Fire) n = Some n'"
  shows "cached (nf_cache n') v u =
      (case cached (nf_cache n) v u of None \<Rightarrow> None | Some b \<Rightarrow> if map_of (nf_pending n) b \<noteq> None then None else Some b)"
    and "nf_pending n' = []"
proof -
  have n': "nf_cache n' = fold InvalidateBackend (keys (nf_pending n)) (nf_cache n)" "nf_pending n' = []"
    using assms(2) by (auto simp: fire_timer_def split: option.splits if_splits)
  have "uc_wf (nf_cache n)" using assms(1) by (simp add: nf_inv_def)
  with n' show "cached (nf_cache n') v u =
      (case cached (nf_cache n) v u of None \<Rightarrow> None | Some b \<Rightarrow> if map_of (nf_pending n) b \<noteq> None then None else Some b)"
    by (simp add: cached_fold_InvalidateBackend map_of_eq_None_iff split: option.split)
  show "nf_pending n' = []" by (rule n'(2))
qed

lemma nf_run_append: "nf_run window (es @ es') n = (case nf_run window es n of None \<Rightarrow> None | Some m \<Rightarrow> nf_run window es' m)"
  by (induction es arbitrary: n) (simp_all split: option.split)

text \<open>
  C21: An invalidation event that finds room in the buffer is not lost, and it takes effect
  within one window of being collected. After any run of the subscriber and the loop, other
  uses of the cache included, the event is still in the buffer, or its backend is pending and
  the timer runs out at most one window after it was collected, or the timer has fired since
  then with the effect that no cached user was left on the backend. Users of backends for
  which no event is pending are not touched by a firing timer.
\<close>

theorem notifier_applies_events:
  assumes inv: "nf_inv window now n" and room: "length (nf_ch n) < event_buffer"
    and run: "nf_run window ((now, Notified b) # es) n = Some n'" and times: "sorted (now # map fst es)"
  shows "b \<in> set (nf_ch n') \<or>
    (\<exists>t d. (b, t) \<in> set (nf_pending n') \<and> nf_timer n' = Some d \<and> d \<le> t + window) \<or>
    (\<exists>es1 t es2 m m'. es = es1 @ (t, Fire) # es2 \<and> nf_run window ((now, Notified b) # es1) n = Some m \<and>
       nf_step window (t, Fire) m = Some m' \<and>
       (\<forall>u v. cached (nf_cache m') v u =
          (case cached (nf_cache m) v u of None \<Rightarrow> None | Some c \<Rightarrow> if map_of (nf_pending m) c \<noteq> None then None else Some c)) \<and>
       (\<forall>u v. cached (nf_cache m') v u \<noteq> Some b))"
proof -
  let ?n = "onInvalidate b n"
  have inv0: "nf_inv window now ?n" using nf_step_inv [OF inv, of now "Notified b"] by simp
  have run0: "nf_run window es ?n = Some n'" using run by simp
  have b0: "b \<in> set (nf_ch ?n) \<or> map_of (nf_pending ?n) b \<noteq> None" using room by (simp add: onInvalidate_def)
  from nf_run_keeps_event [OF run0 b0] show ?thesis
  proof
    assume "b \<in> set (nf_ch n') \<or> map_of (nf_pending n') b \<noteq> None"
    moreover have "\<exists>t d. (b, t) \<in> set (nf_pending n') \<and> nf_timer n' = Some d \<and> d \<le> t + window" if "map_of (nf_pending n') b = Some t0" for t0
      using nf_run_inv [OF inv0 run0 times] map_of_SomeD [OF that] by (fastforce simp: nf_inv_def)
    ultimately show ?thesis by blast
  next
    assume "\<exists>es1 t es2 m. es = es1 @ (t, Fire) # es2 \<and> nf_run window es1 ?n = Some m \<and> map_of (nf_pending m) b \<noteq> None"
    then obtain es1 t es2 m where m: "es = es1 @ (t, Fire) # es2" "nf_run window es1 ?n = Some m" "map_of (nf_pending m) b \<noteq> None"
      by blast
    obtain m' where m': "nf_step window (t, Fire) m = Some m'"
      using run0 m(1, 2) by (auto simp: nf_run_append split: option.splits)
    have "sorted (now # map fst es1)" using times m(1) by (auto simp: sorted_append)
    note e = fire_effect(1) [OF nf_run_inv [OF inv0 m(2) this] m']
    have nb: "cached (nf_cache m') v u \<noteq> Some b" for u v
      using e [of v u] m(3) by (cases "cached (nf_cache m) v u") (auto split: if_splits)
    have "nf_run window ((now, Notified b) # es1) n = Some m" using m(2) by simp
    with m(1) m' e nb show ?thesis by blast
  qed
qed

theorem notifier_applies_events_witness:
  "\<exists>n'. nf_run 100 [(0, Notified ''b1''), (3, TakeEvent)] (new_notifier (NewUserCache 600)) = Some n' \<and>
     (\<exists>t d. (''b1'', t) \<in> set (nf_pending n') \<and> nf_timer n' = Some d \<and> d \<le> t + 100)"
proof -
  let ?n = "new_notifier (NewUserCache 600)" and ?es = "[(3 :: instant, TakeEvent)]"
  have inv: "nf_inv 100 0 ?n" by (rule nf_inv_init) simp
  have room: "length (nf_ch ?n) < event_buffer" by (simp add: new_notifier_def event_buffer_def)
  obtain n' where r: "nf_run 100 ((0, Notified ''b1'') # ?es) ?n = Some n'" and ch: "nf_ch n' = []"
    by (simp add: new_notifier_def onInvalidate_def event_buffer_def take_event_def)
  have nofire: "?es \<noteq> es1 @ (t, Fire) # es2" for es1 t es2 by (auto simp: Cons_eq_append_conv)
  have "sorted ((0 :: instant) # map fst ?es)" by simp
  from notifier_applies_events [OF inv room r this] ch nofire r show ?thesis by auto
qed

end
