(* ===== verification/K8s_Informer.thy ===== *)
theory K8s_Informer
  imports Backend_Discovery Config
begin

text \<open>
  The Kubernetes discovery loop (discovery_kubernetes.go): seeding, the informer whose event
  handlers put a signal into a channel of capacity one, and the goroutine that waits half a
  second after a signal, drains the channel and reconciles with what the informer's store
  holds at that moment. The informer is the library's: it applies a change to its store before
  it calls a handler, and calls one for every change; both may be interleaved with the loop
  in any way.
\<close>

definition k8s_namespace :: "string \<Rightarrow> string option \<Rightarrow> string" where
  "k8s_namespace namespace file =
     (if namespace \<noteq> [] then namespace
      else case file of None \<Rightarrow> ''default'' | Some ns \<Rightarrow> if ns \<noteq> [] then TrimSpace ns else ''default'')"

text \<open>\<^verbatim>\<open>SeedBackends\<close>, with the answer of the list call.\<close>

definition K8s_SeedBackends ::
  "'s store_ops \<Rightarrow> string \<Rightarrow> endpoint_slice list option \<Rightarrow> k8s_discovery \<times> drain_manager \<times> 's \<Rightarrow>
   k8s_discovery \<times> drain_manager \<times> 's" where
  "K8s_SeedBackends st portName listed q =
     (case listed of None \<Rightarrow> q | Some slices \<Rightarrow> applyDesiredState st (buildDesiredState portName slices) q)"

datatype loop_phase = Selecting | Debouncing | Drained | Ended

record 's informer_loop =
  il_store :: "endpoint_slice list"
  il_undelivered :: nat
  il_signal :: bool
  il_phase :: loop_phase
  il_state :: "k8s_discovery \<times> drain_manager \<times> 's"

text \<open>
  \<^verbatim>\<open>Start\<close> after the informer has synchronised: a handler is due for every slice of its store.
\<close>

definition K8s_Start :: "endpoint_slice list \<Rightarrow> k8s_discovery \<times> drain_manager \<times> 's \<Rightarrow> 's informer_loop" where
  "K8s_Start synced q = \<lparr>il_store = synced, il_undelivered = length synced, il_signal = False, il_phase = Selecting, il_state = q\<rparr>"

datatype loop_action = Changed "endpoint_slice list" | Enqueued | Received | Elapsed | Reconciled | Stopped

inductive il_step :: "'s store_ops \<Rightarrow> string \<Rightarrow> 's informer_loop \<Rightarrow> loop_action \<Rightarrow> 's informer_loop \<Rightarrow> bool"
  for st :: "'s store_ops" and portName :: string where
  changed: "il_step st portName l (Changed slices) (l\<lparr>il_store := slices, il_undelivered := Suc (il_undelivered l)\<rparr>)"
| enqueued: "il_undelivered l = Suc n \<Longrightarrow>
    il_step st portName l Enqueued (l\<lparr>il_undelivered := n, il_signal := True\<rparr>)"
| received: "il_phase l = Selecting \<Longrightarrow> il_signal l \<Longrightarrow>
    il_step st portName l Received (l\<lparr>il_signal := False, il_phase := Debouncing\<rparr>)"
| elapsed: "il_phase l = Debouncing \<Longrightarrow>
    il_step st portName l Elapsed (l\<lparr>il_signal := False, il_phase := Drained\<rparr>)"
| reconciled: "il_phase l = Drained \<Longrightarrow>
    il_step st portName l Reconciled
      (l\<lparr>il_phase := Selecting, il_state := K8s_reconcile st portName (il_store l) (il_state l)\<rparr>)"
| stopped: "il_phase l \<noteq> Drained \<Longrightarrow>
    il_step st portName l Stopped (l\<lparr>il_phase := Ended\<rparr>)"

inductive il_run :: "'s store_ops \<Rightarrow> string \<Rightarrow> 's informer_loop \<Rightarrow> loop_action list \<Rightarrow> 's informer_loop \<Rightarrow> bool"
  for st :: "'s store_ops" and portName :: string where
  run_nil: "il_run st portName l [] l"
| run_step: "il_step st portName l a l1 \<Longrightarrow> il_run st portName l1 as l2 \<Longrightarrow> il_run st portName l (a # as) l2"

inductive_cases il_stepE: "il_step st portName l a l'"

section \<open>No change is missed\<close>

definition pending :: "'s informer_loop \<Rightarrow> bool" where
  "pending l \<longleftrightarrow> 0 < il_undelivered l \<or> il_signal l \<or> il_phase l \<noteq> Selecting"

definition up_to_date :: "string \<Rightarrow> 's informer_loop \<Rightarrow> bool" where
  "up_to_date portName l \<longleftrightarrow> k_known (fst (il_state l)) = buildDesiredState portName (il_store l)"

lemma K8s_reconcile_known: "k_known (fst (K8s_reconcile st portName slices q)) = buildDesiredState portName slices"
proof -
  obtain k d s where q: "q = (k, d, s)" by (cases q)
  obtain k' d' s' where r: "applyDesiredState st (buildDesiredState portName slices) (k, d, s) = (k', d', s')"
    by (cases "applyDesiredState st (buildDesiredState portName slices) (k, d, s)")
  with applyDesiredState_known [OF r] q show ?thesis by (simp add: K8s_reconcile_def)
qed

lemma il_step_current:
  assumes "il_step st portName l a l'" and "pending l \<or> up_to_date portName l"
  shows "pending l' \<or> up_to_date portName l'"
  using assms by (cases rule: il_step.cases) (auto simp: pending_def up_to_date_def K8s_reconcile_known)

lemma il_run_current:
  assumes "il_run st portName l as l'" and "pending l \<or> up_to_date portName l"
  shows "pending l' \<or> up_to_date portName l'"
  using assms by (induction rule: il_run.induct) (auto dest: il_step_current)

text \<open>The state of discovery after a run is that of some sequence of passes.\<close>

lemma il_run_passes:
  assumes "il_run st portName l as l'"
  shows "\<exists>passes. il_state l' = K8s_run st portName passes (il_state l)"
  using assms
proof (induction rule: il_run.induct)
  case (run_nil l)
  show ?case by (rule exI [of _ "[]"]) (simp add: K8s_run_def)
next
  case (run_step l a l1 as l2)
  then obtain passes where p: "il_state l2 = K8s_run st portName passes (il_state l1)" by blast
  from run_step(1) have "il_state l1 = il_state l \<or> il_state l1 = K8s_reconcile st portName (il_store l) (il_state l)"
    by (cases rule: il_step.cases) simp_all
  then show ?case
  proof
    assume "il_state l1 = K8s_reconcile st portName (il_store l) (il_state l)"
    with p show ?case by (intro exI [of _ "il_store l # passes"]) (simp add: K8s_run_def)
  qed (use p in auto)
qed

section \<open>The loop comes to rest\<close>

lemma il_run_append: "il_run st portName l as l1 \<Longrightarrow> il_run st portName l1 bs l2 \<Longrightarrow> il_run st portName l (as @ bs) l2"
  by (induction rule: il_run.induct) (auto intro: il_run.intros)

lemma deliver_all:
  "\<exists>l'. il_run st portName l (replicate (il_undelivered l) Enqueued) l' \<and> il_undelivered l' = 0 \<and>
     il_store l' = il_store l \<and> il_phase l' = il_phase l \<and> il_state l' = il_state l"
proof (induction "il_undelivered l" arbitrary: l)
  case 0
  then show ?case using il_run.run_nil by auto
next
  case (Suc n)
  let ?l = "l\<lparr>il_undelivered := n, il_signal := True\<rparr>"
  from Suc(1) [of ?l] obtain l' where l': "il_run st portName ?l (replicate n Enqueued) l'" "il_undelivered l' = 0"
    "il_store l' = il_store l" "il_phase l' = il_phase l" "il_state l' = il_state l" by auto
  have "il_step st portName l Enqueued ?l" using Suc(2) by (intro enqueued) simp
  with l' show ?case unfolding Suc(2) [symmetric] replicate_Suc by (blast intro: il_run.run_step)
qed

text \<open>From each phase the loop reaches its select statement with nothing left to do.\<close>

lemma debouncing_settles:
  assumes "il_phase l = Debouncing" and "il_undelivered l = 0"
  shows "\<exists>l'. il_run st portName l [Elapsed, Reconciled] l' \<and> \<not> pending l' \<and> il_store l' = il_store l"
proof -
  let ?d = "l\<lparr>il_signal := False, il_phase := Drained\<rparr>"
  let ?e = "?d\<lparr>il_phase := Selecting, il_state := K8s_reconcile st portName (il_store ?d) (il_state ?d)\<rparr>"
  have "il_step st portName l Elapsed ?d" using assms(1) by (rule elapsed)
  moreover have "il_step st portName ?d Reconciled ?e" by (rule reconciled) simp
  ultimately have "il_run st portName l [Elapsed, Reconciled] ?e" by (blast intro: il_run.intros)
  then show ?thesis using assms(2) by (intro exI [of _ ?e]) (simp add: pending_def)
qed

lemma selecting_settles:
  assumes "il_phase l = Selecting" and "il_undelivered l = 0"
  shows "\<exists>as l'. set as \<subseteq> {Received, Elapsed, Reconciled} \<and> length as \<le> 3 \<and> il_run st portName l as l' \<and>
    \<not> pending l' \<and> il_store l' = il_store l"
proof (cases "il_signal l")
  case False
  with assms show ?thesis using il_run.run_nil [of st portName l] by (intro exI [of _ "[]"] exI [of _ l]) (simp add: pending_def)
next
  case True
  from debouncing_settles [of "l\<lparr>il_signal := False, il_phase := Debouncing\<rparr>" st portName] assms(2)
  obtain l' where "il_run st portName (l\<lparr>il_signal := False, il_phase := Debouncing\<rparr>) [Elapsed, Reconciled] l'" "\<not> pending l'"
    "il_store l' = il_store l" by auto
  with received [OF assms(1) True, of st portName] show ?thesis
    by (intro exI [of _ "[Received, Elapsed, Reconciled]"] exI [of _ l']) (auto intro: il_run.run_step)
qed

lemma il_settles:
  assumes "il_phase l \<noteq> Ended"
  shows "\<exists>as l'. set as \<subseteq> {Enqueued, Received, Elapsed, Reconciled} \<and> length as \<le> il_undelivered l + 4 \<and>
    il_run st portName l as l' \<and> \<not> pending l' \<and> il_store l' = il_store l"
proof -
  let ?en = "replicate (il_undelivered l) Enqueued"
  obtain l1 where l1: "il_run st portName l ?en l1" "il_undelivered l1 = 0" "il_store l1 = il_store l" "il_phase l1 = il_phase l"
    using deliver_all [of st portName l] by blast
  have rest: "\<exists>as l'. set as \<subseteq> {Enqueued, Received, Elapsed, Reconciled} \<and> length as \<le> 4 \<and> il_run st portName l1 as l' \<and>
      \<not> pending l' \<and> il_store l' = il_store l1"
  proof (cases "il_phase l1")
    case Selecting
    from selecting_settles [OF this l1(2), of st portName] obtain as l' where "set as \<subseteq> {Received, Elapsed, Reconciled}" "length as \<le> 3"
      "il_run st portName l1 as l'" "\<not> pending l'" "il_store l' = il_store l1" by blast
    then show ?thesis by (intro exI [of _ as] exI [of _ l']) auto
  next
    case Debouncing
    from debouncing_settles [OF this l1(2), of st portName] obtain l' where
      "il_run st portName l1 [Elapsed, Reconciled] l'" "\<not> pending l'" "il_store l' = il_store l1" by blast
    then show ?thesis by (intro exI [of _ "[Elapsed, Reconciled]"] exI [of _ l']) auto
  next
    case Drained
    let ?l = "l1\<lparr>il_phase := Selecting, il_state := K8s_reconcile st portName (il_store l1) (il_state l1)\<rparr>"
    from selecting_settles [of ?l st portName] l1(2) obtain as l' where "set as \<subseteq> {Received, Elapsed, Reconciled}" "length as \<le> 3"
      "il_run st portName ?l as l'" "\<not> pending l'" "il_store l' = il_store l1" by auto
    with reconciled [OF Drained, of st portName] show ?thesis
      by (intro exI [of _ "Reconciled # as"] exI [of _ l']) (auto intro: il_run.run_step)
  qed (use assms l1(4) in simp)
  then obtain as l' where as: "set as \<subseteq> {Enqueued, Received, Elapsed, Reconciled}" "length as \<le> 4" "il_run st portName l1 as l'"
    "\<not> pending l'" "il_store l' = il_store l1" by blast
  from il_run_append [OF l1(1) as(3)] as l1(3) show ?thesis
    by (intro exI [of _ "?en @ as"] exI [of _ l']) auto
qed

section \<open>Properties\<close>

lemma seed_passes: "\<exists>passes. K8s_SeedBackends st portName listed q = K8s_run st portName passes q"
proof (cases listed)
  case None
  then show ?thesis by (intro exI [of _ "[]"]) (simp add: K8s_SeedBackends_def K8s_run_def)
next
  case (Some slices)
  then show ?thesis by (intro exI [of _ "[slices]"]) (simp add: K8s_SeedBackends_def K8s_run_def K8s_reconcile_def)
qed

lemma K8s_run_append: "K8s_run st portName (ps @ qs) q = K8s_run st portName qs (K8s_run st portName ps q)"
  by (simp add: K8s_run_def)

text \<open>What discovery knows bounds what it has put into the registry.\<close>

lemma loop_registry:
  assumes "redis_inv R net s" and "k_known k = []"
    and "il_run (redis_store R net) portName (K8s_Start synced (K8s_SeedBackends (redis_store R net) portName listed (k, d, s))) as l"
  shows "map_of (k_known (fst (il_state l))) b = Some epActive \<longrightarrow> b \<in> actv R (snd (snd (il_state l)))"
    "map_of (k_known (fst (il_state l))) b = None \<longrightarrow> b \<in> actv R (snd (snd (il_state l))) \<longrightarrow> b \<in> actv R s"
proof -
  obtain ps where "il_state l = K8s_run (redis_store R net) portName ps (k, d, s)"
    using il_run_passes [OF assms(3)] seed_passes [of "redis_store R net" portName listed "(k, d, s)"]
    by (auto simp: K8s_Start_def simp flip: K8s_run_append)
  moreover obtain k' d' s' where l: "il_state l = (k', d', s')" by (cases "il_state l")
  ultimately have "K8s_run (redis_store R net) portName ps (k, d, s) = (k', d', s')" by simp
  from K8s_run_invariant [OF assms(1) this, where A = "actv R s" and b = b] assms(2) l
  show "map_of (k_known (fst (il_state l))) b = Some epActive \<longrightarrow> b \<in> actv R (snd (snd (il_state l)))"
    "map_of (k_known (fst (il_state l))) b = None \<longrightarrow> b \<in> actv R (snd (snd (il_state l))) \<longrightarrow> b \<in> actv R s"
    by simp_all
qed

text \<open>
  C28: On a store that answers, the watch loop does not miss a change for good, provided the
  informer starts with some slice, or with exactly what was seeded, or nothing was seeded. However the informer's updates, its handlers
  and the loop interleave, as long as the loop has not been stopped it can always come to
  rest, in at most four steps after the outstanding handlers; and whenever nothing is
  outstanding, the registry follows the informer's current store: every backend it reports as
  ready, and by no endpoint as terminating, is active, and one it does not report is active
  only if it was in the registry before discovery began. Without the proviso a seeded backend
  can stay registered (\<open>emptied_before_start_missed\<close>).
\<close>

theorem informer_settles:
  assumes "redis_inv R net s" and "k_known k = []" and "synced \<noteq> [] \<or> listed = Some synced \<or> listed = None"
    and "il_run (redis_store R net) portName (K8s_Start synced (K8s_SeedBackends (redis_store R net) portName listed (k, d, s))) as l"
  shows "(il_phase l \<noteq> Ended \<longrightarrow> (\<exists>bs l'. set bs \<subseteq> {Enqueued, Received, Elapsed, Reconciled} \<and>
      length bs \<le> il_undelivered l + 4 \<and> il_run (redis_store R net) portName l bs l' \<and> \<not> pending l' \<and> il_store l' = il_store l)) \<and>
    (\<not> pending l \<longrightarrow>
      (reported portName (il_store l) b epActive \<and> \<not> reported portName (il_store l) b epTerminating \<longrightarrow>
        b \<in> actv R (snd (snd (il_state l)))) \<and>
      ((\<forall>st. \<not> reported portName (il_store l) b st) \<and> b \<in> actv R (snd (snd (il_state l))) \<longrightarrow> b \<in> actv R s))"
proof -
  let ?l0 = "K8s_Start synced (K8s_SeedBackends (redis_store R net) portName listed (k, d, s))"
  have "pending ?l0 \<or> up_to_date portName ?l0"
  proof (cases "synced = []")
    case True
    with assms(2, 3) show ?thesis
      using K8s_reconcile_known [of "redis_store R net" portName "[]" "(k, d, s)"]
      by (auto simp: up_to_date_def K8s_Start_def K8s_SeedBackends_def K8s_reconcile_def buildDesiredState_def)
  qed (simp add: pending_def K8s_Start_def)
  from il_run_current [OF assms(4) this]
  have "k_known (fst (il_state l)) = buildDesiredState portName (il_store l)" if "\<not> pending l" using that by (simp add: up_to_date_def)
  with loop_registry [OF assms(1, 2, 4), of b] desired_reported [of portName "il_store l" b] il_settles [of l "redis_store R net" portName]
  show ?thesis by auto
qed

theorem informer_settles_witness:
  "\<exists>as l. il_run (redis_store plain_server demo_net) [] (K8s_Start [pod True False] (\<lparr>k_drain = True, k_known = []\<rparr>, NewDrainManager, demo_redis)) as l \<and>
     ''http://10.0.0.9:80'' \<in> actv plain_server (snd (snd (il_state l)))"
proof -
  let ?k = "\<lparr>k_drain = True, k_known = []\<rparr>" and ?st = "redis_store plain_server demo_net"
  let ?l = "K8s_Start [pod True False] (K8s_SeedBackends ?st [] None (?k, NewDrainManager, demo_redis))"
  have inv: "redis_inv plain_server demo_net demo_redis" using demo_ok by (simp add: redis_inv_def)
  note settles = informer_settles [OF inv, of ?k "[pod True False]" None "[]" NewDrainManager _ _ "''http://10.0.0.9:80''"]
  have "il_phase ?l \<noteq> Ended" by (simp add: K8s_Start_def)
  with settles [OF _ _ il_run.run_nil] obtain bs l where l: "il_run ?st [] ?l bs l" "\<not> pending l" "il_store l = il_store ?l" by auto
  from l(3) have "il_store l = [pod True False]" by (simp add: K8s_Start_def)
  with settles [OF _ _ l(1)] l(2) pod_reported have "''http://10.0.0.9:80'' \<in> actv plain_server (snd (snd (il_state l)))" by simp
  with l(1) show ?thesis by (auto simp: K8s_SeedBackends_def)
qed

text \<open>
  The condition on the start matters: if every slice disappears between seeding and the
  informer's first list, no handler is due, nothing is outstanding, and the seeded backends
  stay in the registry until some slice changes.
\<close>

lemma emptied_before_start_missed:
  fixes k :: k8s_discovery and d :: drain_manager
  assumes "redis_inv R net s" and "k_known k = []" and "reported portName slices b epActive" and "\<not> reported portName slices b epTerminating"
  defines "l \<equiv> K8s_Start [] (K8s_SeedBackends (redis_store R net) portName (Some slices) (k, d, s))"
  shows "\<not> pending l \<and> (\<forall>st. \<not> reported portName (il_store l) b st) \<and> b \<in> actv R (snd (snd (il_state l)))"
proof -
  have "k_known (fst (il_state l)) = buildDesiredState portName slices"
    using K8s_reconcile_known [of "redis_store R net" portName slices "(k, d, s)"]
    by (simp add: l_def K8s_Start_def K8s_SeedBackends_def K8s_reconcile_def)
  then have "b \<in> actv R (snd (snd (il_state l)))"
    using loop_registry(1) [OF assms(1, 2) il_run.run_nil, of "[]" portName "Some slices" d b] desired_reported(1) [OF assms(3, 4)]
    by (simp add: l_def)
  then show ?thesis by (simp add: l_def K8s_Start_def pending_def reported_def)
qed

end
