(* ===== verification/Startup.thy ===== *)
theory Startup
  imports K8s_Informer Account_Discovery
begin

text \<open>
  The start of the proxy (\<^verbatim>\<open>StartDiscovery\<close> in proxy.go, called by main before the server accepts
  requests): backends are seeded first and accounts after them, so that no account is placed
  on a partial set of backends. The discovery goroutine is started in between; the passes it
  makes before the accounts are read are part of the seed.
\<close>

datatype backend_seed =
    SeedDNS string "string list option" "string list option list"
  | SeedK8s string "endpoint_slice list option" "endpoint_slice list list"

definition SeedBackends ::
  "'s store_ops \<Rightarrow> backend_seed \<Rightarrow> k8s_discovery \<times> drain_manager \<times> 's \<Rightarrow> k8s_discovery \<times> drain_manager \<times> 's" where
  "SeedBackends st seed q =
     (case seed of
        SeedDNS port lookup later \<Rightarrow> (case q of (k, d, s) \<Rightarrow> (k, d, DNS_run st port later (DNS_reconcile st port lookup s)))
      | SeedK8s portName listed later \<Rightarrow> K8s_run st portName later (K8s_SeedBackends st portName listed q))"

definition StartDiscovery ::
  "'s deps \<Rightarrow> instant \<Rightarrow> backend_seed option \<Rightarrow> (source_error + discovered_account list) option \<Rightarrow>
   (k8s_discovery \<times> drain_manager) \<times> account_discovery \<times> 's world \<Rightarrow> (k8s_discovery \<times> drain_manager) \<times> account_discovery \<times> 's world" where
  "StartDiscovery dp now seed fetched = (\<lambda>((k, d), ad, w).
     let (k, d, s) = (case seed of None \<Rightarrow> (k, d, w_store w) | Some sd \<Rightarrow> SeedBackends (d_store dp) sd (k, d, w_store w));
         w = w\<lparr>w_store := s\<rparr>
     in case fetched of
          None \<Rightarrow> ((k, d), ad, w)
        | Some f \<Rightarrow> (case SeedAccounts dp now f (ad, w) of (ad, w) \<Rightarrow> ((k, d), ad, w)))"

section \<open>The registry while it is seeded\<close>

lemma DNS_run_inv: "redis_inv R net s \<Longrightarrow> redis_inv R net (DNS_run (redis_store R net) port lookups s)"
  unfolding DNS_run_def
proof (induction lookups arbitrary: s)
  case (Cons l lookups)
  from rstore.DNS_reconcile_registry [OF redis_answers Cons.prems] Cons.IH show ?case by simp
qed simp

lemma DNS_reconcile_run: "DNS_run st port later (DNS_reconcile st port lookup s) = DNS_run st port (lookup # later) s"
  by (simp add: DNS_run_def)

lemma K8s_run_inv: "redis_inv R net (snd (snd q)) \<Longrightarrow> redis_inv R net (snd (snd (K8s_run (redis_store R net) portName passes q)))"
proof (induction passes arbitrary: q)
  case (Cons slices passes)
  obtain k d s where q: "q = (k, d, s)" by (cases q)
  obtain k1 d1 s1 where p: "applyDesiredState (redis_store R net) (buildDesiredState portName slices) (k, d, s) = (k1, d1, s1)"
    by (cases "applyDesiredState (redis_store R net) (buildDesiredState portName slices) (k, d, s)")
  have "redis_inv R net s" using Cons.prems q by simp
  from rstore.applyDesiredState_registry [OF redis_answers this wf_buildDesiredState p] have "redis_inv R net s1" by blast
  with Cons.IH [of "(k1, d1, s1)"] p q show ?case by (simp add: K8s_run_def K8s_reconcile_def)
qed (simp add: K8s_run_def)

lemma SeedBackends_inv:
  assumes "redis_inv R net s" and "SeedBackends (redis_store R net) seed (k, d, s) = (k', d', s')"
  shows "redis_inv R net s'"
proof (cases seed)
  case (SeedDNS port lookup later)
  with assms show ?thesis using DNS_run_inv [OF assms(1), of port "lookup # later"] by (auto simp: SeedBackends_def DNS_reconcile_run)
next
  case (SeedK8s portName listed later)
  obtain ps where "K8s_SeedBackends (redis_store R net) portName listed (k, d, s) = K8s_run (redis_store R net) portName ps (k, d, s)"
    using seed_passes by blast
  with SeedK8s assms show ?thesis
    using K8s_run_inv [of R net "(k, d, s)" portName "ps @ later"] by (simp add: SeedBackends_def K8s_run_append)
qed

section \<open>Properties\<close>

text \<open>
  C27: At start-up every account the source names is placed before the first request. With Redis,
  whichever way backends are discovered and however many passes the discovery loop already
  made, if any backend is registered then every account is assigned to a registered one, an
  account that was on a registered backend keeps its assignment, and with DNS the registered
  backends are exactly those of the last successful lookup.
\<close>

theorem startup_places_accounts:
  fixes accounts :: "discovered_account list"
  assumes "redis_inv R net (w_store w)" and "d_store dp = redis_store R net"
    and "StartDiscovery dp now seed (Some (Inr accounts)) ((k, d), ad, w) = (kd', ad', w')" and "actv R (w_store w') \<noteq> {}"
  shows "ad_seeded ad' \<and> redis_inv R net (w_store w') \<and>
    (\<forall>acct \<in> set accounts. \<exists>a. tab R (w_store w') (AccountID acct) = Some a \<and> Backend a \<in> actv R (w_store w')) \<and>
    (seed = None \<longrightarrow> (\<forall>u a. tab R (w_store w) u = Some a \<longrightarrow> Backend a \<in> actv R (w_store w) \<longrightarrow> tab R (w_store w') u = Some a)) \<and>
    (\<forall>port ips later. seed = Some (SeedDNS port (Some ips) later) \<longrightarrow>
       actv R (w_store w') = DNS_url port ` set (the (last (Some ips # filter (\<lambda>l. l \<noteq> None) later))))"
proof -
  obtain k1 d1 s1 where s1: "(case seed of None \<Rightarrow> (k, d, w_store w) | Some sd \<Rightarrow> SeedBackends (redis_store R net) sd (k, d, w_store w)) = (k1, d1, s1)"
    by (cases "case seed of None \<Rightarrow> (k, d, w_store w) | Some sd \<Rightarrow> SeedBackends (redis_store R net) sd (k, d, w_store w)")
  let ?w = "w\<lparr>w_store := s1\<rparr>"
  have w': "w' = Discovery_reconcile dp now (Inr accounts) ?w" "ad_seeded ad'"
    using assms(3) s1 [folded assms(2)] by (auto simp: StartDiscovery_def SeedAccounts_def)
  have inv: "redis_inv R net (w_store ?w)" using s1 SeedBackends_inv [OF assms(1)] assms(1) by (auto split: option.splits)
  have ne: "actv R (w_store ?w) \<noteq> {}"
  proof
    assume "actv R (w_store ?w) = {}"
    then have "SMEMBERS R active_key (w_store ?w) = []" using spread_over_active(1) [OF inv] by (simp add: spread_over_def)
    moreover have "reliable net" using inv by (simp add: redis_inv_def)
    ultimately have "w' = ?w" using redis_registry(1) [OF inv]
      by (simp add: w'(1) Discovery_reconcile_def assms(2) redis_store_def GetAll_effect)
    with assms(4) \<open>actv R (w_store ?w) = {}\<close> show False by simp
  qed
  note r = reconcile_on_redis [OF inv assms(2) ne, of now accounts, folded w'(1)]
    and a = reconcile_assigns [OF inv assms(2) ne, of _ accounts now, folded w'(1)]
  have "actv R (w_store w') = DNS_url port ` set (the (last (Some ips # filter (\<lambda>l. l \<noteq> None) later)))"
    if "seed = Some (SeedDNS port (Some ips) later)" for port ips later
  proof -
    let ?ls = "Some ips # later"
    have "Some ips \<in> set ?ls" "last (filter (\<lambda>l. l \<noteq> None) ?ls) = Some (the (last (Some ips # filter (\<lambda>l. l \<noteq> None) later)))"
      using last_in_set [of "Some ips # filter (\<lambda>l. l \<noteq> None) later"] by (auto split: if_splits)
    from dns_registry_follows [OF assms(1) this, of port] s1 r(2) that show ?thesis
      by (simp add: SeedBackends_def DNS_reconcile_run)
  qed
  moreover have "tab R (w_store w') u = Some b" if "seed = None" "tab R (w_store w) u = Some b" "Backend b \<in> actv R (w_store w)" for u b
    using that s1 a(2) [of u] by (simp add: settled_on_def)
  ultimately show ?thesis using w'(2) r(1, 2) a(1) by simp
qed

theorem startup_places_accounts_witness:
  "\<exists>a. tab plain_server (w_store (snd (snd (StartDiscovery demo_deps 3 (Some (SeedDNS ''80'' (Some [''10.0.0.1'']) []))
      (Some (Inr [\<lparr>AccountID = ''u'', AccountWeight = 0\<rparr>])) ((\<lparr>k_drain = True, k_known = []\<rparr>, NewDrainManager), \<lparr>ad_seeded = False\<rparr>, demo_world))))) ''u'' = Some a \<and>
     Backend a = ''http://10.0.0.1:80''"
proof -
  let ?u = "\<lparr>AccountID = ''u'', AccountWeight = 0\<rparr>"
  let ?q = "StartDiscovery demo_deps 3 (Some (SeedDNS ''80'' (Some [''10.0.0.1'']) [])) (Some (Inr [?u]))
    ((\<lparr>k_drain = True, k_known = []\<rparr>, NewDrainManager), \<lparr>ad_seeded = False\<rparr>, demo_world)"
  obtain kd ad w' where q: "?q = (kd, ad, w')" by (cases ?q)
  let ?s = "DNS_reconcile (redis_store plain_server demo_net) ''80'' (Some [''10.0.0.1'']) (w_store demo_world)"
  have s: "redis_inv plain_server demo_net ?s" "actv plain_server ?s = DNS_url ''80'' ` {''10.0.0.1''}"
    using rstore.DNS_reconcile_registry [OF redis_answers demo_world_ok, of "''80''" "Some [''10.0.0.1'']"] by simp_all
  have st: "d_store demo_deps = redis_store plain_server demo_net" by (simp add: demo_deps_def)
  have "w' = Discovery_reconcile demo_deps 3 (Inr [?u]) (demo_world\<lparr>w_store := ?s\<rparr>)"
    using q by (simp add: StartDiscovery_def SeedAccounts_def SeedBackends_def DNS_run_def st)
  with reconcile_on_redis(2) [of plain_server demo_net "demo_world\<lparr>w_store := ?s\<rparr>" demo_deps 3 "[?u]"] s st
  have "actv plain_server (w_store w') \<noteq> {}" by simp
  from startup_places_accounts [OF demo_world_ok st q this] show ?thesis
    by (auto simp: q DNS_url_def JoinHostPort_def)
qed

end
