(* ===== verification/Metrics.thy ===== *)
theory Metrics
  imports Config Backend_Discovery
begin

text \<open>
  \<^verbatim>\<open>internal/proxy/metrics.go\<close>: the counters, gauges and the latency histogram, and the text the
  metrics endpoint answers. Counters are 64-bit words that wrap. The histogram stores every
  observation in one bucket and sums up when it is read; the sum of the observations is an
  exact rational here and a \<^verbatim>\<open>float64\<close> in the code. \<^verbatim>\<open>strconv.FormatFloat\<close> is the parameter \<open>ftoa\<close>.
\<close>

section \<open>State\<close>

type_synonym uint64 = "64 word"

datatype counter =
    totalRequests | backendErrors | redisFailures | redisCBFallbacks | cacheHitsLocal | cacheHitsStore
  | cacheMisses | authFailures | wsConnections | rateLimited | hookAssigns | hookUnassigns | hookFailures
  | drainsTotal | drainUsersTotal | rebalanceTotal | rebalanceMovesTotal | holdRequests | holdTimeouts
  | poisonPillDetections | poisonPillBlocked

datatype gauge = drainingBackends | quarantinedAccounts | activeConnections | healthyBackends

record histogram =
  h_buckets :: "uint64 list"
  h_count :: uint64
  h_sum :: rat

record metrics =
  mt_counter :: "counter \<Rightarrow> uint64"
  mt_gauge :: "gauge \<Rightarrow> 64 word"
  mt_backendRequests :: "(string, uint64) gomap"
  mt_requestDuration :: histogram

definition histogramBuckets :: "rat list" where
  "histogramBuckets = [1 / 1000, 5 / 1000, 1 / 100, 25 / 1000, 5 / 100, 1 / 10, 25 / 100, 5 / 10, 1, 25 / 10, 5, 10]"

definition new_metrics :: metrics where
  "new_metrics = \<lparr>mt_counter = (\<lambda>_. 0), mt_gauge = (\<lambda>_. 0), mt_backendRequests = [],
     mt_requestDuration = \<lparr>h_buckets = replicate 12 0, h_count = 0, h_sum = 0\<rparr>\<rparr>"

section \<open>Recording\<close>

text \<open>The \<^verbatim>\<open>Inc\<close> functions add one, \<^verbatim>\<open>AddDrainUsers\<close> and \<^verbatim>\<open>AddRebalanceMoves\<close> add \<open>n\<close>.\<close>

definition add_counter :: "counter \<Rightarrow> uint64 \<Rightarrow> metrics \<Rightarrow> metrics" where
  "add_counter c n m = m\<lparr>mt_counter := (mt_counter m)(c := mt_counter m c + n)\<rparr>"

definition add_gauge :: "gauge \<Rightarrow> 64 word \<Rightarrow> metrics \<Rightarrow> metrics" where
  "add_gauge g n m = m\<lparr>mt_gauge := (mt_gauge m)(g := mt_gauge m g + n)\<rparr>"

definition SetHealthyBackends :: "64 word \<Rightarrow> metrics \<Rightarrow> metrics" where
  "SetHealthyBackends n m = m\<lparr>mt_gauge := (mt_gauge m)(healthyBackends := n)\<rparr>"

definition IncBackendRequests :: "string \<Rightarrow> metrics \<Rightarrow> metrics" where
  "IncBackendRequests backend m =
     m\<lparr>mt_backendRequests := put backend ((case map_of (mt_backendRequests m) backend of None \<Rightarrow> 0 | Some v \<Rightarrow> v) + 1)
         (mt_backendRequests m)\<rparr>"

fun inc_bucket :: "rat list \<Rightarrow> rat \<Rightarrow> uint64 list \<Rightarrow> uint64 list" where
  "inc_bucket (bound # bounds) seconds (n # ns) =
     (if seconds \<le> bound then (n + 1) # ns else n # inc_bucket bounds seconds ns)"
| "inc_bucket _ _ ns = ns"

definition RecordRequestDuration :: "rat \<Rightarrow> metrics \<Rightarrow> metrics" where
  "RecordRequestDuration seconds m =
     (let h = mt_requestDuration m in
      m\<lparr>mt_requestDuration := \<lparr>h_buckets = inc_bucket histogramBuckets seconds (h_buckets h),
           h_count = h_count h + 1, h_sum = h_sum h + seconds\<rparr>\<rparr>)"

section \<open>The exposition\<close>

abbreviation newline :: char where "newline \<equiv> CHR 0x0A"

definition unlines :: "string list \<Rightarrow> string" where
  "unlines ls = concat (map (\<lambda>l. l @ [newline]) ls)"

definition u64 :: "uint64 \<Rightarrow> string" where
  "u64 v = decimal (unat v)"

definition i64 :: "64 word \<Rightarrow> string" where
  "i64 v = Itoa (sint v)"

definition writeCounter :: "string \<Rightarrow> string \<Rightarrow> uint64 \<Rightarrow> string list" where
  "writeCounter name help v =
     [''# HELP '' @ name @ '' '' @ help, ''# TYPE '' @ name @ '' counter'', name @ '' '' @ u64 v]"

definition writeGauge :: "string \<Rightarrow> string \<Rightarrow> 64 word \<Rightarrow> string list" where
  "writeGauge name help v =
     [''# HELP '' @ name @ '' '' @ help, ''# TYPE '' @ name @ '' gauge'', name @ '' '' @ i64 v]"

text \<open>The counters in the order of the page: those before and those after the cache hits.\<close>

definition first_counters :: "(counter \<times> string \<times> string) list" where
  "first_counters =
     [(totalRequests, ''stickyproxy_requests_total'', ''Total number of requests received''),
      (backendErrors, ''stickyproxy_backend_errors_total'', ''Total number of backend errors''),
      (redisFailures, ''stickyproxy_redis_failures_total'', ''Total number of Redis failures''),
      (redisCBFallbacks, ''stickyproxy_redis_cb_fallbacks_total'', ''Total hash-fallback requests due to Redis circuit breaker'')]"

definition last_counters :: "(counter \<times> string \<times> string) list" where
  "last_counters =
     [(cacheMisses, ''stickyproxy_cache_misses_total'', ''Total cache misses (new user, no mapping in local or Redis)''),
      (authFailures, ''stickyproxy_auth_failures_total'', ''Total JWT authentication failures''),
      (wsConnections, ''stickyproxy_websocket_connections_total'', ''Total WebSocket connections opened''),
      (rateLimited, ''stickyproxy_rate_limited_total'', ''Total requests rejected by rate limiter''),
      (hookAssigns, ''stickyproxy_hook_assigns_total'', ''Total assign hooks sent''),
      (hookUnassigns, ''stickyproxy_hook_unassigns_total'', ''Total unassign hooks sent''),
      (hookFailures, ''stickyproxy_hook_failures_total'', ''Total hook delivery failures''),
      (drainsTotal, ''stickyproxy_drains_total'', ''Total drain operations started''),
      (drainUsersTotal, ''stickyproxy_drain_users_total'', ''Total users drained from backends''),
      (rebalanceTotal, ''stickyproxy_rebalances_total'', ''Total rebalance operations''),
      (rebalanceMovesTotal, ''stickyproxy_rebalance_moves_total'', ''Total user moves during rebalancing''),
      (holdRequests, ''stickyproxy_hold_requests_total'', ''Total requests held during assignment transitions''),
      (holdTimeouts, ''stickyproxy_hold_timeouts_total'', ''Total held requests that exceeded the hold timeout''),
      (poisonPillDetections, ''stickyproxy_poison_pill_detections_total'', ''Total accounts quarantined by poison pill detection''),
      (poisonPillBlocked, ''stickyproxy_poison_pill_blocked_total'', ''Total requests blocked due to account quarantine'')]"

definition gauges :: "(gauge \<times> string \<times> string) list" where
  "gauges =
     [(activeConnections, ''stickyproxy_active_connections'', ''Number of currently active connections''),
      (healthyBackends, ''stickyproxy_healthy_backends'', ''Number of healthy backends''),
      (drainingBackends, ''stickyproxy_draining_backends'', ''Number of backends currently being drained''),
      (quarantinedAccounts, ''stickyproxy_quarantined_accounts'', ''Number of accounts currently quarantined by poison pill detection'')]"

abbreviation quote :: string where "quote \<equiv> [CHR 0x22]"

definition labelled :: "string \<Rightarrow> string \<Rightarrow> string \<Rightarrow> string" where
  "labelled name label v = name @ ''{'' @ label @ ''='' @ quote @ v @ quote @ ''}''"

text \<open>The line of the store layer has no blank between the labels and the value.\<close>

definition cache_hit_lines :: "metrics \<Rightarrow> string list" where
  "cache_hit_lines m =
     [''# HELP stickyproxy_cache_hits_total Total cache hits by layer'', ''# TYPE stickyproxy_cache_hits_total counter'',
      labelled ''stickyproxy_cache_hits_total'' ''layer'' ''local'' @ '' '' @ u64 (mt_counter m cacheHitsLocal),
      labelled ''stickyproxy_cache_hits_total'' ''layer'' ''store'' @ u64 (mt_counter m cacheHitsStore)]"

definition backend_lines :: "metrics \<Rightarrow> string list" where
  "backend_lines m =
     [''# HELP stickyproxy_backend_requests_total Total requests per backend'', ''# TYPE stickyproxy_backend_requests_total counter''] @
     map (\<lambda>(name, n). labelled ''stickyproxy_backend_requests_total'' ''backend'' name @ '' '' @ u64 n) (mt_backendRequests m)"

fun bucket_lines :: "(rat \<Rightarrow> string) \<Rightarrow> uint64 \<Rightarrow> rat list \<Rightarrow> uint64 list \<Rightarrow> string list" where
  "bucket_lines ftoa cumulative (bound # bounds) (n # ns) =
     (labelled ''stickyproxy_request_duration_seconds_bucket'' ''le'' (ftoa bound) @ '' '' @ u64 (cumulative + n)) #
     bucket_lines ftoa (cumulative + n) bounds ns"
| "bucket_lines _ _ _ _ = []"

definition histogram_lines :: "(rat \<Rightarrow> string) \<Rightarrow> histogram \<Rightarrow> string list" where
  "histogram_lines ftoa h =
     [''# HELP stickyproxy_request_duration_seconds Request latency histogram'',
      ''# TYPE stickyproxy_request_duration_seconds histogram''] @
     bucket_lines ftoa 0 histogramBuckets (h_buckets h) @
     [labelled ''stickyproxy_request_duration_seconds_bucket'' ''le'' ''+Inf'' @ '' '' @ u64 (h_count h),
      ''stickyproxy_request_duration_seconds_sum '' @ ftoa (h_sum h),
      ''stickyproxy_request_duration_seconds_count '' @ u64 (h_count h)]"

definition MetricsHandler :: "(rat \<Rightarrow> string) \<Rightarrow> metrics \<Rightarrow> string" where
  "MetricsHandler ftoa m =
     unlines
      (concat (map (\<lambda>(c, name, help). writeCounter name help (mt_counter m c)) first_counters) @
       cache_hit_lines m @
       concat (map (\<lambda>(c, name, help). writeCounter name help (mt_counter m c)) last_counters) @
       backend_lines m @
       concat (map (\<lambda>(g, name, help). writeGauge name help (mt_gauge m g)) gauges) @
       histogram_lines ftoa (mt_requestDuration m))"

section \<open>Reading the exposition\<close>

text \<open>
  The text format as its readers see it: lines that start with a hash are comments; any other
  line is a series name, an optional label set in braces, optional blanks, and a value.
\<close>

fun lines_of :: "string \<Rightarrow> string list" where
  "lines_of [] = []"
| "lines_of (c # cs) =
     (if c = newline then [] # lines_of cs
      else case lines_of cs of [] \<Rightarrow> [[c]] | l # ls \<Rightarrow> (c # l) # ls)"

definition name_char :: "char \<Rightarrow> bool" where
  "name_char c \<longleftrightarrow> c \<noteq> CHR '' '' \<and> c \<noteq> CHR ''{''"

definition parse_sample :: "string \<Rightarrow> (string \<times> string) option" where
  "parse_sample l =
     (if l = [] \<or> hd l = CHR ''#'' then None
      else let name = takeWhile name_char l; rest = dropWhile name_char l;
               labels = (if rest \<noteq> [] \<and> hd rest = CHR ''{'' then takeWhile (\<lambda>c. c \<noteq> CHR ''}'') rest @ ''}'' else [])
           in Some (name @ labels, dropWhile (\<lambda>c. c = CHR '' '') (drop (length labels) rest)))"

definition samples :: "string \<Rightarrow> (string \<times> string) list" where
  "samples t = List.map_filter parse_sample (lines_of t)"

lemma lines_of_line: "newline \<notin> set l \<Longrightarrow> lines_of (l @ newline # r) = l # lines_of r"
  by (induction l) auto

lemma lines_of_unlines: "list_all (\<lambda>l. newline \<notin> set l) ls \<Longrightarrow> lines_of (unlines ls) = ls"
  by (induction ls) (simp_all add: unlines_def lines_of_line)

definition name_ok :: "string \<Rightarrow> bool" where
  "name_ok n \<longleftrightarrow> n \<noteq> [] \<and> hd n \<noteq> CHR ''#'' \<and> list_all name_char n \<and> newline \<notin> set n"

definition label_ok :: "string \<Rightarrow> bool" where
  "label_ok v \<longleftrightarrow> CHR ''}'' \<notin> set v \<and> CHR 0x22 \<notin> set v \<and> CHR 0x5C \<notin> set v \<and> newline \<notin> set v"

definition value_ok :: "string \<Rightarrow> bool" where
  "value_ok v \<longleftrightarrow> CHR '' '' \<notin> set v \<and> newline \<notin> set v"

lemma name_char_append:
  assumes "list_all name_char n"
  shows "takeWhile name_char (n @ r) = n @ takeWhile name_char r" "dropWhile name_char (n @ r) = dropWhile name_char r"
  using assms by (simp_all add: list_all_iff takeWhile_append2 dropWhile_append2)

lemma drop_blanks: "value_ok v \<Longrightarrow> dropWhile (\<lambda>c. c = CHR '' '') v = v"
  by (cases v) (auto simp: value_ok_def)

lemma parse_plain: "name_ok n \<Longrightarrow> value_ok v \<Longrightarrow> parse_sample (n @ '' '' @ v) = Some (n, v)"
  by (simp add: parse_sample_def name_ok_def name_char_append drop_blanks name_char_def [of "CHR '' ''"])

lemma parse_labelled:
  assumes "name_ok n" "CHR ''}'' \<notin> set l" "label_ok x" "value_ok v"
  shows "parse_sample (labelled n l x @ v) = Some (labelled n l x, v)"
    "parse_sample (labelled n l x @ '' '' @ v) = Some (labelled n l x, v)"
proof -
  let ?a = "l @ ''='' @ quote @ x @ quote"
  have "takeWhile (\<lambda>c. c \<noteq> CHR ''}'') (?a @ CHR ''}'' # r) = ?a @ takeWhile (\<lambda>c. c \<noteq> CHR ''}'') (CHR ''}'' # r)" for r
    by (rule takeWhile_append2) (use assms(2, 3) in \<open>auto simp: label_ok_def\<close>)
  then have t: "takeWhile (\<lambda>c. c \<noteq> CHR ''}'') (l @ CHR ''='' # CHR 0x22 # x @ CHR 0x22 # CHR ''}'' # r) = ?a" for r by simp
  have d: "drop (4 + length x) (CHR ''='' # CHR 0x22 # x @ CHR 0x22 # CHR ''}'' # r) = r" for r by (simp add: eval_nat_numeral)
  show "parse_sample (labelled n l x @ v) = Some (labelled n l x, v)"
    "parse_sample (labelled n l x @ '' '' @ v) = Some (labelled n l x, v)"
    using assms t d by (simp_all add: parse_sample_def name_ok_def labelled_def name_char_append drop_blanks name_char_def [of "CHR ''{''"])
qed

lemma parse_comment [simp]: "parse_sample (CHR ''#'' # l) = None"
  by (simp add: parse_sample_def)

section \<open>What the page shows\<close>

lemma decimal_digits: "list_all is_digit (decimal n) \<and> decimal n \<noteq> [] \<and> digits_value (decimal n) = int n"
proof (induction n rule: decimal.induct)
  case (1 n)
  have d: "is_digit (char_of (48 + k)) \<and> (of_char (char_of (48 + k) :: char) :: int) = 48 + int k" if "k < 10" for k :: nat
  proof -
    have n: "(of_char (char_of (48 + k) :: char) :: nat) = 48 + k" using that by simp
    have "(of_char (char_of (48 + k) :: char) :: int) = int (of_char (char_of (48 + k) :: char))" by (simp only: of_nat_of_char)
    with n that show ?thesis by (simp add: is_digit_def)
  qed
  show ?case
  proof (cases "n < 10")
    case True
    then have "decimal n = [char_of (48 + n)]" by (subst decimal.simps) simp
    with d [OF True] show ?thesis by (simp add: digits_value_def)
  next
    case False
    then have "decimal n = decimal (n div 10) @ [char_of (48 + n mod 10)]" by (subst decimal.simps) simp
    moreover have "int (n div 10) * 10 + int (n mod 10) = int n" by presburger
    ultimately show ?thesis using 1 [OF False] d [of "n mod 10"] by (simp add: digits_value_def)
  qed
qed

lemma decimal_clean: "\<not> is_digit c \<Longrightarrow> c \<notin> set (decimal n)"
  using decimal_digits [of n] by (auto simp: list_all_iff)

lemma digit_value_ok: "list_all is_digit v \<Longrightarrow> value_ok v"
  by (auto simp: value_ok_def list_all_iff is_digit_def)

lemma u64_ok [simp]: "value_ok (u64 v)"
  unfolding u64_def by (rule digit_value_ok) (simp add: decimal_digits)

lemma i64_ok [simp]: "value_ok (i64 v)"
  using digit_value_ok [OF conjunct1 [OF decimal_digits]] by (auto simp: i64_def Itoa_def value_ok_def)

definition shown :: "nat \<Rightarrow> string" where
  "shown n = decimal (n mod 2 ^ 64)"

lemma u64_of_nat: "u64 (of_nat n) = shown n"
  by (simp add: u64_def shown_def unat_of_nat)

text \<open>Running sums of the buckets: an observation raises exactly those of the bounds it does not exceed.\<close>

fun running :: "uint64 \<Rightarrow> uint64 list \<Rightarrow> uint64 list" where
  "running c [] = []"
| "running c (n # ns) = (c + n) # running (c + n) ns"

lemma running_Suc: "running (c + 1) ns = map (\<lambda>v. v + 1) (running c ns)"
proof (induction ns arbitrary: c)
  case (Cons n ns)
  from Cons [of "c + n"] show ?case by (simp add: algebra_simps)
qed simp

lemma length_running [simp]: "length (running c ns) = length ns"
  by (induction ns arbitrary: c) simp_all

lemma length_inc_bucket [simp]: "length (inc_bucket bounds x ns) = length ns"
  by (induction bounds x ns rule: inc_bucket.induct) simp_all

lemma running_inc_bucket:
  assumes "sorted bounds" and "length ns = length bounds"
  shows "running c (inc_bucket bounds x ns) =
    map2 (\<lambda>b v. v + (if x \<le> b then 1 else 0)) bounds (running c ns)"
  using assms
proof (induction bounds x ns arbitrary: c rule: inc_bucket.induct)
  case (1 bound bounds x n ns)
  show ?case
  proof (cases "x \<le> bound")
    case True
    with 1(2) have "\<forall>b \<in> set bounds. x \<le> b" by auto
    then have "map2 (\<lambda>b v. v + (if x \<le> b then 1 else 0)) bounds vs = map (\<lambda>v. v + 1) vs" if "length vs = length bounds" for vs :: "uint64 list"
      using that by (induction bounds arbitrary: vs) (auto simp: length_Suc_conv)
    with True 1(3) running_Suc [of "c + n" ns] show ?thesis by (simp add: algebra_simps)
  next
    case False
    with 1 show ?thesis by simp
  qed
qed simp_all

lemma bucket_lines_running:
  "bucket_lines ftoa c bounds ns =
     map2 (\<lambda>b v. labelled ''stickyproxy_request_duration_seconds_bucket'' ''le'' (ftoa b) @ '' '' @ u64 v) bounds (running c ns)"
  by (induction ftoa c bounds ns rule: bucket_lines.induct) simp_all

section \<open>Histories\<close>

datatype metric_event =
    Incremented counter | AddedTo counter nat | GaugeAdded gauge int | HealthySet int | BackendRequest string | Observed rat

fun mt_step :: "metric_event \<Rightarrow> metrics \<Rightarrow> metrics" where
  "mt_step (Incremented c) m = add_counter c 1 m"
| "mt_step (AddedTo c n) m = add_counter c (of_nat n) m"
| "mt_step (GaugeAdded g d) m = add_gauge g (of_int d) m"
| "mt_step (HealthySet n) m = SetHealthyBackends (of_int n) m"
| "mt_step (BackendRequest b) m = IncBackendRequests b m"
| "mt_step (Observed x) m = RecordRequestDuration x m"

definition counted :: "counter \<Rightarrow> metric_event list \<Rightarrow> nat" where
  "counted c evs = sum_list (map (\<lambda>e. case e of
      Incremented d \<Rightarrow> if d = c then 1 else 0 | AddedTo d n \<Rightarrow> if d = c then n else 0 | _ \<Rightarrow> 0) evs)"

definition gauge_value :: "gauge \<Rightarrow> metric_event list \<Rightarrow> int" where
  "gauge_value g evs = fold (\<lambda>e v. case e of
      GaugeAdded h d \<Rightarrow> if h = g then v + d else v | HealthySet n \<Rightarrow> if g = healthyBackends then n else v | _ \<Rightarrow> v) evs 0"

definition requests_to :: "string \<Rightarrow> metric_event list \<Rightarrow> nat" where
  "requests_to b evs = length (filter (\<lambda>e. e = BackendRequest b) evs)"

definition observed :: "metric_event list \<Rightarrow> rat list" where
  "observed evs = List.map_filter (\<lambda>e. case e of Observed x \<Rightarrow> Some x | _ \<Rightarrow> None) evs"

definition at_most :: "rat \<Rightarrow> metric_event list \<Rightarrow> nat" where
  "at_most b evs = length (filter (\<lambda>x. x \<le> b) (observed evs))"

lemma observed_append: "observed (evs @ [e]) = observed evs @ (case e of Observed x \<Rightarrow> [x] | _ \<Rightarrow> [])"
  by (simp add: observed_def map_filter_def split: metric_event.split)

lemma mt_step_fields:
  "mt_counter (fold mt_step evs new_metrics) c = of_nat (counted c evs)"
  "mt_gauge (fold mt_step evs new_metrics) g = of_int (gauge_value g evs)"
  by (induction evs rule: rev_induct)
    (auto simp: new_metrics_def counted_def gauge_value_def add_counter_def add_gauge_def SetHealthyBackends_def
      IncBackendRequests_def RecordRequestDuration_def Let_def split: metric_event.split)

lemma mt_step_requests:
  "wf_map (mt_backendRequests (fold mt_step evs new_metrics)) \<and>
   map_of (mt_backendRequests (fold mt_step evs new_metrics)) b =
     (if BackendRequest b \<in> set evs then Some (of_nat (requests_to b evs)) else None)"
proof (induction evs arbitrary: b rule: rev_induct)
  case (snoc e evs)
  let ?m = "fold mt_step evs new_metrics"
  show ?case
  proof (cases e)
    case (BackendRequest x)
    have "requests_to x evs = 0" if "BackendRequest x \<notin> set evs"
      using that by (auto simp: requests_to_def filter_empty_conv)
    with snoc [of x] snoc [of b] BackendRequest show ?thesis
      by (simp add: IncBackendRequests_def requests_to_def update_conv' distinct_update)
  qed (use snoc [of b] in \<open>simp_all add: add_counter_def add_gauge_def SetHealthyBackends_def RecordRequestDuration_def Let_def requests_to_def\<close>)
qed (simp add: new_metrics_def)

lemma sorted_bounds: "sorted histogramBuckets" "length histogramBuckets = 12"
  by (simp_all add: histogramBuckets_def)

lemma map2_map: "map2 f xs (map g xs) = map (\<lambda>x. f x (g x)) xs"
  by (induction xs) simp_all

lemma mt_step_histogram:
  fixes evs
  defines "h \<equiv> mt_requestDuration (fold mt_step evs new_metrics)"
  shows "length (h_buckets h) = 12 \<and> running 0 (h_buckets h) = map (\<lambda>b. of_nat (at_most b evs)) histogramBuckets \<and>
    h_count h = of_nat (length (observed evs)) \<and> h_sum h = sum_list (observed evs)"
  unfolding h_def
proof (induction evs rule: rev_induct)
  case Nil
  show ?case by (simp add: new_metrics_def observed_def at_most_def map_filter_def histogramBuckets_def eval_nat_numeral)
next
  case (snoc e evs)
  show ?case
  proof (cases e)
    case (Observed x)
    with snoc running_inc_bucket [OF sorted_bounds(1), of "h_buckets (mt_requestDuration (fold mt_step evs new_metrics))" 0 x] sorted_bounds(2)
    show ?thesis by (simp add: RecordRequestDuration_def Let_def observed_append at_most_def map2_map)
  qed (use snoc in \<open>simp_all add: add_counter_def add_gauge_def SetHealthyBackends_def IncBackendRequests_def observed_append at_most_def\<close>)
qed

section \<open>Scraping\<close>

definition reads :: "string list \<Rightarrow> (string \<times> string) list \<Rightarrow> bool" where
  "reads ls ps \<longleftrightarrow> list_all (\<lambda>l. newline \<notin> set l) ls \<and> List.map_filter parse_sample ls = ps"

lemma samples_unlines: "reads ls ps \<Longrightarrow> samples (unlines ls) = ps"
  by (simp add: reads_def samples_def lines_of_unlines)

lemma reads_append: "reads a p \<Longrightarrow> reads b q \<Longrightarrow> reads (a @ b) (p @ q)"
  by (simp add: reads_def map_filter_def)

lemma reads_comment: "newline \<notin> set l \<Longrightarrow> reads ls ps \<Longrightarrow> reads ((CHR ''#'' # l) # ls) ps"
  by (simp add: reads_def map_filter_def)

lemma reads_sample: "newline \<notin> set l \<Longrightarrow> parse_sample l = Some p \<Longrightarrow> reads ls ps \<Longrightarrow> reads (l # ls) (p # ps)"
  by (simp add: reads_def map_filter_def)

lemma reads_Nil: "reads [] []"
  by (simp add: reads_def map_filter_def)

lemma reads_concat_map: "(\<And>x. x \<in> set xs \<Longrightarrow> reads (f x) [g x]) \<Longrightarrow> reads (concat (map f xs)) (map g xs)"
proof (induction xs)
  case (Cons x xs)
  then show ?case using reads_append [of "f x" "[g x]"] by simp
qed (simp add: reads_Nil)

lemma reads_map: "(\<And>x. x \<in> set xs \<Longrightarrow> newline \<notin> set (f x) \<and> parse_sample (f x) = Some (g x)) \<Longrightarrow> reads (map f xs) (map g xs)"
  by (induction xs) (simp_all add: reads_Nil reads_sample)

lemma reads_writeCounter: "name_ok n \<Longrightarrow> newline \<notin> set h \<Longrightarrow> reads (writeCounter n h v) [(n, u64 v)]"
  unfolding writeCounter_def append_Cons append_Nil
  by (intro reads_comment reads_sample reads_Nil parse_plain [unfolded append_Cons append_Nil])
    (use u64_ok [of v] in \<open>simp_all add: name_ok_def value_ok_def\<close>)

lemma reads_writeGauge: "name_ok n \<Longrightarrow> newline \<notin> set h \<Longrightarrow> reads (writeGauge n h v) [(n, i64 v)]"
  unfolding writeGauge_def append_Cons append_Nil
  by (intro reads_comment reads_sample reads_Nil parse_plain [unfolded append_Cons append_Nil])
    (use i64_ok [of v] in \<open>simp_all add: name_ok_def value_ok_def\<close>)

lemma table_ok:
  "(c, n, h) \<in> set first_counters \<Longrightarrow> name_ok n \<and> newline \<notin> set h"
  "(c, n, h) \<in> set last_counters \<Longrightarrow> name_ok n \<and> newline \<notin> set h"
  "(g, n, h) \<in> set gauges \<Longrightarrow> name_ok n \<and> newline \<notin> set h"
  by (auto simp: first_counters_def last_counters_def gauges_def name_ok_def name_char_def)

lemma reads_counters:
  "reads (concat (map (\<lambda>(c, name, help). writeCounter name help (mt_counter m c)) first_counters))
     (map (\<lambda>(c, name, help). (name, u64 (mt_counter m c))) first_counters)"
  "reads (concat (map (\<lambda>(c, name, help). writeCounter name help (mt_counter m c)) last_counters))
     (map (\<lambda>(c, name, help). (name, u64 (mt_counter m c))) last_counters)"
  "reads (concat (map (\<lambda>(g, name, help). writeGauge name help (mt_gauge m g)) gauges))
     (map (\<lambda>(g, name, help). (name, i64 (mt_gauge m g))) gauges)"
  by (rule reads_concat_map; use table_ok in \<open>auto intro!: reads_writeCounter reads_writeGauge\<close>)+

text \<open>A line with a label reads back as its series and value, with or without the blank.\<close>

lemma labelled_line:
  assumes "name_ok n" "label_ok l" "label_ok x" "value_ok v"
  shows "newline \<notin> set (labelled n l x @ v) \<and> parse_sample (labelled n l x @ v) = Some (labelled n l x, v)"
    "newline \<notin> set (labelled n l x @ '' '' @ v) \<and> parse_sample (labelled n l x @ '' '' @ v) = Some (labelled n l x, v)"
  using assms parse_labelled [OF assms(1) _ assms(3, 4), of l]
  by (simp_all add: name_ok_def label_ok_def value_ok_def labelled_def)

abbreviation hits_series :: "string \<Rightarrow> string" where
  "hits_series layer \<equiv> labelled ''stickyproxy_cache_hits_total'' ''layer'' layer"

abbreviation backend_series :: "string \<Rightarrow> string" where
  "backend_series b \<equiv> labelled ''stickyproxy_backend_requests_total'' ''backend'' b"

abbreviation bucket_series :: "string \<Rightarrow> string" where
  "bucket_series le \<equiv> labelled ''stickyproxy_request_duration_seconds_bucket'' ''le'' le"

lemma series_ok:
  "name_ok ''stickyproxy_cache_hits_total''" "name_ok ''stickyproxy_backend_requests_total''"
  "name_ok ''stickyproxy_request_duration_seconds_bucket''" "name_ok ''stickyproxy_request_duration_seconds_sum''"
  "name_ok ''stickyproxy_request_duration_seconds_count''" "label_ok ''layer''" "label_ok ''backend''" "label_ok ''le''"
  "label_ok ''local''" "label_ok ''store''" "label_ok ''+Inf''"
  by (simp_all add: name_ok_def name_char_def label_ok_def)

lemma reads_cache_hits:
  "reads (cache_hit_lines m) [(hits_series ''local'', u64 (mt_counter m cacheHitsLocal)), (hits_series ''store'', u64 (mt_counter m cacheHitsStore))]"
  unfolding cache_hit_lines_def
  by (intro reads_comment reads_sample reads_Nil labelled_line(1) [THEN conjunct1] labelled_line(1) [THEN conjunct2]
      labelled_line(2) [THEN conjunct1] labelled_line(2) [THEN conjunct2] series_ok u64_ok) simp_all

lemma reads_backends:
  assumes "\<forall>b n. (b, n) \<in> set (mt_backendRequests m) \<longrightarrow> label_ok b"
  shows "reads (backend_lines m) (map (\<lambda>(b, n). (backend_series b, u64 n)) (mt_backendRequests m))"
proof -
  have "reads (map (\<lambda>(b, n). backend_series b @ '' '' @ u64 n) (mt_backendRequests m))
      (map (\<lambda>(b, n). (backend_series b, u64 n)) (mt_backendRequests m))"
    by (rule reads_map) (use assms labelled_line(2) [OF series_ok(2, 7) _ u64_ok] in \<open>metis (no_types, lifting) case_prod_conv surj_pair\<close>)
  then show ?thesis unfolding backend_lines_def append_Cons append_Nil by (intro reads_comment) simp_all
qed

lemma reads_histogram:
  assumes "\<forall>x. label_ok (ftoa x) \<and> value_ok (ftoa x)"
  shows "reads (histogram_lines ftoa h)
    (map2 (\<lambda>b v. (bucket_series (ftoa b), u64 v)) histogramBuckets (running 0 (h_buckets h)) @
     [(bucket_series ''+Inf'', u64 (h_count h)), (''stickyproxy_request_duration_seconds_sum'', ftoa (h_sum h)),
      (''stickyproxy_request_duration_seconds_count'', u64 (h_count h))])"
proof -
  have b: "reads (map2 (\<lambda>b v. bucket_series (ftoa b) @ '' '' @ u64 v) bs vs) (map2 (\<lambda>b v. (bucket_series (ftoa b), u64 v)) bs vs)" for bs vs
    by (rule reads_map) (use labelled_line(2) [OF series_ok(3, 8) spec [OF assms, THEN conjunct1] u64_ok] in \<open>auto split: prod.split\<close>)
  have p: "newline \<notin> set (n @ '' '' @ v) \<and> parse_sample (n @ '' '' @ v) = Some (n, v)" if "name_ok n" "value_ok v" for n v
    using parse_plain [OF that] that by (simp add: name_ok_def value_ok_def)
  have "reads [bucket_series ''+Inf'' @ '' '' @ u64 (h_count h), ''stickyproxy_request_duration_seconds_sum'' @ '' '' @ ftoa (h_sum h),
        ''stickyproxy_request_duration_seconds_count'' @ '' '' @ u64 (h_count h)]
     [(bucket_series ''+Inf'', u64 (h_count h)), (''stickyproxy_request_duration_seconds_sum'', ftoa (h_sum h)),
      (''stickyproxy_request_duration_seconds_count'', u64 (h_count h))]"
    by (intro reads_sample reads_Nil labelled_line(2) [THEN conjunct1] labelled_line(2) [THEN conjunct2] p [THEN conjunct1]
        p [THEN conjunct2] series_ok u64_ok assms [THEN spec, THEN conjunct2])
  from reads_append [OF b this, of histogramBuckets "running 0 (h_buckets h)"] show ?thesis
    unfolding histogram_lines_def append_Cons append_Nil bucket_lines_running by (intro reads_comment) simp_all
qed

lemma samples_MetricsHandler:
  assumes "\<forall>x. label_ok (ftoa x) \<and> value_ok (ftoa x)" and "\<forall>b n. (b, n) \<in> set (mt_backendRequests m) \<longrightarrow> label_ok b"
  shows "samples (MetricsHandler ftoa m) =
    map (\<lambda>(c, name, help). (name, u64 (mt_counter m c))) first_counters @
    [(hits_series ''local'', u64 (mt_counter m cacheHitsLocal)), (hits_series ''store'', u64 (mt_counter m cacheHitsStore))] @
    map (\<lambda>(c, name, help). (name, u64 (mt_counter m c))) last_counters @
    map (\<lambda>(b, n). (backend_series b, u64 n)) (mt_backendRequests m) @
    map (\<lambda>(g, name, help). (name, i64 (mt_gauge m g))) gauges @
    map2 (\<lambda>b v. (bucket_series (ftoa b), u64 v)) histogramBuckets (running 0 (h_buckets (mt_requestDuration m))) @
    [(bucket_series ''+Inf'', u64 (h_count (mt_requestDuration m))),
     (''stickyproxy_request_duration_seconds_sum'', ftoa (h_sum (mt_requestDuration m))),
     (''stickyproxy_request_duration_seconds_count'', u64 (h_count (mt_requestDuration m)))]"
  unfolding MetricsHandler_def
  by (rule samples_unlines, intro reads_append reads_counters reads_cache_hits reads_backends [OF assms(2)] reads_histogram [OF assms(1)])

text \<open>The samples of a history, with the backends in the order \<open>bs\<close>.\<close>

definition history_samples :: "(rat \<Rightarrow> string) \<Rightarrow> string list \<Rightarrow> metric_event list \<Rightarrow> (string \<times> string) list" where
  "history_samples ftoa bs evs =
     map (\<lambda>(c, name, help). (name, shown (counted c evs))) first_counters @
     [(hits_series ''local'', shown (counted cacheHitsLocal evs)), (hits_series ''store'', shown (counted cacheHitsStore evs))] @
     map (\<lambda>(c, name, help). (name, shown (counted c evs))) last_counters @
     map (\<lambda>b. (backend_series b, shown (requests_to b evs))) bs @
     map (\<lambda>(g, name, help). (name, i64 (of_int (gauge_value g evs)))) gauges @
     map (\<lambda>b. (bucket_series (ftoa b), shown (at_most b evs))) histogramBuckets @
     [(bucket_series ''+Inf'', shown (length (observed evs))),
      (''stickyproxy_request_duration_seconds_sum'', ftoa (sum_list (observed evs))),
      (''stickyproxy_request_duration_seconds_count'', shown (length (observed evs)))]"

lemma backend_samples:
  fixes evs
  defines "m \<equiv> fold mt_step evs new_metrics"
  shows "distinct (keys (mt_backendRequests m))"
    "set (keys (mt_backendRequests m)) = {b. BackendRequest b \<in> set evs}"
    "map (\<lambda>(b, n). (backend_series b, u64 n)) (mt_backendRequests m) =
      map (\<lambda>b. (backend_series b, shown (requests_to b evs))) (keys (mt_backendRequests m))"
proof -
  note r = mt_step_requests [of evs, folded m_def]
  show "distinct (keys (mt_backendRequests m))" using r by blast
  have mem: "b \<in> set (keys (mt_backendRequests m)) \<longleftrightarrow> map_of (mt_backendRequests m) b \<noteq> None" for b
    by (simp add: map_of_eq_None_iff)
  show "set (keys (mt_backendRequests m)) = {b. BackendRequest b \<in> set evs}"
    unfolding set_eq_iff mem mem_Collect_eq using r by simp
  have "n = of_nat (requests_to b evs)" if "(b, n) \<in> set (mt_backendRequests m)" for b n
  proof -
    have "map_of (mt_backendRequests m) b = Some n" using r that by (intro map_of_is_SomeI) blast+
    with r [of b] show ?thesis by (simp split: if_splits)
  qed
  then show "map (\<lambda>(b, n). (backend_series b, u64 n)) (mt_backendRequests m) =
      map (\<lambda>b. (backend_series b, shown (requests_to b evs))) (keys (mt_backendRequests m))"
    by (auto simp flip: u64_of_nat)
qed

lemma samples_history:
  assumes "\<forall>x. label_ok (ftoa x) \<and> value_ok (ftoa x)" and "\<forall>b. BackendRequest b \<in> set evs \<longrightarrow> label_ok b"
  defines "m \<equiv> fold mt_step evs new_metrics"
  shows "samples (MetricsHandler ftoa m) = history_samples ftoa (keys (mt_backendRequests m)) evs"
proof -
  have "\<forall>b n. (b, n) \<in> set (mt_backendRequests m) \<longrightarrow> label_ok b"
    using backend_samples(2) [of evs, folded m_def] assms(2) by (metis fst_conv image_eqI list.set_map mem_Collect_eq)
  note s = samples_MetricsHandler [OF assms(1) this]
  have h: "running 0 (h_buckets (mt_requestDuration m)) = map (\<lambda>b. of_nat (at_most b evs)) histogramBuckets"
    "h_count (mt_requestDuration m) = of_nat (length (observed evs))" "h_sum (mt_requestDuration m) = sum_list (observed evs)"
    using mt_step_histogram [of evs] by (simp_all add: m_def)
  have c: "mt_counter m = (\<lambda>c. of_nat (counted c evs))" "mt_gauge m = (\<lambda>g. of_int (gauge_value g evs))"
    by (simp_all add: fun_eq_iff m_def mt_step_fields)
  show ?thesis unfolding s history_samples_def c h map2_map u64_of_nat backend_samples(3) [of evs, folded m_def] ..
qed

text \<open>
  C31: A scrape reads back what happened. Over any history of counter increments, gauge changes,
  backend requests and observed latencies, the page holds exactly one sample per series, in
  its order: every counter and every backend shows the number of its increments modulo
  \<open>2 ^ 64\<close>, every gauge its current value, and the bucket of every bound the number of
  observations that do not exceed it (although each is stored in one bucket only), with the
  total in the last bucket and in the count. The digits of a sample denote its number.
\<close>

theorem scrape_roundtrip:
  assumes "\<forall>x. label_ok (ftoa x) \<and> value_ok (ftoa x)" and "\<forall>b. BackendRequest b \<in> set evs \<longrightarrow> label_ok b"
  shows "(\<exists>bs. distinct bs \<and> set bs = {b. BackendRequest b \<in> set evs} \<and>
      samples (MetricsHandler ftoa (fold mt_step evs new_metrics)) = history_samples ftoa bs evs) \<and>
    digits_value (shown n) = int (n mod 2 ^ 64)"
  using samples_history [OF assms] backend_samples(1, 2) [of evs] decimal_digits unfolding shown_def by blast

definition demo_ftoa :: "rat \<Rightarrow> string" where
  "demo_ftoa x = Itoa \<lfloor>x\<rfloor>"

definition demo_events :: "metric_event list" where
  "demo_events = [Incremented totalRequests, BackendRequest ''http://b1:80'', Observed (1 / 50), Incremented totalRequests, Observed 3]"

theorem scrape_roundtrip_witness:
  "samples (MetricsHandler demo_ftoa (fold mt_step demo_events new_metrics)) = history_samples demo_ftoa [''http://b1:80''] demo_events \<and>
   at_most (5 / 100) demo_events = 1"
proof -
  have "label_ok (demo_ftoa x) \<and> value_ok (demo_ftoa x)" for x
    by (simp add: demo_ftoa_def Itoa_def label_ok_def value_ok_def decimal_clean is_digit_def)
  moreover have "\<forall>b. BackendRequest b \<in> set demo_events \<longrightarrow> label_ok b" by (simp add: demo_events_def label_ok_def)
  moreover have "bs = [''http://b1:80'']" if "distinct bs" "set bs = {b. BackendRequest b \<in> set demo_events}" for bs
    using that by (cases bs; cases "tl bs") (auto simp: demo_events_def)
  moreover have "at_most (5 / 100) demo_events = 1" by (simp add: at_most_def observed_def demo_events_def List.map_filter_simps)
  ultimately show ?thesis using scrape_roundtrip [of demo_ftoa demo_events 0] by blast
qed

end
