(* ===== verification/Admin.thy ===== *)
theory Admin
  imports Proxy_Routing Metrics
begin

text \<open>
  The endpoints beside the proxy (admin.go, debug.go, health.go) and the multiplexer of main
  that chooses between them and \<^verbatim>\<open>ServeHTTP\<close>. The state adds the health checker and the metrics
  to the proxy. Paths are clean: the standard multiplexer redirects any other before it
  dispatches. The Redis client's GET is the parameter \<open>get\<close>. \<^verbatim>\<open>New\<close> always builds a drain
  manager, so the nil checks on it are not branches of the model.
\<close>

section \<open>Requests and answers\<close>

record http_request =
  hr_method :: string
  hr_backend :: string
  hr_user :: string
  hr_request :: request

record debug_routing =
  dr_user :: string
  dr_backend :: string
  dr_assignedAt :: "instant option"
  dr_source :: string
  dr_cacheLayer :: string

datatype answer =
    Proxied response
  | HttpError nat
  | Healthy nat
  | MetricsPage string
  | DrainAccepted string
  | DrainStatus "string list"
  | DrainCancelled string
  | RoutingInfo debug_routing

record 's service =
  sv_proxy :: "'s proxy"
  sv_health :: health_checker
  sv_metrics :: metrics

definition set_drain :: "drain_manager \<Rightarrow> 's service \<Rightarrow> 's service" where
  "set_drain d sv = sv\<lparr>sv_proxy := (sv_proxy sv)\<lparr>px_drain := d\<rparr>\<rparr>"

section \<open>Handlers\<close>

definition TrimPrefix :: "string \<Rightarrow> string \<Rightarrow> string" where
  "TrimPrefix s prefix = (if take (length prefix) s = prefix then drop (length prefix) s else s)"

definition AdminAuth ::
  "string \<Rightarrow> (http_request \<Rightarrow> 's service \<Rightarrow> answer \<times> 's service) \<Rightarrow> http_request \<Rightarrow> 's service \<Rightarrow> answer \<times> 's service" where
  "AdminAuth token handler rq sv =
     (if token = [] then (HttpError 403, sv)
      else let auth = rq_authorization (hr_request rq);
               provided = TrimPrefix auth ''Bearer ''
           in if provided = auth \<or> provided \<noteq> token then (HttpError 401, sv) else handler rq sv)"

definition AdminDrainHandler :: "http_request \<Rightarrow> 's service \<Rightarrow> answer \<times> 's service" where
  "AdminDrainHandler rq sv =
     (if hr_method rq \<noteq> ''POST'' then (HttpError 405, sv)
      else if hr_backend rq = [] then (HttpError 400, sv)
      else (DrainAccepted (hr_backend rq), set_drain (snd (StartDrain (hr_backend rq) (px_drain (sv_proxy sv)))) sv))"

definition AdminDrainStatusHandler :: "http_request \<Rightarrow> 's service \<Rightarrow> answer \<times> 's service" where
  "AdminDrainStatusHandler rq sv = (DrainStatus (DrainingBackends (px_drain (sv_proxy sv))), sv)"

definition AdminCancelDrainHandler :: "http_request \<Rightarrow> 's service \<Rightarrow> answer \<times> 's service" where
  "AdminCancelDrainHandler rq sv =
     (if hr_method rq \<noteq> ''DELETE'' then (HttpError 405, sv)
      else if hr_backend rq = [] then (HttpError 400, sv)
      else (DrainCancelled (hr_backend rq), set_drain (CancelDrain (hr_backend rq) (px_drain (sv_proxy sv))) sv))"

definition DebugRoutingHandler ::
  "'s deps \<Rightarrow> (string \<Rightarrow> 's \<Rightarrow> string option \<times> 's) \<Rightarrow> instant \<Rightarrow> http_request \<Rightarrow> 's service \<Rightarrow> answer \<times> 's service" where
  "DebugRoutingHandler dp get now rq sv =
     (if hr_user rq = [] then (HttpError 400, sv)
      else
        let p = sv_proxy sv;
            resp = \<lparr>dr_user = hr_user rq, dr_backend = [], dr_assignedAt = None, dr_source = ''unknown'', dr_cacheLayer = ''none''\<rparr>
        in case UserCache_Get now (hr_user rq) (w_cache (px_world p)) of
             (Inr backend, c) \<Rightarrow>
               (RoutingInfo (resp\<lparr>dr_backend := backend, dr_cacheLayer := ''local'', dr_source := ''local_cache''\<rparr>),
                sv\<lparr>sv_proxy := set_cache c p\<rparr>)
           | (Inl miss, c) \<Rightarrow>
               let p = set_cache c p
               in if d_routingMode dp = ''assignment''
                  then (case GetAssignment (d_store dp) (hr_user rq) (w_store (px_world p)) of
                          (Inr a, s) \<Rightarrow>
                            (RoutingInfo (resp\<lparr>dr_backend := Backend a, dr_assignedAt := Some (rfc3339 (AssignedAt a)),
                               dr_source := Source a, dr_cacheLayer := ''store''\<rparr>), sv\<lparr>sv_proxy := set_store s p\<rparr>)
                        | (Inl err, s) \<Rightarrow> (RoutingInfo resp, sv\<lparr>sv_proxy := set_store s p\<rparr>))
                  else if px_redis p \<noteq> None
                  then (case get (sticky_key (hr_user rq)) (w_store (px_world p)) of
                          (Some v, s) \<Rightarrow>
                            (RoutingInfo (resp\<lparr>dr_backend := v, dr_cacheLayer := ''redis'', dr_source := ''hash''\<rparr>),
                             sv\<lparr>sv_proxy := set_store s p\<rparr>)
                        | (None, s) \<Rightarrow> (RoutingInfo resp, sv\<lparr>sv_proxy := set_store s p\<rparr>))
                  else (RoutingInfo resp, sv\<lparr>sv_proxy := p\<rparr>))"

definition Healthz :: "'s deps \<Rightarrow> 's service \<Rightarrow> answer \<times> 's service" where
  "Healthz dp sv =
     (case Ping (d_store dp) (w_store (px_world (sv_proxy sv))) of
        (Some err, s) \<Rightarrow> (HttpError 503, sv\<lparr>sv_proxy := set_store s (sv_proxy sv)\<rparr>)
      | (None, s) \<Rightarrow> (Healthy (HealthyCount (sv_health sv)), sv\<lparr>sv_proxy := set_store s (sv_proxy sv)\<rparr>))"

section \<open>The multiplexer\<close>

text \<open>
  The patterns of main. A pattern with \<^verbatim>\<open>GET\<close> also matches \<^verbatim>\<open>HEAD\<close>; a method without a pattern of
  its own falls through to the proxy.
\<close>

datatype endpoint_kind = ToProxy | ToHealthz | ToMetrics | ToDrain | ToDrainStatus | ToCancelDrain | ToDebug

definition mux :: "string \<Rightarrow> string \<Rightarrow> endpoint_kind" where
  "mux method path =
     (if path = ''/healthz'' then ToHealthz
      else if path = ''/metrics'' then ToMetrics
      else if path = ''/admin/drain'' \<and> method = ''POST'' then ToDrain
      else if path = ''/admin/drain'' \<and> (method = ''GET'' \<or> method = ''HEAD'') then ToDrainStatus
      else if path = ''/admin/drain'' \<and> method = ''DELETE'' then ToCancelDrain
      else if path = ''/debug/routing'' \<and> (method = ''GET'' \<or> method = ''HEAD'') then ToDebug
      else ToProxy)"

definition serve ::
  "'s proxy_cfg \<Rightarrow> string \<Rightarrow> (string \<Rightarrow> 's \<Rightarrow> string option \<times> 's) \<Rightarrow> (rat \<Rightarrow> string) \<Rightarrow> 's request_env \<Rightarrow> http_request \<Rightarrow>
   's service \<Rightarrow> answer \<times> 's service" where
  "serve cfg token get ftoa e rq sv =
     (case mux (hr_method rq) (rq_path (hr_request rq)) of
        ToProxy \<Rightarrow>
          (case ServeHTTP cfg e (hr_request rq) (sv_proxy sv) of (r, p) \<Rightarrow> (Proxied r, sv\<lparr>sv_proxy := p\<rparr>))
      | ToHealthz \<Rightarrow> Healthz (pc_deps cfg) sv
      | ToMetrics \<Rightarrow> (MetricsPage (MetricsHandler ftoa (sv_metrics sv)), sv)
      | ToDrain \<Rightarrow> AdminAuth token AdminDrainHandler rq sv
      | ToDrainStatus \<Rightarrow> AdminAuth token AdminDrainStatusHandler rq sv
      | ToCancelDrain \<Rightarrow> AdminAuth token AdminCancelDrainHandler rq sv
      | ToDebug \<Rightarrow> AdminAuth token (DebugRoutingHandler (pc_deps cfg) get (e_arrival e)) rq sv)"

section \<open>Who may change the drain registry\<close>

definition authorized :: "string \<Rightarrow> http_request \<Rightarrow> bool" where
  "authorized token rq \<longleftrightarrow> token \<noteq> [] \<and> rq_authorization (hr_request rq) = ''Bearer '' @ token"

lemma TrimPrefix_accepts: "TrimPrefix auth p \<noteq> auth \<and> TrimPrefix auth p = token \<longleftrightarrow> p \<noteq> [] \<and> auth = p @ token"
proof
  assume a: "TrimPrefix auth p \<noteq> auth \<and> TrimPrefix auth p = token"
  then have "take (length p) auth = p" "drop (length p) auth = token" "p \<noteq> []" by (auto simp: TrimPrefix_def split: if_splits)
  then show "p \<noteq> [] \<and> auth = p @ token" by (metis append_take_drop_id)
qed (auto simp: TrimPrefix_def)

lemma AdminAuth_result:
  "AdminAuth token handler rq sv =
     (if authorized token rq then handler rq sv else (HttpError (if token = [] then 403 else 401), sv))"
  using TrimPrefix_accepts [of "rq_authorization (hr_request rq)" "''Bearer ''" token]
  by (auto simp: AdminAuth_def authorized_def Let_def)

lemma cb_check_drain: "cb_check now p = (b, q) \<Longrightarrow> px_drain q = px_drain p"
  by (auto simp: cb_check_def split: option.splits prod.splits)

lemma assignViaTable_drain: "assignViaTable dp now k p = (r, q) \<Longrightarrow> px_drain q = px_drain p"
  by (auto simp: assignViaTable_def Let_def dest: cb_check_drain split: prod.splits sum.splits if_splits)

lemma assignViaHash_drain: "assignViaHash dp k p = (r, q) \<Longrightarrow> px_drain q = px_drain p"
  by (auto simp: assignViaHash_def split: prod.splits sum.splits if_splits)

lemma assign_backend_drain: "assign_backend dp now k p = (r, q) \<Longrightarrow> px_drain q = px_drain p"
  by (auto simp: assign_backend_def Let_def dest: assignViaTable_drain assignViaHash_drain split: prod.splits option.splits if_splits)

lemma route_drain: "route dp now k p = (r, q) \<Longrightarrow> px_drain q = px_drain p"
  by (auto simp: route_def Let_def dest!: assign_backend_drain split: prod.splits sum.splits if_splits)

lemma bindStickyKey_drain [simp]: "px_drain (bindStickyKey dp now k b p) = px_drain p"
  by (simp add: bindStickyKey_def Let_def)

lemma servePublic_drain: "servePublic cfg e rq p = (r, q) \<Longrightarrow> px_drain q = px_drain p"
  by (auto simp: servePublic_def Let_def split: prod.splits sum.splits option.splits if_splits)

lemma forward_drain: "forward cfg e rq k b p = (r, q) \<Longrightarrow> px_drain q = px_drain p"
  by (auto simp: forward_def split: prod.splits if_splits)

lemma ServeHTTP_drain:
  assumes "\<And>p. px_drain (e_meanwhile e p) = px_drain p" and "ServeHTTP cfg e rq p = (r, q)"
  shows "px_drain q = px_drain p"
  using assms(2)
  by (auto simp: ServeHTTP_def Let_def assms(1) dest!: servePublic_drain route_drain forward_drain split: prod.splits sum.splits if_splits)

lemma Healthz_drain: "Healthz dp sv = (a, sv') \<Longrightarrow> px_drain (sv_proxy sv') = px_drain (sv_proxy sv) \<and> ((\<exists>n. a = HttpError n) \<or> (\<exists>n. a = Healthy n))"
  by (auto simp: Healthz_def split: prod.splits option.splits)

definition privileged :: "answer \<Rightarrow> bool" where
  "privileged a \<longleftrightarrow> (case a of DrainAccepted _ \<Rightarrow> True | DrainStatus _ \<Rightarrow> True | DrainCancelled _ \<Rightarrow> True | RoutingInfo _ \<Rightarrow> True | _ \<Rightarrow> False)"

lemma serve_privileged:
  assumes "\<And>p. px_drain (e_meanwhile e p) = px_drain p" and "serve cfg token get ftoa e rq sv = (a, sv')"
    and "px_drain (sv_proxy sv') \<noteq> px_drain (sv_proxy sv) \<or> privileged a"
  shows "authorized token rq"
proof (rule ccontr)
  assume n: "\<not> authorized token rq"
  have "px_drain (sv_proxy sv') = px_drain (sv_proxy sv) \<and> \<not> privileged a"
  proof (cases "mux (hr_method rq) (rq_path (hr_request rq))")
    case ToProxy
    with assms(2) show ?thesis
      by (auto simp: serve_def privileged_def dest: ServeHTTP_drain [OF assms(1)] split: prod.splits)
  next
    case ToHealthz
    with assms(2) Healthz_drain [of "pc_deps cfg" sv a sv'] show ?thesis by (auto simp: serve_def privileged_def)
  qed (use assms(2) n in \<open>auto simp: serve_def privileged_def AdminAuth_result\<close>)
  with assms(3) show False by simp
qed

text \<open>
  C23: The administrative endpoints act only for the holder of the token. Whatever the request,
  the drain registry changes and its contents or a routing state are disclosed only
  if a token is configured and the request carries exactly it as bearer token. With it, a
  drain is registered at once (a running one is kept) and a cancellation marks the running
  drain; without it the answer to these requests is 403 or 401 and nothing changes at all.
\<close>

theorem admin_endpoints_protected:
  assumes "\<And>p. px_drain (e_meanwhile e p) = px_drain p" and "serve cfg token get ftoa e rq sv = (a, sv')"
  shows "(px_drain (sv_proxy sv') \<noteq> px_drain (sv_proxy sv) \<or> privileged a \<longrightarrow> authorized token rq) \<and>
    (rq_path (hr_request rq) = ''/admin/drain'' \<longrightarrow> hr_backend rq \<noteq> [] \<longrightarrow>
      (hr_method rq = ''POST'' \<longrightarrow>
        (if authorized token rq
         then a = DrainAccepted (hr_backend rq) \<and> IsDraining (hr_backend rq) (px_drain (sv_proxy sv')) \<and>
           (\<forall>b. b \<noteq> hr_backend rq \<longrightarrow> IsDraining b (px_drain (sv_proxy sv')) = IsDraining b (px_drain (sv_proxy sv)))
         else a = HttpError (if token = [] then 403 else 401) \<and> sv' = sv)) \<and>
      (hr_method rq = ''DELETE'' \<longrightarrow> authorized token rq \<longrightarrow> IsDraining (hr_backend rq) (px_drain (sv_proxy sv)) \<longrightarrow>
        a = DrainCancelled (hr_backend rq) \<and> map_of (dm_draining (px_drain (sv_proxy sv'))) (hr_backend rq) = Some True))"
proof -
  have "(if authorized token rq
         then a = DrainAccepted (hr_backend rq) \<and> IsDraining (hr_backend rq) (px_drain (sv_proxy sv')) \<and>
           (\<forall>b. b \<noteq> hr_backend rq \<longrightarrow> IsDraining b (px_drain (sv_proxy sv')) = IsDraining b (px_drain (sv_proxy sv)))
         else a = HttpError (if token = [] then 403 else 401) \<and> sv' = sv)"
    if "rq_path (hr_request rq) = ''/admin/drain''" "hr_method rq = ''POST''" "hr_backend rq \<noteq> []"
    using assms(2) that
    by (auto simp: serve_def mux_def AdminAuth_result AdminDrainHandler_def set_drain_def StartDrain_def IsDraining_def update_conv'
        split: if_splits option.splits)
  moreover have "a = DrainCancelled (hr_backend rq) \<and> map_of (dm_draining (px_drain (sv_proxy sv'))) (hr_backend rq) = Some True"
    if "rq_path (hr_request rq) = ''/admin/drain''" "hr_method rq = ''DELETE''" "hr_backend rq \<noteq> []" "authorized token rq"
      "IsDraining (hr_backend rq) (px_drain (sv_proxy sv))"
    using assms(2) that
    by (auto simp: serve_def mux_def AdminAuth_result AdminCancelDrainHandler_def set_drain_def CancelDrain_def IsDraining_def update_conv'
        split: if_splits option.splits)
  ultimately show ?thesis using serve_privileged [OF assms] by blast
qed

definition demo_service :: "plain_redis service" where
  "demo_service = \<lparr>sv_proxy = demo_proxy, sv_health = NewHealthChecker True True, sv_metrics = new_metrics\<rparr>"

definition drain_request :: "string \<Rightarrow> http_request" where
  "drain_request auth = \<lparr>hr_method = ''POST'', hr_backend = ''b1'', hr_user = [],
     hr_request = \<lparr>rq_path = ''/admin/drain'', rq_authorization = auth, rq_upgrade = [], rq_remoteAddr = []\<rparr>\<rparr>"

theorem admin_endpoints_protected_witness:
  "fst (serve demo_cfg ''secret'' (\<lambda>_ s. (None, s)) (\<lambda>_. []) demo_env (drain_request ''Bearer guess'') demo_service) = HttpError 401 \<and>
   IsDraining ''b1'' (px_drain (sv_proxy (snd
     (serve demo_cfg ''secret'' (\<lambda>_ s. (None, s)) (\<lambda>_. []) demo_env (drain_request ''Bearer secret'') demo_service))))"
proof -
  have q: "px_drain (e_meanwhile demo_env p) = px_drain p" for p by (simp add: demo_env_def)
  let ?serve = "\<lambda>auth. serve demo_cfg ''secret'' (\<lambda>_ s. (None, s)) (\<lambda>_. []) demo_env (drain_request auth) demo_service"
  obtain a sv where a: "?serve ''Bearer guess'' = (a, sv)" by (cases "?serve ''Bearer guess''")
  obtain a' sv' where a': "?serve ''Bearer secret'' = (a', sv')" by (cases "?serve ''Bearer secret''")
  have "\<not> authorized ''secret'' (drain_request ''Bearer guess'')" "authorized ''secret'' (drain_request ''Bearer secret'')"
    by (simp_all add: authorized_def drain_request_def)
  then show ?thesis using admin_endpoints_protected [OF q a] admin_endpoints_protected [OF q a'] a a'
    by (simp add: drain_request_def)
qed

text \<open>What the debug endpoint reports of a cached user is where the next request of that user goes.\<close>

lemma debug_reports_route:
  assumes "hr_user rq \<noteq> []" and "cached (w_cache (px_world (sv_proxy sv))) now (hr_user rq) = Some b"
  shows "\<exists>i. fst (DebugRoutingHandler dp get now rq sv) = RoutingInfo i \<and> dr_backend i = b \<and> dr_cacheLayer i = ''local'' \<and>
    (fst (Available now b (px_backends (sv_proxy sv))) \<longrightarrow> \<not> IsDraining b (px_drain (sv_proxy sv)) \<longrightarrow>
      fst (route dp now (hr_user rq) (sv_proxy sv)) = Inr b)"
proof -
  obtain r c where g: "UserCache_Get now (hr_user rq) (w_cache (px_world (sv_proxy sv))) = (r, c)"
    by (cases "UserCache_Get now (hr_user rq) (w_cache (px_world (sv_proxy sv)))")
  then have "r = Inr b" using Get_result [of now "hr_user rq" "w_cache (px_world (sv_proxy sv))"] assms(2) by simp
  with g assms(1) route_hit [OF assms(2), of dp] show ?thesis by (auto simp: DebugRoutingHandler_def Let_def)
qed

end
