(* ===== verification/Service_Invariant.thy ===== *)
theory Service_Invariant
  imports Admin
begin

text \<open>
  The type of the running service: what holds of all its tables, counters and answers after any
  sequence of requests, whatever endpoint each is for. Every component's own well-formedness
  is in it, so that the lemmas of the components apply to every state the service reaches.
\<close>

section \<open>Well-formed states\<close>

definition bm_wf :: "backend_manager \<Rightarrow> bool" where
  "bm_wf b \<longleftrightarrow> wf_map (bm_failures b) \<and> distinct (bm_proxies b) \<and>
     (\<forall>x f. map_of (bm_failures b) x = Some f \<longrightarrow> 1 \<le> f_count f)"

definition breaker_wf :: "redis_cb \<Rightarrow> bool" where
  "breaker_wf r \<longleftrightarrow> 0 < cbThreshold r \<and> 0 \<le> cbFailures r \<and> cb_inv r"

text \<open>No cached token lacks a routing key.\<close>

definition keyed :: "jwt_cache \<Rightarrow> bool" where
  "keyed c \<longleftrightarrow> (\<forall>k j. map_of (jc_data c) k = Some j \<longrightarrow> cached_jwt.RoutingKey j \<noteq> [])"

definition proxy_wf :: "instant \<Rightarrow> 's proxy \<Rightarrow> bool" where
  "proxy_wf t p \<longleftrightarrow> uc_wf (w_cache (px_world p)) \<and> jc_wf (px_jwtCache p) \<and> keyed (px_jwtCache p) \<and>
     rl_wf (px_rateLimiter p) \<and> settled (px_rateLimiter p) t \<and> bm_wf (px_backends p) \<and>
     (\<forall>r. px_redis p = Some r \<longrightarrow> breaker_wf r) \<and> (\<forall>pill. px_poison p = Some pill \<longrightarrow> pp_wf pill) \<and>
     wf_map (dm_draining (px_drain p))"

lemmas proxy_wf_defs = proxy_wf_def set_cache_def set_store_def

lemma settled_mono: "settled rl t \<Longrightarrow> t \<le> t' \<Longrightarrow> settled rl t'"
  by (force simp: settled_def)

lemma proxy_wf_mono: "proxy_wf t p \<Longrightarrow> t \<le> t' \<Longrightarrow> proxy_wf t' p"
  by (auto simp: proxy_wf_def intro: settled_mono)

section \<open>Components keep it\<close>

lemma bm_wf_Available: "bm_wf b \<Longrightarrow> bm_wf (snd (Available now x b))"
  by (auto simp: bm_wf_def Available_def delete_conv' split: option.split)

lemma bm_wf_recordFailure: "bm_wf b \<Longrightarrow> bm_wf (recordFailure now x b)"
proof -
  assume b: "bm_wf b"
  then have "0 \<le> f_count f" if "map_of (bm_failures b) x = Some f" for f using that by (force simp: bm_wf_def)
  with b show ?thesis
    by (auto simp: bm_wf_def recordFailure_def Let_def update_conv' distinct_removeAll split: option.split)
qed

lemma bm_wf_getOrCreateProxy: "bm_wf b \<Longrightarrow> bm_wf (snd (getOrCreateProxy ok x b))"
  by (simp add: bm_wf_def getOrCreateProxy_def)

lemma bm_wf_ProxyRequest: "bm_wf b \<Longrightarrow> bm_wf (snd (ProxyRequest ok now now' up x b))"
  using bm_wf_Available [of b now x] bm_wf_getOrCreateProxy [of "snd (Available now x b)" ok x]
    bm_wf_recordFailure [of "snd (getOrCreateProxy ok x (snd (Available now x b)))" now' x]
  by (auto simp: ProxyRequest_def split: prod.splits bool.splits upstream.splits)

lemma breaker_wf_ops:
  assumes "breaker_wf r"
  shows "breaker_wf (snd (isCBOpen now r))" "breaker_wf (recordCBFailure now r)" "breaker_wf (recordCBSuccess r)"
  using assms cb_inv_step [of r "Probe now"] cb_inv_step [of r "Failure now"] cb_inv_step [of r Success]
  by (auto simp: breaker_wf_def cb_defs split: cb_state.splits)

lemma keyed_ops:
  "keyed c \<Longrightarrow> keyed (snd (JWTCache_Get now k c))"
  "keyed c \<Longrightarrow> cached_jwt.RoutingKey j \<noteq> [] \<Longrightarrow> keyed (JWTCache_Set k j c)"
  by (auto simp: keyed_def JWTCache_Get_def JWTCache_Set_def update_conv' delete_conv' split: option.split)

lemma extract_keyed:
  assumes "keyed c" and "jc_wf c" and "extractUserIDFromJWT parse now auth c secret claim = (r, c')"
  shows "keyed c' \<and> jc_wf c' \<and> (\<forall>j. r = Inr j \<longrightarrow> cached_jwt.RoutingKey j \<noteq> [])"
proof (cases "splitN2 auth")
  case (Some st)
  obtain scheme tok where st: "st = (scheme, tok)" by (cases st)
  obtain o1 c1 where g: "JWTCache_Get now tok c = (o1, c1)" by (cases "JWTCache_Get now tok c")
  have c1: "keyed c1" "jc_wf c1" using keyed_ops(1) [OF assms(1), of now tok] jc_wf_ops(2) [OF assms(2), of now tok] g by simp_all
  have hit: "cached_jwt.RoutingKey j \<noteq> []" if "o1 = Some j" for j
    using g that assms(1) by (auto simp: JWTCache_Get_def keyed_def split: option.splits if_splits)
  show ?thesis
  proof (cases o1)
    case None
    with assms Some st g c1 show ?thesis
      by (auto simp: extractUserIDFromJWT_def Let_def intro!: keyed_ops(2) split: sum.splits if_splits)
  qed (use assms Some st g c1 hit in \<open>auto simp: extractUserIDFromJWT_def split: if_splits\<close>)
qed (use assms in \<open>auto simp: extractUserIDFromJWT_def\<close>)

section \<open>The handler keeps it\<close>

lemma proxy_wf_set [simp]:
  "proxy_wf t (set_store s p) = proxy_wf t p"
  "proxy_wf t (p\<lparr>px_world := send_hook dp h w\<rparr>) = proxy_wf t (p\<lparr>px_world := w\<rparr>)"
  "proxy_wf t p \<Longrightarrow> uc_wf c \<Longrightarrow> proxy_wf t (set_cache c p)"
  by (simp_all add: proxy_wf_defs send_hook_def)

lemma proxy_wf_cache: "proxy_wf t p \<Longrightarrow> uc_wf (w_cache (px_world p))"
  by (simp add: proxy_wf_def)

lemma proxy_wf_redis: "proxy_wf t p \<Longrightarrow> (\<forall>r. o1 = Some r \<longrightarrow> breaker_wf r) \<Longrightarrow> proxy_wf t (p\<lparr>px_redis := o1\<rparr>)"
  by (simp add: proxy_wf_def)

lemma cb_check_wf: "proxy_wf t p \<Longrightarrow> cb_check now p = (b, q) \<Longrightarrow> proxy_wf t q"
  using breaker_wf_ops(1) [of _ now]
  by (auto simp: cb_check_def proxy_wf_def split: option.splits prod.splits) (metis snd_conv)

lemma assignViaTable_wf: "proxy_wf t p \<Longrightarrow> assignViaTable dp now k p = (r, q) \<Longrightarrow> proxy_wf t q"
proof -
  assume p: "proxy_wf t p" and a: "assignViaTable dp now k p = (r, q)"
  obtain b p1 where c: "cb_check now p = (b, p1)" by (cases "cb_check now p")
  note p1 = cb_check_wf [OF p c]
  have "proxy_wf t ((set_store s p1)\<lparr>px_redis := map_option (recordCBFailure now) (px_redis p1)\<rparr>)"
    "proxy_wf t ((set_store s p1)\<lparr>px_redis := map_option recordCBSuccess (px_redis p1)\<rparr>)" for s
    using p1 breaker_wf_ops(2, 3) by (auto simp: proxy_wf_defs)
  with a c p1 show ?thesis by (auto simp: assignViaTable_def Let_def split: prod.splits sum.splits if_splits)
qed

lemma assignViaHash_wf: "proxy_wf t p \<Longrightarrow> assignViaHash dp k p = (r, q) \<Longrightarrow> proxy_wf t q"
  by (auto simp: assignViaHash_def split: prod.splits sum.splits if_splits)

lemma assign_backend_wf:
  assumes "proxy_wf t p" and "assign_backend dp now k p = (r, q)"
  shows "proxy_wf t q" "r = Inl st \<Longrightarrow> st = StatusServiceUnavailable"
proof -
  obtain o1 p1 where a: "(if d_routingMode dp = ''assignment'' then assignViaTable dp now k p else assignViaHash dp k p) = (o1, p1)"
    by (cases "if d_routingMode dp = ''assignment'' then assignViaTable dp now k p else assignViaHash dp k p")
  then have p1: "proxy_wf t p1" using assms(1) assignViaTable_wf assignViaHash_wf by (metis (full_types))
  show "proxy_wf t q" "r = Inl st \<Longrightarrow> st = StatusServiceUnavailable"
    using assms(2) a p1 proxy_wf_cache [OF p1] by (auto simp: assign_backend_def Let_def split: option.splits)
qed

lemma route_wf:
  assumes "proxy_wf t p" and "route dp now k p = (r, q)"
  shows "proxy_wf t q \<and> (\<forall>st. r = Inl st \<longrightarrow> st = StatusServiceUnavailable)"
proof -
  obtain g c where g: "UserCache_Get now k (w_cache (px_world p)) = (g, c)" by (cases "UserCache_Get now k (w_cache (px_world p))")
  have c: "uc_wf c" using uc_wf_ops(2) [OF proxy_wf_cache [OF assms(1)], of now k] g by simp
  then have p1: "proxy_wf t (set_cache c p)" using assms(1) by simp
  show ?thesis
  proof (cases g)
    case (Inl miss)
    with assms(2) g assign_backend_wf [OF p1] show ?thesis by (auto simp: route_def)
  next
    case (Inr b)
    obtain up bm where av: "Available now b (px_backends p) = (up, bm)" by (cases "Available now b (px_backends p)")
    let ?p = "(set_cache c p)\<lparr>px_backends := bm\<rparr>"
    have "bm_wf bm" using bm_wf_Available [of "px_backends p" now b] av assms(1) by (simp add: proxy_wf_def)
    then have p2: "proxy_wf t ?p" using p1 by (simp add: proxy_wf_def)
    obtain quar pill where q: "(case px_poison ?p of None \<Rightarrow> (False, None)
        | Some pill \<Rightarrow> map_prod (\<lambda>q. q) Some (RecordReassignment now k pill)) = (quar, pill)"
      by (cases "case px_poison ?p of None \<Rightarrow> (False, None) | Some pill \<Rightarrow> map_prod (\<lambda>q. q) Some (RecordReassignment now k pill)")
    have "\<forall>x. pill = Some x \<longrightarrow> pp_wf x"
    proof (cases "px_poison ?p")
      case (Some d)
      then have "pp_wf d" using p2 by (simp add: proxy_wf_def)
      from pp_wf_ops(2) [OF this, of now k] q Some show ?thesis by (cases "RecordReassignment now k d") auto
    qed (use q in auto)
    then have p3: "proxy_wf t (?p\<lparr>px_poison := pill\<rparr>)" using p2 by (simp add: proxy_wf_def)
    then have "proxy_wf t (set_cache (UserCache_Invalidate k (w_cache (px_world (?p\<lparr>px_poison := pill\<rparr>)))) (?p\<lparr>px_poison := pill\<rparr>))"
      using c by simp
    note a = assign_backend_wf [OF this]
    show ?thesis
    proof (cases "up \<and> \<not> IsDraining b (px_drain ?p) \<or> quar")
      case True
      with assms(2) g Inr av q p2 p3 show ?thesis by (auto simp: route_def Let_def split: if_splits)
    next
      case False
      with assms(2) g Inr av q a show ?thesis by (auto simp: route_def Let_def split: if_splits)
    qed
  qed
qed

lemma ProxyRequest_status:
  "fst (ProxyRequest ok now now' up b bm) \<in> {StatusBadGateway, StatusServiceUnavailable} \<or> up = Answered (fst (ProxyRequest ok now now' up b bm))"
  by (auto simp: ProxyRequest_def split: prod.splits bool.splits upstream.splits)

lemma bindStickyKey_wf: "proxy_wf t p \<Longrightarrow> proxy_wf t (bindStickyKey dp now k b p)"
  using proxy_wf_cache [of t p] by (simp add: bindStickyKey_def Let_def)

definition response_ok :: "'s request_env \<Rightarrow> response \<Rightarrow> bool" where
  "response_ok e r \<longleftrightarrow> (case r of
      Refused st \<Rightarrow> st \<in> {401, 429, 503}
    | Forwarded k b st \<Rightarrow> k \<noteq> [] \<and> (st \<in> {502, 503} \<or> e_upstream e = Answered st)
    | Bridged k b \<Rightarrow> k \<noteq> []
    | PublicForwarded b st \<Rightarrow> st \<in> {502, 503} \<or> e_upstream e = Answered st)"

lemmas status_defs = StatusServiceUnavailable_def StatusBadGateway_def StatusUnauthorized_def StatusTooManyRequests_def

lemma proxied_wf:
  assumes "proxy_wf t p" and "ProxyRequest ok now now' (e_upstream e) b (px_backends p) = (st, bm)"
  shows "proxy_wf t (p\<lparr>px_backends := bm\<rparr>)" "st \<in> {502, 503} \<or> e_upstream e = Answered st"
  using assms bm_wf_ProxyRequest [of "px_backends p" ok now now' "e_upstream e" b] ProxyRequest_status [of ok now now' "e_upstream e" b "px_backends p"]
  by (auto simp: proxy_wf_def status_defs)

lemma servePublic_wf:
  assumes "proxy_wf t p" and "servePublic cfg e rq p = (r, q)"
  shows "proxy_wf t q \<and> response_ok e r"
proof -
  obtain bs s where a: "ActiveBackends (d_store (pc_deps cfg)) (w_store (px_world p)) = (bs, s)"
    by (cases "ActiveBackends (d_store (pc_deps cfg)) (w_store (px_world p))")
  have p1: "proxy_wf t (set_store s p)" using assms(1) by simp
  note d = servePublic_def response_ok_def status_defs
  show ?thesis
  proof (cases bs)
    case (Inl err)
    with assms(2) a p1 show ?thesis by (auto simp: d)
  next
    case (Inr backends)
    show ?thesis
    proof (cases "if backends = [] then None else pick_backend (sort backends) (HashUser (rq_remoteAddr rq))")
      case None
      with assms(2) a p1 Inr show ?thesis by (auto simp: d)
    next
      case (Some b)
      obtain st bm where pr: "ProxyRequest (pc_url_ok cfg) (e_arrival e) (e_answered e) (e_upstream e) b (px_backends (set_store s p)) = (st, bm)"
        by (cases "ProxyRequest (pc_url_ok cfg) (e_arrival e) (e_answered e) (e_upstream e) b (px_backends (set_store s p))")
      from assms(2) a Inr Some pr have "r = PublicForwarded b st" "q = (set_store s p)\<lparr>px_backends := bm\<rparr> \<or>
          (\<exists>key. q = bindStickyKey (pc_deps cfg) (e_answered e) key b ((set_store s p)\<lparr>px_backends := bm\<rparr>))"
        by (auto simp: servePublic_def Let_def split: if_splits)
      with proxied_wf [OF p1 pr] show ?thesis using bindStickyKey_wf by (auto simp: response_ok_def)
    qed
  qed
qed

lemma forward_wf:
  assumes "proxy_wf t p" and "forward cfg e rq k b p = (r, q)" and "k \<noteq> []"
  shows "proxy_wf t q \<and> response_ok e r"
proof (cases "isWebSocket rq")
  case False
  obtain st bm where pr: "ProxyRequest (pc_url_ok cfg) (e_routed e) (e_answered e) (e_upstream e) b (px_backends p) = (st, bm)"
    by (cases "ProxyRequest (pc_url_ok cfg) (e_routed e) (e_answered e) (e_upstream e) b (px_backends p)")
  with False assms(2, 3) proxied_wf [OF assms(1) pr] show ?thesis by (auto simp: forward_def response_ok_def)
qed (use assms in \<open>auto simp: forward_def response_ok_def\<close>)

text \<open>What the other goroutines do while a request is held keeps the state well-formed.\<close>

definition env_ok :: "instant \<Rightarrow> 's request_env \<Rightarrow> bool" where
  "env_ok t e \<longleftrightarrow> t \<le> e_arrival e \<and> e_arrival e \<le> e_routed e \<and>
     (\<forall>q. proxy_wf (e_arrival e) q \<longrightarrow> proxy_wf (e_routed e) (e_meanwhile e q))"

lemma routed_wf:
  assumes "proxy_wf t p" and "k \<noteq> []"
    and "(case route dp now k p of (Inl status, q) \<Rightarrow> (Refused status, q) | (Inr b, q) \<Rightarrow> forward cfg e rq k b q) = (r, q')"
  shows "proxy_wf t q' \<and> response_ok e r"
proof -
  obtain rt q where rt: "route dp now k p = (rt, q)" by (cases "route dp now k p")
  note r = route_wf [OF assms(1) rt]
  show ?thesis
  proof (cases rt)
    case (Inl st)
    with assms(3) rt r show ?thesis by (auto simp: response_ok_def status_defs)
  next
    case (Inr b)
    with assms(3) rt forward_wf [OF conjunct1 [OF r] _ assms(2), of cfg e rq b] show ?thesis by simp
  qed
qed

lemma ServeHTTP_wf:
  assumes "proxy_wf t p" and "env_ok t e" and "ServeHTTP cfg e rq p = (r, q)"
  shows "proxy_wf (e_routed e) q \<and> response_ok e r"
proof -
  have p: "proxy_wf (e_arrival e) p" using assms(1, 2) proxy_wf_mono by (auto simp: env_ok_def)
  have up: "proxy_wf (e_routed e) q1" if "proxy_wf (e_arrival e) q1" for q1 using that assms(2) proxy_wf_mono by (auto simp: env_ok_def)
  obtain j jc where x: "extractUserIDFromJWT (pc_parse cfg) (e_arrival e) (rq_authorization rq) (px_jwtCache p) (pc_jwtSecret cfg) (pc_routingClaim cfg) = (j, jc)"
    by (cases "extractUserIDFromJWT (pc_parse cfg) (e_arrival e) (rq_authorization rq) (px_jwtCache p) (pc_jwtSecret cfg) (pc_routingClaim cfg)")
  have k: "keyed jc \<and> jc_wf jc \<and> (\<forall>c. j = Inr c \<longrightarrow> cached_jwt.RoutingKey c \<noteq> [])"
    by (rule extract_keyed [OF _ _ x]) (use p in \<open>simp_all add: proxy_wf_def\<close>)
  have p1: "proxy_wf (e_arrival e) (p\<lparr>px_jwtCache := jc\<rparr>)" using p k by (simp add: proxy_wf_def)
  show ?thesis
  proof (cases "isPublicPath (pc_publicPaths cfg) (rq_path rq)")
    case True
    with assms(3) have "servePublic cfg e rq p = (r, q)" by (simp add: ServeHTTP_def)
    from servePublic_wf [OF p this] up show ?thesis by blast
  next
    case False
    show ?thesis
    proof (cases j)
      case (Inl err)
      with assms(3) False x up [OF p1] show ?thesis by (auto simp: ServeHTTP_def response_ok_def status_defs)
    next
      case (Inr c)
      let ?k = "cached_jwt.RoutingKey c"
      obtain ok rl where al: "Allow (e_arrival e) ?k (px_rateLimiter p) = (ok, rl)" by (cases "Allow (e_arrival e) ?k (px_rateLimiter p)")
      let ?p = "p\<lparr>px_jwtCache := jc, px_rateLimiter := rl\<rparr>"
      have "rl_wf rl \<and> settled rl (e_arrival e)"
        using Allow_wf [of "px_rateLimiter p" "e_arrival e" ?k] Allow_settled [of "px_rateLimiter p" "e_arrival e" ?k] al p by (simp add: proxy_wf_def)
      then have p2: "proxy_wf (e_arrival e) ?p" using p1 by (simp add: proxy_wf_def)
      let ?q = "if held_back (pc_deps cfg) ?k ?p then e_meanwhile e ?p else ?p"
      have q: "proxy_wf (e_routed e) ?q" using p2 up [OF p2] assms(2) by (simp add: env_ok_def)
      have "?k \<noteq> []" using k Inr by simp
      note r = routed_wf [OF q this]
      consider "\<not> ok" | "ok" "quarantined_key ?k ?p" | "ok" "\<not> quarantined_key ?k ?p" by blast
      then show ?thesis
      proof cases
        case 3
        with assms(3) False x Inr al show ?thesis by (intro r) (simp add: ServeHTTP_def Let_def)
      qed (use assms(3) False x Inr al up [OF p2] in \<open>auto simp: ServeHTTP_def Let_def response_ok_def status_defs\<close>)
    qed
  qed
qed

section \<open>The service\<close>

definition service_wf :: "instant \<Rightarrow> 's service \<Rightarrow> bool" where
  "service_wf t sv \<longleftrightarrow> proxy_wf t (sv_proxy sv)"

definition answer_ok :: "'s request_env \<Rightarrow> answer \<Rightarrow> bool" where
  "answer_ok e a \<longleftrightarrow> (case a of
      Proxied r \<Rightarrow> response_ok e r
    | HttpError st \<Rightarrow> st \<in> {400, 401, 403, 503}
    | DrainAccepted b \<Rightarrow> b \<noteq> []
    | DrainCancelled b \<Rightarrow> b \<noteq> []
    | DrainStatus bs \<Rightarrow> distinct bs
    | RoutingInfo i \<Rightarrow> dr_user i \<noteq> [] \<and> dr_cacheLayer i \<in> {''none'', ''local'', ''store'', ''redis''}
    | _ \<Rightarrow> True)"

lemma drain_ops_wf:
  "wf_map (dm_draining d) \<Longrightarrow> wf_map (dm_draining (snd (StartDrain b d)))"
  "wf_map (dm_draining d) \<Longrightarrow> wf_map (dm_draining (CancelDrain b d))"
  by (auto simp: StartDrain_def CancelDrain_def split: option.split)

lemma Healthz_wf: "proxy_wf t (sv_proxy sv) \<Longrightarrow> Healthz dp sv = (a, sv') \<Longrightarrow> proxy_wf t (sv_proxy sv') \<and> answer_ok e a"
  by (auto simp: Healthz_def answer_ok_def split: prod.splits option.splits)

lemma drain_handlers_wf:
  assumes "proxy_wf t (sv_proxy sv)"
  shows "hr_method rq = ''POST'' \<Longrightarrow> AdminDrainHandler rq sv = (a, sv') \<Longrightarrow> proxy_wf t (sv_proxy sv') \<and> answer_ok e a"
    "hr_method rq = ''DELETE'' \<Longrightarrow> AdminCancelDrainHandler rq sv = (a, sv') \<Longrightarrow> proxy_wf t (sv_proxy sv') \<and> answer_ok e a"
    "AdminDrainStatusHandler rq sv = (a, sv') \<Longrightarrow> proxy_wf t (sv_proxy sv') \<and> answer_ok e a"
  using assms drain_ops_wf [of "px_drain (sv_proxy sv)" "hr_backend rq"]
  by (auto simp: AdminDrainHandler_def AdminCancelDrainHandler_def AdminDrainStatusHandler_def DrainingBackends_def set_drain_def
      proxy_wf_def answer_ok_def split: if_splits)

lemma DebugRouting_wf:
  assumes "proxy_wf t (sv_proxy sv)" and "DebugRoutingHandler dp get now rq sv = (a, sv')"
  shows "proxy_wf t (sv_proxy sv') \<and> answer_ok e a"
proof -
  obtain g c where g: "UserCache_Get now (hr_user rq) (w_cache (px_world (sv_proxy sv))) = (g, c)"
    by (cases "UserCache_Get now (hr_user rq) (w_cache (px_world (sv_proxy sv)))")
  have "uc_wf c" using uc_wf_ops(2) [OF proxy_wf_cache [OF assms(1)], of now "hr_user rq"] g by simp
  then have "proxy_wf t (set_cache c (sv_proxy sv))" using assms(1) by simp
  with assms g show ?thesis
    by (auto simp: DebugRoutingHandler_def Let_def answer_ok_def split: sum.splits prod.splits option.splits if_splits)
qed

lemma AdminAuth_wf:
  assumes "proxy_wf t (sv_proxy sv)" and "AdminAuth token handler rq sv = (a, sv')"
    and "\<And>a sv'. handler rq sv = (a, sv') \<Longrightarrow> proxy_wf t (sv_proxy sv') \<and> answer_ok e a"
  shows "proxy_wf t (sv_proxy sv') \<and> answer_ok e a"
  using assms by (auto simp: AdminAuth_result answer_ok_def split: if_splits)

lemma mux_method: "mux m path = ToDrain \<Longrightarrow> m = ''POST''" "mux m path = ToCancelDrain \<Longrightarrow> m = ''DELETE''"
  by (auto simp: mux_def split: if_splits)

lemma serve_wf:
  assumes "service_wf t sv" and "env_ok t e" and "serve cfg token get ftoa e rq sv = (a, sv')"
  shows "service_wf (e_routed e) sv' \<and> answer_ok e a"
proof -
  have p: "proxy_wf t (sv_proxy sv)" using assms(1) by (simp add: service_wf_def)
  have up: "proxy_wf (e_routed e) q" if "proxy_wf t q" for q
    using that assms(2) proxy_wf_mono [of t q "e_routed e"] by (simp add: env_ok_def)
  let ?m = "hr_method rq" and ?path = "rq_path (hr_request rq)"
  have "proxy_wf (e_routed e) (sv_proxy sv') \<and> answer_ok e a"
  proof (cases "mux ?m ?path")
    case ToProxy
    obtain r q where s: "ServeHTTP cfg e (hr_request rq) (sv_proxy sv) = (r, q)" by (cases "ServeHTTP cfg e (hr_request rq) (sv_proxy sv)")
    with ToProxy assms(3) ServeHTTP_wf [OF p assms(2) s] show ?thesis by (auto simp: serve_def answer_ok_def)
  next
    case ToHealthz
    with assms(3) Healthz_wf [OF p, of "pc_deps cfg" a sv' e] up [of "sv_proxy sv'"] show ?thesis by (simp add: serve_def)
  next
    case ToMetrics
    with assms(3) p up show ?thesis by (auto simp: serve_def answer_ok_def)
  next
    case ToDrain
    with assms(3) have "AdminAuth token AdminDrainHandler rq sv = (a, sv')" by (simp add: serve_def)
    from AdminAuth_wf [OF p this, of e] drain_handlers_wf(1) [OF p mux_method(1) [OF ToDrain]] up show ?thesis by blast
  next
    case ToDrainStatus
    with assms(3) have "AdminAuth token AdminDrainStatusHandler rq sv = (a, sv')" by (simp add: serve_def)
    from AdminAuth_wf [OF p this, of e] drain_handlers_wf(3) [OF p] up show ?thesis by blast
  next
    case ToCancelDrain
    with assms(3) have "AdminAuth token AdminCancelDrainHandler rq sv = (a, sv')" by (simp add: serve_def)
    from AdminAuth_wf [OF p this, of e] drain_handlers_wf(2) [OF p mux_method(2) [OF ToCancelDrain]] up show ?thesis by blast
  next
    case ToDebug
    with assms(3) have "AdminAuth token (DebugRoutingHandler (pc_deps cfg) get (e_arrival e)) rq sv = (a, sv')" by (simp add: serve_def)
    from AdminAuth_wf [OF p this, of e] DebugRouting_wf [OF p] up show ?thesis by blast
  qed
  then show ?thesis by (simp add: service_wf_def)
qed

fun serve_all ::
  "'s proxy_cfg \<Rightarrow> string \<Rightarrow> (string \<Rightarrow> 's \<Rightarrow> string option \<times> 's) \<Rightarrow> (rat \<Rightarrow> string) \<Rightarrow> ('s request_env \<times> http_request) list \<Rightarrow>
   's service \<Rightarrow> answer list \<times> 's service" where
  "serve_all cfg token get ftoa [] sv = ([], sv)"
| "serve_all cfg token get ftoa ((e, rq) # rs) sv =
     (let (a, sv) = serve cfg token get ftoa e rq sv; (as, sv) = serve_all cfg token get ftoa rs sv in (a # as, sv))"

text \<open>The requests arrive in order: one is routed before the next arrives.\<close>

fun in_time :: "instant \<Rightarrow> ('s request_env \<times> http_request) list \<Rightarrow> bool" where
  "in_time t [] = True"
| "in_time t ((e, rq) # rs) = (env_ok t e \<and> in_time (e_routed e) rs)"

text \<open>
  C2: The service is well-typed and stays so. Starting from a well-formed state, after any
  sequence of requests to any of its endpoints every table still has one entry per key, no
  rate-limit bucket is negative, no failure record is empty, the Redis breaker's state fits
  its failure count and no cached token lacks a routing key; and every answer has its proper
  form: a refusal is a 401, 429 or 503, a forwarded request carries a user and the status of
  the backend, 502 or 503, an administrative error is a 400, 401, 403 or 503.
\<close>

theorem service_well_typed:
  assumes "service_wf t sv" and "in_time t rs" and "serve_all cfg token get ftoa rs sv = (as, sv')"
  shows "(\<exists>t'. service_wf t' sv') \<and> list_all2 (\<lambda>(e, rq) a. answer_ok e a) rs as"
  using assms
proof (induction rs arbitrary: t sv as)
  case (Cons x rs)
  obtain e rq where x: "x = (e, rq)" by (cases x)
  obtain a sv1 where s: "serve cfg token get ftoa e rq sv = (a, sv1)" by (cases "serve cfg token get ftoa e rq sv")
  obtain as1 sv2 where r: "serve_all cfg token get ftoa rs sv1 = (as1, sv2)" by (cases "serve_all cfg token get ftoa rs sv1")
  have "env_ok t e" "in_time (e_routed e) rs" using Cons.prems(2) x by simp_all
  moreover have "serve_all cfg token get ftoa rs sv1 = (as1, sv')" "as = a # as1" using Cons.prems(3) x s r by auto
  ultimately show ?case using serve_wf [OF Cons.prems(1) _ s] Cons.IH [of "e_routed e" sv1 as1] x by auto
qed auto

theorem service_well_typed_witness:
  "\<exists>sv'. serve_all demo_cfg ''secret'' (\<lambda>_ s. (None, s)) (\<lambda>_. [])
      [(demo_env, drain_request ''Bearer secret''), (demo_env, drain_request ''Bearer guess'')] demo_service =
      ([DrainAccepted ''b1'', HttpError 401], sv') \<and> (\<exists>t. service_wf t sv')"
proof -
  let ?rs = "[(demo_env, drain_request ''Bearer secret''), (demo_env, drain_request ''Bearer guess'')]"
  let ?s = "serve_all demo_cfg ''secret'' (\<lambda>_ s. (None, s)) (\<lambda>_. []) ?rs demo_service"
  obtain as sv' where s: "?s = (as, sv')" by (cases ?s)
  have "service_wf 0 demo_service"
    by (simp add: service_wf_def proxy_wf_def demo_service_def demo_proxy_def demo_world_def NewRateLimiter_wf settled_def NewRateLimiter_def
        bm_wf_def NewBackendManager_def breaker_wf_def NewRedis_def cb_inv_def keyed_def NewJWTCache_def NewDrainManager_def jc_wf_def rl_wf_def)
  moreover have "in_time 0 ?rs" by (simp add: env_ok_def demo_env_def)
  ultimately have "\<exists>t. service_wf t sv'" using service_well_typed [OF _ _ s] by blast
  moreover have "fst ?s = [DrainAccepted ''b1'', HttpError 401]" by code_simp
  ultimately show ?thesis using s by simp
qed

end
