(* ===== verification/Request_Metrics.thy ===== *)
theory Request_Metrics
  imports Service_Invariant
begin

text \<open>
  What one request does to the metrics: the calls of the counter functions in \<^verbatim>\<open>ServeHTTP\<close> and in
  the functions it calls (proxy.go, hold.go, poison.go), branch by branch, beside the model
  of what it does to the state. The hooks are sent by other goroutines and count for
  themselves.
\<close>

record 's measured_env = "'s request_env" +
  e_timedOut :: bool
  e_finished :: instant

abbreviation env_of :: "'s measured_env \<Rightarrow> 's request_env" where
  "env_of e \<equiv> request_env.truncate e"

section \<open>The calls\<close>

definition table_events :: "'s deps \<Rightarrow> instant \<Rightarrow> string \<Rightarrow> 's proxy \<Rightarrow> metric_event list" where
  "table_events dp now k p =
     (let (is_open, p) = cb_check now p
      in (if is_open then [Incremented redisCBFallbacks] else []) @
         (if is_open \<and> fallback k p \<noteq> [] then []
          else case AssignLeastLoaded (d_store dp) now k (w_store (px_world p)) of
                 (Inr a, s) \<Rightarrow> []
               | (Inl err, s) \<Rightarrow>
                   if px_redis p = None then []
                   else Incremented redisFailures # (if fallback k p \<noteq> [] then [Incremented redisCBFallbacks] else [])))"

definition assign_events :: "'s deps \<Rightarrow> instant \<Rightarrow> string \<Rightarrow> 's proxy \<Rightarrow> metric_event list" where
  "assign_events dp now k p =
     (if d_routingMode dp = ''assignment'' then table_events dp now k p else []) @
     (case assign_backend dp now k p of
        (Inl st, q) \<Rightarrow> [Incremented cacheMisses, Incremented backendErrors]
      | (Inr b, q) \<Rightarrow> [Incremented cacheHitsStore, BackendRequest b])"

definition reassignment_events :: "instant \<Rightarrow> string \<Rightarrow> poison_detector \<Rightarrow> metric_event list" where
  "reassignment_events now k pill =
     (if \<not> IsQuarantined k pill \<and> fst (RecordReassignment now k pill)
      then [Incremented poisonPillDetections, GaugeAdded quarantinedAccounts 1] else [])"

definition route_events :: "'s deps \<Rightarrow> instant \<Rightarrow> string \<Rightarrow> 's proxy \<Rightarrow> metric_event list" where
  "route_events dp now k p =
     (case UserCache_Get now k (w_cache (px_world p)) of
        (Inl miss, c) \<Rightarrow> assign_events dp now k (set_cache c p)
      | (Inr b, c) \<Rightarrow>
          let p = set_cache c p;
              (up, bm) = Available now b (px_backends p);
              p = p\<lparr>px_backends := bm\<rparr>
          in if up \<and> \<not> IsDraining b (px_drain p) then [Incremented cacheHitsLocal, BackendRequest b]
             else
               let recorded = (case px_poison p of None \<Rightarrow> [] | Some pill \<Rightarrow> reassignment_events now k pill);
                   (quarantined, pill) = (case px_poison p of
                       None \<Rightarrow> (False, None)
                     | Some pill \<Rightarrow> map_prod (\<lambda>q. q) Some (RecordReassignment now k pill));
                   p = p\<lparr>px_poison := pill\<rparr>
               in if quarantined then recorded @ [Incremented poisonPillBlocked]
                  else recorded @ assign_events dp now k (set_cache (UserCache_Invalidate k (w_cache (px_world p))) p))"

definition public_events :: "'s proxy_cfg \<Rightarrow> request \<Rightarrow> 's proxy \<Rightarrow> metric_event list" where
  "public_events cfg rq p =
     (case ActiveBackends (d_store (pc_deps cfg)) (w_store (px_world p)) of
        (Inl err, s) \<Rightarrow> []
      | (Inr backends, s) \<Rightarrow>
          (case (if backends = [] then None else pick_backend (sort backends) (HashUser (rq_remoteAddr rq))) of
             None \<Rightarrow> [] | Some backend \<Rightarrow> [BackendRequest backend]))"

definition hold_events :: "bool \<Rightarrow> metric_event list" where
  "hold_events timedOut = Incremented holdRequests # (if timedOut then [Incremented holdTimeouts] else [])"

definition handler_events :: "'s proxy_cfg \<Rightarrow> 's measured_env \<Rightarrow> request \<Rightarrow> 's proxy \<Rightarrow> metric_event list" where
  "handler_events cfg e rq p =
     (if isPublicPath (pc_publicPaths cfg) (rq_path rq) then public_events cfg rq p
      else
        case extractUserIDFromJWT (pc_parse cfg) (e_arrival e) (rq_authorization rq) (px_jwtCache p)
               (pc_jwtSecret cfg) (pc_routingClaim cfg) of
          (Inl err, jc) \<Rightarrow> [Incremented authFailures]
        | (Inr jwtData, jc) \<Rightarrow>
            let p = p\<lparr>px_jwtCache := jc\<rparr>;
                stickyKey = cached_jwt.RoutingKey jwtData;
                (allowed, rl) = Allow (e_arrival e) stickyKey (px_rateLimiter p);
                p = p\<lparr>px_rateLimiter := rl\<rparr>
            in if \<not> allowed then [Incremented rateLimited]
               else if quarantined_key stickyKey p then [Incremented poisonPillBlocked]
               else if held_back (pc_deps cfg) stickyKey p
                    then hold_events (e_timedOut e) @ route_events (pc_deps cfg) (e_routed e) stickyKey (e_meanwhile e p)
                    else route_events (pc_deps cfg) (e_routed e) stickyKey p)"

definition request_events :: "'s proxy_cfg \<Rightarrow> 's measured_env \<Rightarrow> request \<Rightarrow> 's proxy \<Rightarrow> metric_event list" where
  "request_events cfg e rq p =
     [Incremented totalRequests, GaugeAdded activeConnections 1] @
     (if isWebSocket rq then [Incremented wsConnections] else []) @
     handler_events cfg e rq p @
     [GaugeAdded activeConnections (- 1), Observed (seconds_between (e_arrival e) (e_finished e))]"

fun serve_measured ::
  "'s proxy_cfg \<Rightarrow> ('s measured_env \<times> request) list \<Rightarrow> 's proxy \<Rightarrow> response list \<times> metric_event list \<times> 's proxy" where
  "serve_measured cfg [] p = ([], [], p)"
| "serve_measured cfg ((e, rq) # rs) p =
     (let evs = request_events cfg e rq p;
          (r, p) = ServeHTTP cfg (env_of e) rq p;
          (as, evs', p) = serve_measured cfg rs p
      in (r # as, evs @ evs', p))"

section \<open>Tallies\<close>

fun goes_to_backend :: "metric_event \<Rightarrow> bool" where
  "goes_to_backend (BackendRequest _) = True"
| "goes_to_backend _ = False"

fun served :: "response \<Rightarrow> bool" where
  "served (Forwarded _ _ _) = True"
| "served (Bridged _ _) = True"
| "served _ = False"

fun reached :: "response \<Rightarrow> bool" where
  "reached (Refused _) = False"
| "reached _ = True"

definition backend_calls :: "metric_event list \<Rightarrow> nat" where
  "backend_calls evs = length (filter goes_to_backend evs)"

lemma tally_simps [simp]:
  "counted c [] = 0" "counted c (xs @ ys) = counted c xs + counted c ys"
  "counted c (Incremented d # xs) = (if d = c then 1 else 0) + counted c xs"
  "counted c (BackendRequest b # xs) = counted c xs" "counted c (GaugeAdded g n # xs) = counted c xs"
  "counted c (Observed x # xs) = counted c xs"
  "backend_calls [] = 0" "backend_calls (xs @ ys) = backend_calls xs + backend_calls ys"
  "backend_calls (e # xs) = (if goes_to_backend e then 1 else 0) + backend_calls xs"
  "observed [] = []" "observed (xs @ ys) = observed xs @ observed ys"
  "observed (Incremented d # xs) = observed xs" "observed (BackendRequest b # xs) = observed xs"
  "observed (GaugeAdded g n # xs) = observed xs" "observed (Observed x # xs) = x # observed xs"
  by (simp_all add: counted_def backend_calls_def observed_def map_filter_def)

text \<open>The counters that a request touches once, by the branch it takes.\<close>

record tally =
  t_requests :: nat
  t_auth :: nat
  t_limited :: nat
  t_blocked :: nat
  t_failed :: nat
  t_errors :: nat
  t_served :: nat
  t_calls :: nat
  t_observed :: nat

definition tally_of :: "metric_event list \<Rightarrow> tally" where
  "tally_of evs = \<lparr>t_requests = counted totalRequests evs, t_auth = counted authFailures evs, t_limited = counted rateLimited evs,
     t_blocked = counted poisonPillBlocked evs, t_failed = counted cacheMisses evs, t_errors = counted backendErrors evs,
     t_served = counted cacheHitsLocal evs + counted cacheHitsStore evs, t_calls = backend_calls evs,
     t_observed = length (observed evs)\<rparr>"

definition no_tally :: tally where
  "no_tally = \<lparr>t_requests = 0, t_auth = 0, t_limited = 0, t_blocked = 0, t_failed = 0, t_errors = 0, t_served = 0, t_calls = 0, t_observed = 0\<rparr>"

lemma table_events_tally: "tally_of (table_events dp now k p @ evs) = tally_of evs"
  by (auto simp: table_events_def tally_of_def Let_def split: prod.split sum.split)

lemma reassignment_events_tally: "tally_of (reassignment_events now k pill @ evs) = tally_of evs"
  by (simp add: reassignment_events_def tally_of_def)

lemma assign_events_tally:
  "tally_of (assign_events dp now k p) =
     (case fst (assign_backend dp now k p) of
        Inl st \<Rightarrow> no_tally\<lparr>t_failed := 1, t_errors := 1\<rparr> | Inr b \<Rightarrow> no_tally\<lparr>t_served := 1, t_calls := 1\<rparr>)"
proof -
  obtain r q where r: "assign_backend dp now k p = (r, q)" by (cases "assign_backend dp now k p")
  have e: "tally_of (assign_events dp now k p) = tally_of (case r of
      Inl st \<Rightarrow> [Incremented cacheMisses, Incremented backendErrors] | Inr b \<Rightarrow> [Incremented cacheHitsStore, BackendRequest b])"
    using r by (simp add: assign_events_def table_events_tally)
  show ?thesis unfolding e using r by (simp add: tally_of_def no_tally_def split: sum.split)
qed

lemma tally_blocked: "tally_of [Incremented poisonPillBlocked] = no_tally\<lparr>t_blocked := 1\<rparr>"
  and tally_hit: "tally_of [Incremented cacheHitsLocal, BackendRequest b] = no_tally\<lparr>t_served := 1, t_calls := 1\<rparr>"
  and tally_auth: "tally_of [Incremented authFailures] = no_tally\<lparr>t_auth := 1\<rparr>"
  and tally_limited: "tally_of [Incremented rateLimited] = no_tally\<lparr>t_limited := 1\<rparr>"
  and tally_hold: "tally_of (hold_events late @ evs) = tally_of evs"
  by (simp_all add: tally_of_def no_tally_def hold_events_def)

definition refusals :: "tally set" where
  "refusals = {no_tally\<lparr>t_blocked := 1\<rparr>, no_tally\<lparr>t_failed := 1, t_errors := 1\<rparr>}"

definition fits_route :: "nat + string \<Rightarrow> tally \<Rightarrow> bool" where
  "fits_route rt t \<longleftrightarrow> (case rt of Inl st \<Rightarrow> t \<in> refusals | Inr b \<Rightarrow> t = no_tally\<lparr>t_served := 1, t_calls := 1\<rparr>)"

lemma assign_events_fit: "fits_route (fst (assign_backend dp now k p)) (tally_of (assign_events dp now k p))"
  by (simp add: assign_events_tally fits_route_def refusals_def split: sum.split)

lemma route_events_fit: "fits_route (fst (route dp now k p)) (tally_of (route_events dp now k p))"
proof -
  obtain g c where g: "UserCache_Get now k (w_cache (px_world p)) = (g, c)" by (cases "UserCache_Get now k (w_cache (px_world p))")
  show ?thesis
  proof (cases g)
    case (Inl miss)
    with g show ?thesis by (simp add: route_def route_events_def assign_events_fit)
  next
    case (Inr b)
    let ?p = "set_cache c p"
    obtain up bm where av: "Available now b (px_backends ?p) = (up, bm)" by (cases "Available now b (px_backends ?p)")
    let ?q = "?p\<lparr>px_backends := bm\<rparr>"
    obtain quar pill where q: "(case px_poison ?q of None \<Rightarrow> (False, None)
        | Some pill \<Rightarrow> map_prod (\<lambda>q. q) Some (RecordReassignment now k pill)) = (quar, pill)"
      by (cases "case px_poison ?q of None \<Rightarrow> (False, None) | Some pill \<Rightarrow> map_prod (\<lambda>q. q) Some (RecordReassignment now k pill)")
    have rec: "tally_of ((case px_poison ?q of None \<Rightarrow> [] | Some pill \<Rightarrow> reassignment_events now k pill) @ evs) = tally_of evs" for evs
      by (simp add: reassignment_events_tally split: option.split)
    show ?thesis
    proof (cases "up \<and> \<not> IsDraining b (px_drain ?q)")
      case True
      with g Inr av show ?thesis by (simp add: route_def route_events_def Let_def tally_hit fits_route_def)
    next
      case False
      let ?a = "set_cache (UserCache_Invalidate k (w_cache (px_world ?q))) (?q\<lparr>px_poison := pill\<rparr>)"
      have "fst (route dp now k p) = (if quar then Inl StatusServiceUnavailable else fst (assign_backend dp now k ?a))"
        using False g Inr av q by (auto simp: route_def Let_def)
      moreover have "tally_of (route_events dp now k p) =
          (if quar then no_tally\<lparr>t_blocked := 1\<rparr> else tally_of (assign_events dp now k ?a))"
        using False g Inr av q rec by (auto simp: route_events_def Let_def tally_blocked)
      moreover have "fits_route (Inl StatusServiceUnavailable) (no_tally\<lparr>t_blocked := 1\<rparr>)" by (simp add: fits_route_def refusals_def)
      ultimately show ?thesis using assign_events_fit [of dp now k ?a] by (cases quar) (simp_all only: if_True if_False)
    qed
  qed
qed

section \<open>Accounting\<close>

text \<open>The tally of a response to a request that is not public, and of one that is.\<close>

definition fits_answer :: "bool \<Rightarrow> response \<Rightarrow> tally \<Rightarrow> bool" where
  "fits_answer public r t \<longleftrightarrow>
     (if public then t = no_tally\<lparr>t_calls := (if reached r then 1 else 0)\<rparr> \<and> \<not> served r \<and> r \<notin> {Refused 401, Refused 429}
      else if r = Refused 401 then t = no_tally\<lparr>t_auth := 1\<rparr>
      else if r = Refused 429 then t = no_tally\<lparr>t_limited := 1\<rparr>
      else if r = Refused 503 then t \<in> refusals
      else t = no_tally\<lparr>t_served := 1, t_calls := 1\<rparr> \<and> served r)"

lemma forward_served: "served (fst (forward cfg e rq k b p))" "fst (forward cfg e rq k b p) \<noteq> Refused n"
  by (simp_all add: forward_def split: prod.split)

lemma public_events_fit: "fits_answer True (fst (servePublic cfg e rq p)) (tally_of (public_events cfg rq p))"
  by (auto simp: servePublic_def public_events_def fits_answer_def tally_of_def no_tally_def Let_def status_defs split: prod.split sum.split option.split)

lemma assign_backend_status: "fst (assign_backend dp now k p) = Inl st \<Longrightarrow> st = 503"
  by (auto simp: assign_backend_def Let_def status_defs split: prod.splits option.splits)

lemma route_status: "fst (route dp now k p) = Inl st \<Longrightarrow> st = 503"
  by (auto simp: route_def Let_def status_defs dest: assign_backend_status split: prod.splits sum.splits if_splits)

lemma routed_events_fit:
  "fits_answer False (fst (case route dp now k p of (Inl status, q) \<Rightarrow> (Refused status, q) | (Inr b, q) \<Rightarrow> forward cfg e rq k b q))
     (tally_of (route_events dp now k p))"
proof -
  obtain rt q where rt: "route dp now k p = (rt, q)" by (cases "route dp now k p")
  have st: "rt = Inl st \<Longrightarrow> st = 503" for st using route_status [of dp now k p st] rt by simp
  from route_events_fit [of dp now k p] rt st show ?thesis
    by (cases rt) (auto simp: fits_answer_def fits_route_def forward_served)
qed

lemma handler_events_fit:
  "fits_answer (isPublicPath (pc_publicPaths cfg) (rq_path rq)) (fst (ServeHTTP cfg (env_of e) rq p)) (tally_of (handler_events cfg e rq p))"
proof (cases "isPublicPath (pc_publicPaths cfg) (rq_path rq)")
  case True
  then show ?thesis by (simp add: ServeHTTP_def handler_events_def public_events_fit)
next
  case False
  obtain j jc where x: "extractUserIDFromJWT (pc_parse cfg) (e_arrival e) (rq_authorization rq) (px_jwtCache p) (pc_jwtSecret cfg) (pc_routingClaim cfg) = (j, jc)"
    by (cases "extractUserIDFromJWT (pc_parse cfg) (e_arrival e) (rq_authorization rq) (px_jwtCache p) (pc_jwtSecret cfg) (pc_routingClaim cfg)")
  note d = ServeHTTP_def handler_events_def Let_def request_env.truncate_def
  show ?thesis
  proof (cases j)
    case (Inl err)
    with False x show ?thesis by (simp add: d fits_answer_def tally_auth status_defs)
  next
    case (Inr c)
    let ?k = "cached_jwt.RoutingKey c"
    obtain ok rl where al: "Allow (e_arrival e) ?k (px_rateLimiter p) = (ok, rl)" by (cases "Allow (e_arrival e) ?k (px_rateLimiter p)")
    let ?p = "p\<lparr>px_jwtCache := jc, px_rateLimiter := rl\<rparr>"
    consider "\<not> ok" | "ok" "quarantined_key ?k ?p" | "ok" "\<not> quarantined_key ?k ?p" by blast
    then show ?thesis
    proof cases
      case 1
      with False x Inr al show ?thesis by (simp add: d fits_answer_def tally_limited status_defs)
    next
      case 2
      with False x Inr al show ?thesis by (simp add: d fits_answer_def tally_blocked refusals_def status_defs)
    next
      case 3
      with False x Inr al show ?thesis by (simp add: d tally_hold routed_events_fit)
    qed
  qed
qed

text \<open>The handler leaves the gauge of active connections to the frame around it.\<close>

definition steady :: "metric_event list \<Rightarrow> bool" where
  "steady evs \<longleftrightarrow> (\<forall>e \<in> set evs. case e of GaugeAdded g n \<Rightarrow> g \<noteq> activeConnections | HealthySet n \<Rightarrow> False | _ \<Rightarrow> True)"

lemma steady_simps [simp]: "steady []" "steady (xs @ ys) = (steady xs \<and> steady ys)" "steady (Incremented c # xs) = steady xs"
  "steady (BackendRequest b # xs) = steady xs" "steady (GaugeAdded quarantinedAccounts n # xs) = steady xs"
  by (auto simp: steady_def)

lemma steady_parts: "steady (table_events dp now k p)" "steady (assign_events dp now k p)" "steady (reassignment_events now k pill)"
proof -
  show t: "steady (table_events dp now k p)" by (simp add: table_events_def Let_def split: prod.split sum.split)
  show "steady (assign_events dp now k p)" using t by (simp add: assign_events_def split: prod.split sum.split)
  show "steady (reassignment_events now k pill)" by (simp add: reassignment_events_def)
qed

lemma steady_handler: "steady (handler_events cfg e rq p)"
proof -
  have "steady (route_events dp now k p)" for dp now k and p :: "'a proxy"
    by (simp add: route_events_def Let_def steady_parts split: prod.split sum.split option.split)
  then show ?thesis
    by (simp add: handler_events_def public_events_def hold_events_def Let_def split: prod.split sum.split option.split)
qed

definition gauge_step :: "metric_event \<Rightarrow> int \<Rightarrow> int" where
  "gauge_step e v = (case e of GaugeAdded h d \<Rightarrow> if h = activeConnections then v + d else v | _ \<Rightarrow> v)"

lemma fold_steady: "steady evs \<Longrightarrow> fold gauge_step evs v = v"
  by (induction evs arbitrary: v) (auto simp: steady_def gauge_step_def split: metric_event.splits)

lemma gauge_value_active: "(\<And>n. HealthySet n \<notin> set evs) \<Longrightarrow> gauge_value activeConnections evs = fold gauge_step evs 0"
  unfolding gauge_value_def by (rule fold_cong) (auto simp: gauge_step_def split: metric_event.split)

lemma fold_request: "fold gauge_step (request_events cfg e rq p) v = v"
  by (simp add: request_events_def gauge_step_def fold_steady [OF steady_handler])

lemma request_tally: "tally_of (request_events cfg e rq p) = (tally_of (handler_events cfg e rq p))\<lparr>t_requests := Suc (t_requests (tally_of (handler_events cfg e rq p))),
    t_observed := Suc (t_observed (tally_of (handler_events cfg e rq p)))\<rparr>"
  by (simp add: request_events_def tally_of_def)

lemma steady_no_health: "HealthySet n \<notin> set (request_events cfg e rq p)"
  using steady_handler [of cfg e rq p] by (auto simp: request_events_def steady_def)

text \<open>One request: what its response says and what it adds to the counters.\<close>

definition of_public :: "'s proxy_cfg \<Rightarrow> 's measured_env \<times> request \<Rightarrow> bool" where
  "of_public cfg x = isPublicPath (pc_publicPaths cfg) (rq_path (snd x))"

lemma request_counts:
  assumes "ServeHTTP cfg (env_of e) rq p = (r, q)"
  defines "evs \<equiv> request_events cfg e rq p"
  shows "counted totalRequests evs = 1" "length (observed evs) = 1" "counted cacheMisses evs = counted backendErrors evs"
    "counted authFailures evs = (if r = Refused 401 then 1 else 0)" "counted rateLimited evs = (if r = Refused 429 then 1 else 0)"
    "counted cacheHitsLocal evs + counted cacheHitsStore evs = (if served r then 1 else 0)"
    "counted poisonPillBlocked evs + counted cacheMisses evs = (if r = Refused 503 \<and> \<not> of_public cfg (e, rq) then 1 else 0)"
    "backend_calls evs = (if reached r then 1 else 0)"
proof -
  have f: "fits_answer (of_public cfg (e, rq)) r (tally_of (handler_events cfg e rq p))"
    using handler_events_fit [of cfg rq e p] assms(1) by (simp add: of_public_def)
  have t: "counted totalRequests evs = t_requests (tally_of evs)" "length (observed evs) = t_observed (tally_of evs)"
    "counted cacheMisses evs = t_failed (tally_of evs)" "counted backendErrors evs = t_errors (tally_of evs)"
    "counted authFailures evs = t_auth (tally_of evs)" "counted rateLimited evs = t_limited (tally_of evs)"
    "counted cacheHitsLocal evs + counted cacheHitsStore evs = t_served (tally_of evs)"
    "counted poisonPillBlocked evs = t_blocked (tally_of evs)" "backend_calls evs = t_calls (tally_of evs)"
    by (simp_all add: tally_of_def)
  have s: "served r \<Longrightarrow> reached r" by (cases r) simp_all
  show "counted totalRequests evs = 1" "length (observed evs) = 1" "counted cacheMisses evs = counted backendErrors evs"
    "counted authFailures evs = (if r = Refused 401 then 1 else 0)" "counted rateLimited evs = (if r = Refused 429 then 1 else 0)"
    "counted cacheHitsLocal evs + counted cacheHitsStore evs = (if served r then 1 else 0)"
    "counted poisonPillBlocked evs + counted cacheMisses evs = (if r = Refused 503 \<and> \<not> of_public cfg (e, rq) then 1 else 0)"
    "backend_calls evs = (if reached r then 1 else 0)"
    using f s unfolding t unfolding evs_def request_tally
    by (auto simp: fits_answer_def refusals_def no_tally_def split: if_splits)
qed

lemma measured_gauge:
  "case serve_measured cfg rs p of (as, evs, q) \<Rightarrow> gauge_value activeConnections evs = 0"
proof -
  have "\<forall>v. case serve_measured cfg rs p of (as, evs, q) \<Rightarrow> fold gauge_step evs v = v \<and> (\<forall>n. HealthySet n \<notin> set evs)"
  proof (induction rs arbitrary: p)
    case (Cons x rs)
    obtain e rq where x: "x = (e, rq)" by (cases x)
    obtain r p1 where s: "ServeHTTP cfg (env_of e) rq p = (r, p1)" by (cases "ServeHTTP cfg (env_of e) rq p")
    from Cons [of p1] s show ?case by (auto simp: x fold_request steady_no_health split: prod.splits)
  qed simp
  then show ?thesis using gauge_value_active by (auto split: prod.splits)
qed

text \<open>
  C32: The metrics account for every request. Over any sequence of requests the total counts
  each once, as do the latency observations, and the gauge of active connections returns to
  zero. The authentication failures are the 401 answers, the rate-limited count the 429
  answers; the cache hits of both layers together are the requests that were forwarded or
  bridged for a user; quarantine blocks and cache misses together are the 503 refusals of
  non-public requests, and the backend errors are exactly these misses: a failing backend does
  not count. Every request that reached a backend, public ones included, is counted for it.
\<close>

theorem request_accounting:
  "case serve_measured cfg rs p of (as, evs, q) \<Rightarrow>
     length as = length rs \<and> counted totalRequests evs = length rs \<and> length (observed evs) = length rs \<and>
     gauge_value activeConnections evs = 0 \<and>
     counted authFailures evs = length (filter (\<lambda>r. r = Refused 401) as) \<and>
     counted rateLimited evs = length (filter (\<lambda>r. r = Refused 429) as) \<and>
     counted cacheHitsLocal evs + counted cacheHitsStore evs = length (filter served as) \<and>
     counted poisonPillBlocked evs + counted cacheMisses evs =
       length (filter (\<lambda>(x, r). r = Refused 503 \<and> \<not> of_public cfg x) (zip rs as)) \<and>
     counted backendErrors evs = counted cacheMisses evs \<and>
     backend_calls evs = length (filter reached as)"
proof -
  have "case serve_measured cfg rs p of (as, evs, q) \<Rightarrow>
     length as = length rs \<and> counted totalRequests evs = length rs \<and> length (observed evs) = length rs \<and>
     counted authFailures evs = length (filter (\<lambda>r. r = Refused 401) as) \<and>
     counted rateLimited evs = length (filter (\<lambda>r. r = Refused 429) as) \<and>
     counted cacheHitsLocal evs + counted cacheHitsStore evs = length (filter served as) \<and>
     counted poisonPillBlocked evs + counted cacheMisses evs =
       length (filter (\<lambda>(x, r). r = Refused 503 \<and> \<not> of_public cfg x) (zip rs as)) \<and>
     counted backendErrors evs = counted cacheMisses evs \<and>
     backend_calls evs = length (filter reached as)"
  proof (induction rs arbitrary: p)
    case (Cons x rs)
    obtain e rq where x: "x = (e, rq)" by (cases x)
    obtain r p1 where s: "ServeHTTP cfg (env_of e) rq p = (r, p1)" by (cases "ServeHTTP cfg (env_of e) rq p")
    obtain as evs q where m: "serve_measured cfg rs p1 = (as, evs, q)" by (cases "serve_measured cfg rs p1")
    from Cons [of p1] m request_counts [OF s] show ?case by (auto simp: x s m)
  qed simp
  with measured_gauge [of cfg rs p] show ?thesis by (auto split: prod.splits)
qed

end
