(* ===== verification/Ws_Buffers.thy ===== *)
theory Ws_Buffers
  imports Go_Prelude
begin

text \<open>
  The pooled message buffers of the WebSocket bridge (websocket.go, \<^verbatim>\<open>readAllPooled\<close>,
  \<^verbatim>\<open>wsReadPooled\<close>, \<^verbatim>\<open>release\<close>). A buffer is its contents and its capacity. The reader that the
  WebSocket library hands out for a message is a parameter: a function that, given the room
  that is left, answers bytes, whether to go on, and its next state.
\<close>

record buffer =
  buf_data :: string
  buf_cap :: nat

datatype read_status = ReadOk | ReadEOF | ReadError

type_synonym 'r reader = "'r \<Rightarrow> nat \<Rightarrow> string \<times> read_status \<times> 'r"

text \<open>\<^verbatim>\<open>wsMsgBufPool.New\<close>.\<close>

definition new_buffer :: buffer where
  "new_buffer = \<lparr>buf_data = [], buf_cap = 4096\<rparr>"

text \<open>A full slice is copied to one of twice the capacity and 4096 bytes more.\<close>

definition grow :: "buffer \<Rightarrow> buffer" where
  "grow b = (if length (buf_data b) = buf_cap b then b\<lparr>buf_cap := buf_cap b * 2 + 4096\<rparr> else b)"

partial_function (option) read_loop :: "'r reader \<Rightarrow> 'r \<Rightarrow> buffer \<Rightarrow> (bool \<times> buffer) option" where
  "read_loop read r b =
     (let b = grow b;
          (xs, err, r') = read r (buf_cap b - length (buf_data b));
          b = b\<lparr>buf_data := buf_data b @ xs\<rparr>
      in case err of
           ReadEOF \<Rightarrow> Some (True, b)
         | ReadError \<Rightarrow> Some (False, b)
         | ReadOk \<Rightarrow> read_loop read r' b)"

definition readAllPooled :: "'r reader \<Rightarrow> 'r \<Rightarrow> buffer \<Rightarrow> (bool \<times> buffer) option" where
  "readAllPooled read r bp = read_loop read r (bp\<lparr>buf_data := []\<rparr>)"

text \<open>A buffer that goes back to the pool is emptied and keeps its capacity.\<close>

definition release :: "buffer \<Rightarrow> buffer list \<Rightarrow> buffer list" where
  "release b pool = b\<lparr>buf_data := []\<rparr> # pool"

text \<open>
  \<^verbatim>\<open>wsReadPooled\<close>: \<open>next\<close> is what \<^verbatim>\<open>NextReader\<close> answers, the type of the message and its reader. The
  pool gives back one of its buffers or makes one.
\<close>

definition wsReadPooled :: "'r reader \<Rightarrow> (nat \<times> 'r) option \<Rightarrow> buffer list \<Rightarrow> ((nat \<times> buffer) option \<times> buffer list) option" where
  "wsReadPooled read nextReader pool =
     (case nextReader of
        None \<Rightarrow> Some (None, pool)
      | Some (mt, r) \<Rightarrow>
          let (bp, pool) = (case pool of [] \<Rightarrow> (new_buffer, []) | b # bs \<Rightarrow> (b, bs))
          in case readAllPooled read r bp of
               None \<Rightarrow> None
             | Some (False, bp) \<Rightarrow> Some (None, release bp pool)
             | Some (True, bp) \<Rightarrow> Some (Some (mt, bp), pool))"

text \<open>
  What \<^verbatim>\<open>io.Reader\<close> documents of a reader that still has \<open>rest r\<close> to deliver: it fits the bytes into the
  room it is given, delivers them in order, reports the end only when all are delivered, and
  cannot put off the end for ever: \<open>steps r\<close> bounds the calls that are left.
\<close>

definition reader_documented :: "'r reader \<Rightarrow> ('r \<Rightarrow> string) \<Rightarrow> ('r \<Rightarrow> nat) \<Rightarrow> bool" where
  "reader_documented read rest steps \<longleftrightarrow>
     (\<forall>r n. 0 < n \<longrightarrow> (case read r n of (xs, err, r') \<Rightarrow>
        length xs \<le> n \<and> rest r = xs @ rest r' \<and> (err = ReadEOF \<longrightarrow> rest r' = []) \<and> (err = ReadOk \<longrightarrow> steps r' < steps r)))"

text \<open>A reader that delivers as much as fits.\<close>

definition eager_reader :: "string reader" where
  "eager_reader r n = (take n r, if length r \<le> n then ReadEOF else ReadOk, drop n r)"

lemma eager_reader_documented: "reader_documented eager_reader (\<lambda>r. r) length"
  by (auto simp: reader_documented_def eager_reader_def)

definition slice_ok :: "buffer \<Rightarrow> bool" where
  "slice_ok b \<longleftrightarrow> length (buf_data b) \<le> buf_cap b"

lemma reader_documentedD:
  assumes "reader_documented read rest steps" and "read r n = (xs, err, r')" and "0 < n"
  shows "length xs \<le> n" "rest r = xs @ rest r'" "err = ReadEOF \<Longrightarrow> rest r' = []" "err = ReadOk \<Longrightarrow> steps r' < steps r"
  using assms(1) [unfolded reader_documented_def, rule_format, OF assms(3), of r] assms(2) by simp_all

lemma grow_simps [simp]: "buf_data (grow b) = buf_data b" "slice_ok b \<Longrightarrow> length (buf_data b) < buf_cap (grow b)"
  by (simp_all add: grow_def slice_ok_def)

lemma grow_cap: "slice_ok b \<Longrightarrow> buf_cap b \<le> buf_cap (grow b) \<and> (buf_cap (grow b) = buf_cap b \<or> buf_cap (grow b) = 2 * length (buf_data b) + 4096)"
  by (simp add: grow_def)

text \<open>
  The loop ends for every such reader. The buffer then holds what it held before and the bytes
  delivered, all of them unless there was an error, within a capacity that was there before
  or is at most twice the length and 4096 bytes.
\<close>

lemma read_loop_result:
  assumes "reader_documented read rest steps" and "slice_ok b"
  shows "\<exists>ok b' xs ys. read_loop read r b = Some (ok, b') \<and> buf_data b' = buf_data b @ xs \<and> rest r = xs @ ys \<and> (ok \<longrightarrow> ys = []) \<and>
    slice_ok b' \<and> buf_cap b \<le> buf_cap b' \<and> (buf_cap b' = buf_cap b \<or> buf_cap b' \<le> 2 * length (buf_data b') + 4096)"
  using assms(2)
proof (induction "steps r" arbitrary: r b rule: less_induct)
  case less
  let ?n = "buf_cap (grow b) - length (buf_data b)"
  obtain xs err r' where rd: "read r ?n = (xs, err, r')" by (cases "read r ?n") auto
  have "0 < ?n" using grow_simps(2) [OF less.prems] by simp
  note fits = reader_documentedD [OF assms(1) rd this]
  let ?b = "(grow b)\<lparr>buf_data := buf_data b @ xs\<rparr>"
  have ok: "slice_ok ?b" using fits(1) grow_simps(2) [OF less.prems] by (simp add: slice_ok_def)
  note cap = grow_cap [OF less.prems]
  have stop: "read_loop read r b = Some (err = ReadEOF, ?b)" if "err \<noteq> ReadOk"
    using that rd by (subst read_loop.simps) (cases err; simp add: Let_def)
  have step: "read_loop read r b = read_loop read r' ?b" if "err = ReadOk"
    using that rd by (subst read_loop.simps) (simp add: Let_def)
  show ?case
  proof (cases "err = ReadOk")
    case False
    then show ?thesis using stop [OF False] fits(2,3) ok cap by (intro exI [of _ "err = ReadEOF"] exI [of _ ?b] exI [of _ xs] exI [of _ "rest r'"]) auto
  next
    case True
    from less.hyps [OF fits(4) [OF True] ok] obtain e b' zs ys where
      "read_loop read r' ?b = Some (e, b')" "buf_data b' = (buf_data b @ xs) @ zs" "rest r' = zs @ ys" "e \<longrightarrow> ys = []"
      "slice_ok b'" "buf_cap (grow b) \<le> buf_cap b'" "buf_cap b' = buf_cap (grow b) \<or> buf_cap b' \<le> 2 * length (buf_data b') + 4096"
      by auto
    with step [OF True] fits(2) cap show ?thesis
      by (intro exI [of _ e] exI [of _ b'] exI [of _ "xs @ zs"] exI [of _ ys]) auto
  qed
qed

text \<open>
  Reading a message always returns. Either the result is the whole message in a buffer of its
  own, whatever that buffer was used for before, or the buffer is back in the pool, empty;
  buffers in the pool stay empty, so nothing of an earlier message is ever delivered again.
\<close>

lemma read_message:
  assumes "reader_documented read rest steps" and "\<forall>b \<in> set pool. buf_data b = []"
  shows "\<exists>result pool'. wsReadPooled read nextReader pool = Some (result, pool') \<and> (\<forall>b \<in> set pool'. buf_data b = []) \<and>
    (\<forall>mt bp. result = Some (mt, bp) \<longrightarrow> (\<exists>r. nextReader = Some (mt, r) \<and> buf_data bp = rest r \<and> slice_ok bp))"
proof (cases nextReader)
  case None
  then show ?thesis using assms(2) by (simp add: wsReadPooled_def)
next
  case (Some m)
  obtain mt r where m: "m = (mt, r)" by (cases m)
  define bp where "bp = (case pool of [] \<Rightarrow> new_buffer | b # bs \<Rightarrow> b)"
  define rest_pool where "rest_pool = (case pool of [] \<Rightarrow> [] | b # bs \<Rightarrow> bs)"
  have split: "(case pool of [] \<Rightarrow> (new_buffer, []) | b # bs \<Rightarrow> (b, bs)) = (bp, rest_pool)"
    by (simp add: bp_def rest_pool_def split: list.split)
  have clean: "\<forall>b \<in> set rest_pool. buf_data b = []" using assms(2) by (auto simp: rest_pool_def split: list.splits)
  have "slice_ok (bp\<lparr>buf_data := []\<rparr>)" by (simp add: slice_ok_def)
  from read_loop_result [OF assms(1) this, of r] obtain ok b' xs ys where
    res: "readAllPooled read r bp = Some (ok, b')" "buf_data b' = xs" "rest r = xs @ ys" "ok \<longrightarrow> ys = []" "slice_ok b'"
    by (auto simp: readAllPooled_def)
  show ?thesis
    using res clean Some m split by (cases ok) (simp_all add: wsReadPooled_def release_def)
qed

text \<open>
  The buffer of a message that is shorter than the buffer's capacity is not replaced. A message
  of exactly 4096 bytes already makes a new buffer grow, unless its reader announces the end
  together with the last byte.
\<close>

lemma short_message_keeps_buffer:
  assumes "reader_documented read rest steps" and "length (buf_data b) + length (rest r) < buf_cap b"
  shows "\<exists>ok b'. read_loop read r b = Some (ok, b') \<and> buf_cap b' = buf_cap b"
  using assms(2)
proof (induction "steps r" arbitrary: r b rule: less_induct)
  case less
  have g: "grow b = b" using less.prems by (simp add: grow_def)
  let ?n = "buf_cap b - length (buf_data b)"
  obtain xs err r' where rd: "read r ?n = (xs, err, r')" by (cases "read r ?n") auto
  have "0 < ?n" using less.prems by simp
  note fits = reader_documentedD(2,4) [OF assms(1) rd this]
  show ?case
  proof (cases err)
    case ReadOk
    have "\<exists>ok b'. read_loop read r' (b\<lparr>buf_data := buf_data b @ xs\<rparr>) = Some (ok, b') \<and> buf_cap b' = buf_cap b"
      using less.hyps [OF fits(2) [OF ReadOk], of "b\<lparr>buf_data := buf_data b @ xs\<rparr>"] less.prems fits(1) by simp
    then show ?thesis using ReadOk rd g by (subst read_loop.simps) (simp add: Let_def)
  qed (use rd g in \<open>subst read_loop.simps; auto simp: Let_def\<close>)+
qed

end
