(* ===== verification/Jwt_Generator.thy ===== *)
theory Jwt_Generator
  imports Config Jwt_Auth Backend_Discovery
begin

text \<open>
  The generator of test users (k6/generate_jwt.go): a file with one signed token for each
  number below \<^verbatim>\<open>TOTAL_USERS\<close>. Signing is the JWT library's and a parameter, as are the clock and
  what creating the file and writing a row answer.
\<close>

type_synonym signer = "signing_method \<Rightarrow> (string, claim_value) gomap \<Rightarrow> string \<Rightarrow> string option"

definition token_life :: duration where
  "token_life = 8760 * 3600 * second"

definition user_claims :: "instant \<Rightarrow> string \<Rightarrow> (string, claim_value) gomap" where
  "user_claims now sub = [(''sub'', ClaimString sub), (''exp'', ClaimNumber (of_int ((now + token_life) div second)))]"

text \<open>The loop from user \<open>i\<close> on for \<open>n\<close> more users: whether it got to its end, and the rows it wrote.\<close>

fun generate_rows :: "signer \<Rightarrow> (nat \<Rightarrow> bool) \<Rightarrow> (nat \<Rightarrow> instant) \<Rightarrow> string \<Rightarrow> nat \<Rightarrow> nat \<Rightarrow> bool \<times> (string \<times> string) list" where
  "generate_rows sign written clock secret i 0 = (True, [])"
| "generate_rows sign written clock secret i (Suc n) =
     (let sub = Itoa (int i)
      in case sign SigningMethodHMAC (user_claims (clock i) sub) secret of
           None \<Rightarrow> (False, [])
         | Some jwt \<Rightarrow>
             if \<not> written i then (False, [])
             else let (ok, rows) = generate_rows sign written clock secret (Suc i) n
                  in (ok, (sub, jwt) # rows))"

text \<open>The exit status and the file, if it was created.\<close>

definition generate_main ::
  "environment \<Rightarrow> bool \<Rightarrow> signer \<Rightarrow> (nat \<Rightarrow> bool) \<Rightarrow> (nat \<Rightarrow> instant) \<Rightarrow> nat \<times> (string \<times> string) list option" where
  "generate_main env created sign written clock =
     (case Atoi (envOrDefault env ''TOTAL_USERS'' ''1000'') of
        None \<Rightarrow> (1, None)
      | Some totalUsers \<Rightarrow>
          if \<not> created then (1, None)
          else let secret = envOrDefault env ''JWT_SECRET'' ''mysecret'';
                   (ok, rows) = generate_rows sign written clock secret 0 (nat totalUsers)
               in (if ok then 0 else 1, Some ((''sub'', ''jwt'') # rows)))"

text \<open>
  What the library documents of a token it signed: until the token expires it is accepted, with
  the claims it was signed with, by every parser whose key function answers the key.
\<close>

definition signing_documented :: "signer \<Rightarrow> jwt_parser \<Rightarrow> bool" where
  "signing_documented sign parse \<longleftrightarrow>
     (\<forall>claims key tok kf now e. sign SigningMethodHMAC claims key = Some tok \<longrightarrow> kf SigningMethodHMAC = Inr key \<longrightarrow>
        map_of claims ''exp'' = Some (ClaimNumber e) \<longrightarrow> now < unix_time e \<longrightarrow>
        (\<exists>t. parse kf now tok = Inr t \<and> Valid t \<and> Claims t = claims))"

lemma decimal_nonempty: "decimal n \<noteq> []"
  by (subst decimal.simps) simp

lemma Itoa_nonempty: "Itoa n \<noteq> []"
  by (simp add: Itoa_def decimal_nonempty)

lemma generated_token_accepted:
  assumes doc: "signing_documented sign parse" and signed: "sign SigningMethodHMAC (user_claims t0 sub) secret = Some tok"
    and "sub \<noteq> []" and "0 \<le> t0" and fresh: "now < t0 + token_life - second"
  shows "\<exists>c. fst (extractUserIDFromJWT parse now (''Bearer '' @ tok) (NewJWTCache m) secret ''sub'') = Inr c \<and> cached_jwt.RoutingKey c = sub"
proof -
  let ?e = "(t0 + token_life) div second"
  have s: "0 < second" by (simp add: second_def)
  then have "0 \<le> ?e" using \<open>0 \<le> t0\<close> by (simp add: token_life_def pos_imp_zdiv_nonneg_iff)
  then have u: "unix_time (of_int ?e) = ?e * second" by (simp add: unix_time_def)
  have "t0 + token_life < (?e + 1) * second"
    using s by (metis add.commute div_mult_mod_eq mult.commute distrib_left mult.right_neutral pos_mod_bound add_less_cancel_left)
  then have "now < unix_time (of_int ?e)" using fresh u by (simp add: algebra_simps)
  then obtain t where "parse (hmac_key secret) now tok = Inr t" "Valid t" "Claims t = user_claims t0 sub"
    using doc [unfolded signing_documented_def, rule_format, OF signed, of "hmac_key secret" "of_int ?e" now] by (auto simp: user_claims_def)
  then show ?thesis using \<open>sub \<noteq> []\<close>
    by (simp add: extractUserIDFromJWT_def splitN2_def JWTCache_Get_def NewJWTCache_def user_claims_def Let_def)
qed

lemma generate_rows_result:
  "generate_rows sign written clock secret i n = (True, rows) \<Longrightarrow>
   length rows = n \<and> (\<forall>j < n. fst (rows ! j) = Itoa (int (i + j)) \<and>
      sign SigningMethodHMAC (user_claims (clock (i + j)) (fst (rows ! j))) secret = Some (snd (rows ! j)))"
proof (induction n arbitrary: i rows)
  case (Suc n)
  then obtain tok rest where r: "rows = (Itoa (int i), tok) # rest" "generate_rows sign written clock secret (Suc i) n = (True, rest)"
    "sign SigningMethodHMAC (user_claims (clock i) (Itoa (int i))) secret = Some tok"
    by (auto simp: Let_def split: option.splits if_splits prod.splits)
  with Suc.IH [OF r(2)] show ?case by (auto simp: less_Suc_eq_0_disj ac_simps)
qed simp

text \<open>
  The file and the proxy fit together: when the generator exits with status 0 the file has a row
  for each user in order, and until one second before a year has passed the proxy, with the
  same secret and the default routing claim, takes the token of a row for its user.
\<close>

lemma generated_users_authenticate:
  assumes "signing_documented sign parse" and "generate_main env created sign written clock = (0, file)"
    and "Atoi (envOrDefault env ''TOTAL_USERS'' ''1000'') = Some users" and "\<forall>i. 0 \<le> clock i"
  shows "\<exists>rows. file = Some ((''sub'', ''jwt'') # rows) \<and> length rows = nat users \<and>
    (\<forall>i < length rows. fst (rows ! i) = Itoa (int i) \<and>
      (\<forall>now < clock i + token_life - second. \<exists>c.
         fst (extractUserIDFromJWT parse now (''Bearer '' @ snd (rows ! i)) (NewJWTCache m)
           (envOrDefault env ''JWT_SECRET'' ''mysecret'') ''sub'') = Inr c \<and> cached_jwt.RoutingKey c = fst (rows ! i)))"
proof -
  let ?s = "envOrDefault env ''JWT_SECRET'' ''mysecret''"
  obtain rows where rows: "generate_rows sign written clock ?s 0 (nat users) = (True, rows)" "file = Some ((''sub'', ''jwt'') # rows)"
    using assms(2,3) by (auto simp: generate_main_def split: if_splits prod.splits)
  note res = generate_rows_result [OF rows(1)]
  have "\<exists>c. fst (extractUserIDFromJWT parse now (''Bearer '' @ snd (rows ! i)) (NewJWTCache m) ?s ''sub'') = Inr c \<and>
      cached_jwt.RoutingKey c = fst (rows ! i)" if "i < length rows" "now < clock i + token_life - second" for i now
    using res that assms(4) Itoa_nonempty by (intro generated_token_accepted [OF assms(1), of "clock i"]) auto
  then show ?thesis using rows(2) res by auto
qed

lemma exit_status_1:
  "Atoi (envOrDefault env ''TOTAL_USERS'' ''1000'') = None \<or> \<not> created \<Longrightarrow> generate_main env created sign written clock = (1, None)"
  by (auto simp: generate_main_def split: option.split)

text \<open>With a library that signs and accepts one token, the file for one user and what the proxy makes of it.\<close>

definition one_signer :: signer where
  "one_signer method claims key = (if claims = user_claims 0 ''0'' \<and> key = ''mysecret'' then Some ''tok'' else None)"

definition one_parser :: jwt_parser where
  "one_parser kf now tok =
     (if tok = ''tok'' \<and> kf SigningMethodHMAC = Inr ''mysecret'' then Inr \<lparr>Valid = True, Claims = user_claims 0 ''0''\<rparr> else Inl InvalidToken)"

lemma one_signer_documented: "signing_documented one_signer one_parser"
  by (auto simp: signing_documented_def one_signer_def one_parser_def)

lemma generated_users_example:
  "generate_main ((\<lambda>_. [])(''TOTAL_USERS'' := ''1'')) True one_signer (\<lambda>_. True) (\<lambda>_. 0) =
     (0, Some [(''sub'', ''jwt''), (''0'', ''tok'')])"
proof -
  have "char_of (48 :: nat) = CHR ''0''" by code_simp
  then show ?thesis
    by (simp add: generate_main_def envOrDefault_def Atoi_def strip_sign_def digits_value_def is_digit_def one_signer_def
        Itoa_def decimal.simps Let_def)
qed

end
