(* ===== verification/Spec2Isabelle.thy ===== *)
theory Spec2Isabelle
  imports User_Cache Jwt_Auth Rate_Limiter Poison_Pill Redis_Breaker Backend_Manager Rebalance_Strategy
    Hold_Manager Conn_Tracker Hook_Client Memory_Store Redis_Store Transition_Lock Redis_Sticky Proxy_World
    Drain_Manager Rebalancer Eviction Health_Checker Account_Discovery Backend_Discovery Proxy_Routing
    Config Ws_Bridge Backend_Server Postgres_Transitions Cache_Notifier
    Startup Request_Metrics Ws_Buffers Jwt_Generator
begin

text \<open>
  \<^bold>\<open>Verification of sticky-proxy.\<close>

  sticky-proxy is a reverse proxy that keeps each authenticated user on one backend. This
  library models the Go program under \<^verbatim>\<open>src/\<close> and proves what its parts promise, alone and
  together. File names below are relative to \<^verbatim>\<open>src/internal/proxy/\<close> unless they name a directory.

  \<^bold>\<open>The program.\<close> A request enters \<^verbatim>\<open>Proxy.ServeHTTP\<close> (proxy.go). It is authenticated from its
  bearer token (jwt.go, jwt_cache.go), rate limited (rate_limiter.go), refused if its user is
  quarantined (poison.go), and held while the user is being moved (hold.go). The user's backend
  comes from the local cache (user_cache.go), else from the store (store.go: memory, Redis or
  PostgreSQL) or from a hash (hashing.go); a backend whose breaker is open (backends.go) or
  which is draining is replaced. WebSocket requests become bridges (websocket.go,
  conn_tracker.go), others are proxied. Beside the requests, goroutines drain backends (drain.go),
  rebalance users (rebalancer.go), evict users of failing backends (backends.go), probe backends
  (health_checker.go), and discover accounts (discovery*.go) and backends (discovery_backends.go,
  discovery_kubernetes.go). Drains and rebalances exclude each other through a lock
  (transition.go), tell the backends through hooks (hooks.go) and the other replicas through
  invalidation events (cache_notifier.go). Operators use admin.go, debug.go, health.go and
  metrics.go.

  \<^bold>\<open>Conventions.\<close> Instants and durations are nanoseconds as \<^typ>\<open>int\<close>. A Go map is an association list
  whose order is the iteration order (\<open>'k, 'v gomap\<close> with \<open>wf_map\<close>), so that results which depend on
  the order are visible and theorems that do not mention it hold for every order. A struct is
  a record with a prefix for its fields, a method is a function that takes and returns the
  record, an error is \<^const>\<open>Inl\<close> or \<^const>\<open>None\<close>. Tickers are modelled by their body, given the instant of the
  tick. Machine integers are words where they wrap (the CRC, the counters of the metrics, hash
  indices); \<^verbatim>\<open>float64\<close> token counts and sums are exact rationals. Concurrency is a step relation
  where the interleaving matters: the bridge, the transition lock, the Kubernetes watch loop
  and the notifier. Elsewhere an operation under a mutex, a Redis script, a statement or a
  transaction is atomic, and what happens in between is a parameter (\<open>e_meanwhile\<close> of a held
  request) or a theorem of its own (\<open>drain_race_binds_to_drained\<close>).

  \<^bold>\<open>Abstractions.\<close> Weights, loads and counters of the stores are unbounded integers where Go, Lua and SQL
  have 64-bit, double and 32-bit ones, and so is the expiry read from a token, which the code
  converts from \<^verbatim>\<open>float64\<close>: the theorems speak of values in range. A Redis pipeline is executed as a
  whole or as often as the network model repeats it, not interleaved with other clients.
  A PostgreSQL assignment sees one state; after waiting for a row lock the database would keep
  the order of rows it had read before. \<open>TrimSpace\<close> knows the ASCII blanks. The passes of the backend
  discovery that run beside the first account pass are put before it. Fields that \<^verbatim>\<open>New\<close> always sets
  (the drain manager of the endpoints, store and cache of an eviction) have no nil branch.
  A panic of a ticker in a goroutine is not an outcome of \<open>New\<close>; the configurations that cause
  one are lemmas of \<open>Config\<close>.

  \<^bold>\<open>Undisturbed runs.\<close> The theorems on drains, rebalances, evictions, discovery passes and counters say
  what an operation does when no command is lost and nobody else writes in between. Where this
  fails there are theorems of their own: \<open>duplicate_delete_drifts\<close>, \<open>drain_race_binds_to_drained\<close>,
  \<open>postgres_half_added_drifts\<close>, \<open>emptied_before_start_missed\<close>, \<open>k8s_failed_add_not_retried\<close>. Stickiness is
  stated for any interleaving that leaves the user's cache entry alone.

  \<^bold>\<open>Code outside the repository\<close> is a parameter. \<open>Redis_Server\<close> has Redis as a record of commands over
  an unknown state, with its documented behaviour \<open>redis_documented\<close>, and the connection as a
  network that may lose a request or a reply; \<open>Postgres_Store\<close> has the database's connection,
  row locks and parameter limit (\<open>pg_env\<close>). The JWT library is \<open>parse\<close> with \<open>parse_documented\<close>, a
  backend's answer \<open>upstream\<close>, a message reader \<open>reader\<close> with \<open>reader_documented\<close>. Each assumption is
  shown to hold for a concrete instance (\<open>plain_server_documented\<close>, \<open>demo_parse\<close>, \<open>demo_pg\<close>,
  \<open>eager_reader_documented\<close>), which the witnesses use.

  \<^bold>\<open>Theories.\<close>

  \<^item> \<open>Go_Prelude\<close>: types, rule collections and the lemmas on maps that all others share.

  \<^item> \<open>Hashing\<close> (hashing.go): the CRC-32 bit by bit, its check value and that hashing a hash again is
  injective. \<open>Assignments\<close> (assignment.go): assignments, weights and loads.

  \<^item> \<open>Expiring_Cache\<close>: the contract of both caches as the locales \<open>expiring_cache\<close> and
  \<open>exact_expiring_cache\<close>; \<open>User_Cache\<close> (user_cache.go) and \<open>Jwt_Auth\<close> (jwt_cache.go, jwt.go) interpret them.
  \<open>Jwt_Auth\<close> shows that a request is attributed to a user only on an accepted token.

  \<^item> \<open>Rate_Limiter\<close> (rate_limiter.go): the bound on admissions in any window. \<open>Poison_Pill\<close> (poison.go): the
  detector refines a sliding window over complete histories. \<open>Hold_Manager\<close> (hold.go): who releases a
  held request. \<open>Redis_Breaker\<close> and \<open>Backend_Manager\<close> (redis.go, backends.go): the two circuit breakers.
  \<open>Conn_Tracker\<close> (conn_tracker.go): the tracker refines a set. \<open>Hook_Client\<close> (hooks.go): retries and
  delivery.

  \<^item> \<open>Store_Interface\<close> (store.go): the interface as a record of operations and its contract as the
  locales \<open>backend_registry\<close> and \<open>assignment_store\<close>. \<open>Memory_Store\<close> (store_memory.go), \<open>Redis_Store\<close>
  (redis.go, assign.lua, store_redis.go) and \<open>Postgres_Store\<close> (store_postgres.go) interpret it; drains,
  rebalances and discovery are proved against it. \<open>Redis_Store\<close> and \<open>Postgres_Counts\<close> show that the
  load counters never drift and that an assignment goes to a least loaded backend.
  \<open>Redis_Sticky\<close> (redis.go, sticky.lua) has the sticky keys of hash mode.

  \<^item> \<open>Transition_Lock\<close> (transition.go, redis.go): mutual exclusion over any number of replicas, with the
  locale \<open>distributed_locker\<close> interpreted on the Redis locker; \<open>Postgres_Transitions\<close> has the advisory
  lock and drains on PostgreSQL.

  \<^item> \<open>Proxy_World\<close>: what the background operations act on. \<open>Drain_Manager\<close> (drain.go), \<open>Rebalance_Strategy\<close> and
  \<open>Rebalancer\<close> (rebalancer.go, with the locale \<open>rebalance_strategy\<close> interpreted on both strategies),
  \<open>Eviction\<close> (backends.go), \<open>Health_Checker\<close> (health_checker.go), \<open>Cache_Notifier\<close> (cache_notifier*.go): the effect
  of each on registry, table, cache, holds and connections, and its frame.

  \<^item> \<open>Account_Discovery\<close> (discovery.go, discovery_http.go, discovery_postgres.go, discovery_redis.go),
  \<open>Backend_Discovery\<close> (discovery_backends.go, discovery_kubernetes.go), \<open>K8s_Informer\<close> (the watch loop of the
  latter), \<open>Startup\<close> (\<^verbatim>\<open>StartDiscovery\<close> in proxy.go): what a pass does, that the loops settle, and that
  accounts are placed before the first request.

  \<^item> \<open>Ws_Bridge\<close> (websocket.go): the bridge as steps of its goroutines; order, bounds, and that a closed
  bridge can always end. \<open>Ws_Buffers\<close>: the pooled buffers its messages are read into.

  \<^item> \<open>Proxy_Routing\<close> (proxy.go): \<^verbatim>\<open>ServeHTTP\<close> in full, composed of the components above. \<open>Config\<close>
  (\<^verbatim>\<open>internal/config/config.go\<close>, \<^verbatim>\<open>New\<close> in proxy.go): loading and wiring. \<open>Metrics\<close> (metrics.go): counters and the
  exposition text, read back. \<open>Admin\<close> (admin.go, debug.go, health.go, \<^verbatim>\<open>cmd/proxy/main.go\<close>): the endpoints
  and the multiplexer.

  \<^item> \<open>Service_Invariant\<close>: the type of the whole service, which every request to any endpoint keeps, from
  the well-formedness of all components. \<open>Request_Metrics\<close>: the counters against the answers.

  \<^item> \<open>Ownership_Checker\<close> (\<^verbatim>\<open>pkg/ownership/checker.go\<close>), \<open>Backend_Server\<close> (\<^verbatim>\<open>cmd/backend/main.go\<close>) and
  \<open>Jwt_Generator\<close> (\<^verbatim>\<open>k6/generate_jwt.go\<close>): the programs at the other ends of the proxy.

  \<^bold>\<open>Loops and bounds.\<close> Loops over data are structural recursion. A loop that may run for ever is a
  \<^verbatim>\<open>partial_function\<close> whose value \<^const>\<open>None\<close> is not returning, with a lemma that it returns: the
  SCAN loops under the documented promise that a full scan ends (\<open>table_users_loop_scan\<close>,
  \<open>sticky_users_loop_scan\<close>; the only fuel is the number of pages in that promise, which is
  quantified existentially), waiting for the lock until the context ends (\<open>acquire_loop_ends\<close>),
  registration until Redis answers (\<open>register_loop_returns\<close>), reading a message
  (\<open>read_loop_result\<close>). \<open>check_batches\<close> and \<open>parse_elements\<close> recurse on shorter lists. The channel
  capacities are the code's: 8 and 16 in the bridge, 64 in the notifier, 1 in the watch loop.

  \<^bold>\<open>What the theorems show to go wrong.\<close> Several properties pin down behaviour that the code or its
  comments do not intend: sequential failures never trip a breaker, a drained or evicted
  backend attracts users again, duplicate keys make the counters drift, a response header
  makes cache and table disagree, a removed backend is never added again by health checks, a
  large drain on PostgreSQL strands its users, and a swap can lose messages or the bridge.

  \<^bold>\<open>Not modelled.\<close> The HTTP server, signals and graceful shutdown (\<^verbatim>\<open>main\<close> of both commands,
  \<^verbatim>\<open>Proxy.Stop\<close> and the \<^verbatim>\<open>Stop\<close> methods of the tickers): they only start and end what is modelled.
  The construction of the Kubernetes client and informer factory, connection pools and
  transports beyond their defaults, and the buffer pool of the reverse proxy: library
  configuration without behaviour of its own. JSON text and SQL text below their fields and
  statements, and logging. The k6 scripts, container and Kubernetes manifests: they drive a
  deployment and contain no part of the proxy. Data races on unsynchronised fields are outside
  the model except where a step relation names them.
\<close>

end
